(* ===== verification/Prelude.thy ===== *)
theory Prelude
  imports Main "HOL-Library.Word" "HOL-Library.Monad_Syntax"
begin

text \<open>
  The shared base of the development: the names of the machine types the C++ code uses, the
  \<open>named_theorems\<close> collections its automation runs on, generic facts about words and bits,
  and two interfaces that several components implement:
  \<^item> \<open>machine\<close>: a component with an invariant that each of its operations keeps;
  \<^item> \<open>wire_format\<close>: a printer and a parser of one message format.

  \<open>uint8_t\<close>, \<open>uint16_t\<close>, \<open>uint32_t\<close>, \<open>uint64_t\<close> and \<open>int16_t\<close> are words of that width
  (\<open>int16_t\<close> is read with \<open>sint\<close>). \<open>int\<close> values that the code computes from them are kept in
  \<open>int\<close> where their range is small; \<open>size_t\<close> is \<open>nat\<close>; \<open>std::string\<close> is \<open>string\<close> (bytes).
\<close>

unbundle bit_operations_syntax

type_synonym u8 = "8 word"
type_synonym u16 = "16 word"
type_synonym u32 = "32 word"
type_synonym u64 = "64 word"
type_synonym bytes = "u8 list"

named_theorems bits_arith \<open>bit operations of the code as arithmetic\<close>
named_theorems inv_intro \<open>invariant preservation, one rule per operation\<close>

section \<open>Bit operations as arithmetic\<close>

lemma int_and_15 [bits_arith]: "(x :: int) AND 15 = x mod 16"
  using take_bit_eq_mask [of 4 x] by (simp add: take_bit_eq_mod mask_eq_exp_minus_1)

lemma int_and_7 [bits_arith]: "(x :: int) AND 7 = x mod 8"
  using take_bit_eq_mask [of 3 x] by (simp add: take_bit_eq_mod mask_eq_exp_minus_1)

lemma int_and_255 [bits_arith]: "(x :: int) AND 255 = x mod 256"
  using take_bit_eq_mask [of 8 x] by (simp add: take_bit_eq_mod mask_eq_exp_minus_1)

lemma int_and_128 [bits_arith]: "(x :: int) AND 128 = (if even (x div 128) then 0 else 128)"
proof (rule bit_eqI)
  fix n
  have b: "bit (128::int) n \<longleftrightarrow> n = 7" using bit_exp_iff[where 'a=int, of 7 n] by simp
  show "bit (x AND 128) n = bit (if even (x div 128) then 0 else 128 :: int) n"
    using bit_iff_odd[of x 7] by (auto simp: bit_and_iff b)
qed

lemma int_or_add_low:
  assumes "0 \<le> (y :: int)" "y < 2 ^ n"
  shows "push_bit n x OR y = x * 2 ^ n + y"
proof -
  have y: "y = take_bit n y" using assms by (simp add: take_bit_int_eq_self)
  have "push_bit n x AND y = 0"
    by (subst y) (rule bit_eqI, auto simp: bit_simps)
  then have "push_bit n x OR y = push_bit n x + y"
    by (simp add: disjunctive_add_eq_or)
  then show ?thesis by (simp add: push_bit_eq_mult)
qed

lemma int_xor_add_low:
  assumes "0 \<le> (y :: int)" "y < 2 ^ n"
  shows "y XOR 2 ^ n = y + 2 ^ n"
proof -
  have y: "y = take_bit n y" using assms by (simp add: take_bit_int_eq_self)
  have "y AND 2 ^ n = 0"
    by (subst y) (rule bit_eqI, auto simp: bit_simps)
  then show ?thesis by (simp add: disjunctive_add_eq_xor)
qed

section \<open>Division and the signed reading of words\<close>

lemma sint_word_of_int_u16: "- 32768 \<le> x \<Longrightarrow> x < 32768 \<Longrightarrow> sint (word_of_int x :: u16) = x"
  by (simp add: sint_sbintrunc' signed_take_bit_int_eq_self)

lemma uint_word_of_int_u8: "0 \<le> x \<Longrightarrow> x < 256 \<Longrightarrow> uint (word_of_int x :: u8) = x"
  by (simp add: uint_word_of_int_eq take_bit_int_eq_self)

lemma u8_not_not: "0 \<le> n \<Longrightarrow> n < 256 \<Longrightarrow>
    uint (word_of_int (NOT (uint (word_of_int (NOT n) :: u8))) :: u8) = n"
  by (simp add: uint_word_of_int_eq take_bit_not_take_bit take_bit_int_eq_self)

lemma sint_u16_bounds: "- 32768 \<le> sint (s :: u16)" "sint (s :: u16) < 32768"
  using sint_greater_eq [of s] sint_lt [of s] by simp_all

lemma int_div_eqI: "q * d \<le> m \<Longrightarrow> m < (q + 1) * d \<Longrightarrow> m div d = (q :: int)"
  by (rule int_div_pos_eq [of _ _ _ "m - q * d"]) (simp_all add: algebra_simps)

lemma int_div_bounds:
  assumes "0 < (d :: int)" shows "m div d * d \<le> m" "m < (m div d + 1) * d"
proof -
  have "0 \<le> m mod d" "m mod d < d" using assms by simp_all
  then show "m div d * d \<le> m" "m < (m div d + 1) * d"
    using div_mult_mod_eq [of m d] unfolding distrib_right mult_1_left by linarith+
qed

lemma sint_u16_eq: "sint (x :: u16) = (if x < 0x8000 then uint x else uint x - 65536)"
proof -
  have "sint x = (uint x + 32768) mod 65536 - 32768" using int_word_sint [where 'a = 16, of "uint x"] by simp
  moreover have "0 \<le> uint x" "uint x < 65536" using uint_lt2p [of x] by simp_all
  ultimately show ?thesis
    by (auto simp: word_less_def int_mod_pos_eq [of _ _ 0] int_mod_pos_eq [of _ _ 1 "uint x - 32768"])
qed

lemma mask_consts:
  "(15 :: 'a::len word) = mask 4" "(127 :: 'a::len word) = mask 7"
  "(255 :: 'a::len word) = mask 8" "(3 :: 'a::len word) = mask 2"
  by (simp_all add: mask_eq_exp_minus_1)

lemma flag_bit: "(drop_bit n (w :: 'a::len word) AND 1 \<noteq> 0) = bit w n"
proof -
  have "(drop_bit n w AND 1 = 0) = (\<not> bit (drop_bit n w) 0)"
    using and_exp_eq_0_iff_not_bit [of "drop_bit n w" 0] by simp
  then show ?thesis by (simp add: bit_simps)
qed

lemma drop_at: "xs = a @ b \<Longrightarrow> length a = n \<Longrightarrow> drop n xs = b"
  by simp

section \<open>Reads of a byte buffer\<close>

text \<open>
  A read through a pointer is defined only inside the buffer. The models of the parsers return
  \<open>None\<close> of an outer option where the C++ would read outside its buffer (undefined behaviour), so
  that memory safety is the theorem that this \<open>None\<close> never comes out.
\<close>

definition rd8 :: "bytes \<Rightarrow> nat \<Rightarrow> u8 option" where
  "rd8 data i = (if i < length data then Some (data ! i) else None)"

definition slice :: "'a list \<Rightarrow> nat \<Rightarrow> nat \<Rightarrow> 'a list option" where
  "slice data start stop = (if start \<le> stop \<and> stop \<le> length data
     then Some (take (stop - start) (drop start data)) else None)"

lemma rd8_Some [simp]: "i < length d \<Longrightarrow> rd8 d i = Some (d ! i)"
  by (simp add: rd8_def)

lemma slice_Some [simp]: "i \<le> j \<Longrightarrow> j \<le> length d \<Longrightarrow> slice d i j = Some (take (j - i) (drop i d))"
  by (simp add: slice_def)

section \<open>Interfaces shared by the components\<close>

text \<open>A printer and a parser: what is printed from a well-formed value parses to its normal form.\<close>

locale wire_format =
  fixes put :: "'a \<Rightarrow> 'b"
    and get :: "'b \<Rightarrow> 'a option"
    and wf :: "'a \<Rightarrow> bool"
    and norm :: "'a \<Rightarrow> 'a"
  assumes get_put: "wf x \<Longrightarrow> get (put x) = Some (norm x)"
    and wf_norm: "wf x \<Longrightarrow> wf (norm x)"
    and norm_norm: "wf x \<Longrightarrow> norm (norm x) = norm x"
begin

lemma put_inj: "wf x \<Longrightarrow> wf y \<Longrightarrow> put x = put y \<Longrightarrow> norm x = norm y"
  by (metis get_put option.inject)

lemma get_put_norm: "wf x \<Longrightarrow> get (put (norm x)) = Some (norm x)"
  by (simp add: get_put wf_norm norm_norm)

lemma forward_stable: "wf x \<Longrightarrow> get (put x) = Some y \<Longrightarrow> get (put y) = Some y"
  using get_put get_put_norm by force

end

text \<open>
  A component with an invariant: from the initial state, any sequence of operations stays inside
  it. \<open>run\<close> is the state after a list of operations.
\<close>

locale machine =
  fixes step :: "'s \<Rightarrow> 'e \<Rightarrow> 's"
    and inv :: "'s \<Rightarrow> bool"
  assumes inv_step: "inv s \<Longrightarrow> inv (step s e)"
begin

lemma inv_run: "inv s \<Longrightarrow> inv (foldl step s es)"
  by (induction es arbitrary: s) (simp_all add: inv_step)

lemma inv_run_prefix: "inv s \<Longrightarrow> inv (foldl step s (take n es))"
  by (rule inv_run)

end

end
