(* ===== verification/G711.thy ===== *)
theory G711
  imports Prelude
begin

text \<open>
  The G.711 companding codec of src/src/codec/G711.cpp: \<open>seg\<close>, the mu-law and A-law coders
  and decoders on one sample, and the bulk helpers. \<open>int\<close> intermediates of the code never
  leave the range of a 32-bit integer here, so they are HOL integers.
\<close>

section \<open>Definitions\<close>

definition kMuBias :: int where "kMuBias = 0x84"
definition kMuClip :: int where "kMuClip = 32635"

text \<open>The loop of \<open>seg\<close> over the table; the result is the table's size when nothing matches.\<close>

primrec seg :: "int \<Rightarrow> int list \<Rightarrow> nat" where
  "seg v [] = 0"
| "seg v (t # ts) = (if v \<le> t then 0 else Suc (seg v ts))"

definition muSegEnd :: "int list" where
  "muSegEnd = [0xFF, 0x1FF, 0x3FF, 0x7FF, 0xFFF, 0x1FFF, 0x3FFF, 0x7FFF]"

definition encodeMuLaw :: "u16 \<Rightarrow> u8" where
  "encodeMuLaw sample =
    (let sign = drop_bit 8 (sint sample) AND 0x80;
         mag = (if sign \<noteq> 0 then - sint sample else sint sample);
         mag = (if mag > kMuClip then kMuClip else mag);
         mag = mag + kMuBias;
         segment = seg mag muSegEnd;
         code = (if 8 \<le> segment then 0x7F
                 else uint (word_of_int (push_bit 4 (int segment)
                        OR (drop_bit (segment + 3) mag AND 0x0F)) :: u8))
     in word_of_int (NOT (code OR sign)))"

definition decodeMuLaw :: "u8 \<Rightarrow> u16" where
  "decodeMuLaw code0 =
    (let code = uint (word_of_int (NOT (uint code0)) :: u8);
         sign = code AND 0x80;
         segment = drop_bit 4 code AND 0x07;
         mantissa = code AND 0x0F;
         mag = push_bit (nat segment) (push_bit 3 mantissa + kMuBias);
         mag = mag - kMuBias
     in word_of_int (if sign \<noteq> 0 then - mag else mag))"

definition aSegEnd :: "int list" where
  "aSegEnd = [0x1F, 0x3F, 0x7F, 0xFF, 0x1FF, 0x3FF, 0x7FF, 0xFFF]"

definition encodeALaw :: "u16 \<Rightarrow> u8" where
  "encodeALaw sample =
    (let pcm0 = drop_bit 3 (sint sample);
         mask = (if 0 \<le> pcm0 then 0xD5 else 0x55 :: u8);
         pcm = (if 0 \<le> pcm0 then pcm0
                else if - pcm0 - 1 < 0 then 0 else - pcm0 - 1);
         segment = seg pcm aSegEnd
     in if 8 \<le> segment then 0x7F XOR mask
        else let code = word_of_int (push_bit 4 (int segment)) :: u8;
                 code = (if segment < 2 then code OR word_of_int (drop_bit 1 pcm AND 0x0F)
                         else code OR word_of_int (drop_bit segment pcm AND 0x0F))
             in code XOR mask)"

definition decodeALaw :: "u8 \<Rightarrow> u16" where
  "decodeALaw code0 =
    (let code = code0 XOR 0x55;
         t = push_bit 4 (uint code AND 0x0F);
         segment = drop_bit 4 (uint code AND 0x70);
         t = (if segment = 0 then t + 8
              else if segment = 1 then t + 0x108
              else push_bit (nat (segment - 1)) (t + 0x108))
     in word_of_int (if uint code AND 0x80 \<noteq> 0 then t else - t))"

text \<open>The bulk helpers push one result per element.\<close>

primrec encodeMuLaw_bulk :: "u16 list \<Rightarrow> u8 list" where
  "encodeMuLaw_bulk [] = []"
| "encodeMuLaw_bulk (s # pcm) = encodeMuLaw s # encodeMuLaw_bulk pcm"

primrec decodeMuLaw_bulk :: "u8 list \<Rightarrow> u16 list" where
  "decodeMuLaw_bulk [] = []"
| "decodeMuLaw_bulk (c # codes) = decodeMuLaw c # decodeMuLaw_bulk codes"

primrec encodeALaw_bulk :: "u16 list \<Rightarrow> u8 list" where
  "encodeALaw_bulk [] = []"
| "encodeALaw_bulk (s # pcm) = encodeALaw s # encodeALaw_bulk pcm"

primrec decodeALaw_bulk :: "u8 list \<Rightarrow> u16 list" where
  "decodeALaw_bulk [] = []"
| "decodeALaw_bulk (c # codes) = decodeALaw c # decodeALaw_bulk codes"

section \<open>The quantisation cells of mu-law\<close>

text \<open>
  A biased magnitude lies in exactly one cell: segment \<open>k\<close> and mantissa \<open>q\<close>. The encoder finds
  the cell, the decoder returns its midpoint \<open>mu_level\<close>; every law about the codec is a fact about
  cells.
\<close>

lemma sint_sign_bit:
  "drop_bit 8 (sint (s :: u16)) AND 0x80 = (if sint s < 0 then 128 else 0)"
proof -
  have "sint s div 256 div 128 = sint s div 32768" by (simp add: zdiv_zmult2_eq [symmetric])
  moreover have "sint s div 32768 = (if sint s < 0 then - 1 else 0)"
    using sint_u16_bounds [of s] by (auto intro: int_div_eqI)
  ultimately have *: "sint s div 256 div 128 = (if sint s < 0 then - 1 else 0)" by simp
  show ?thesis
    by (simp add: drop_bit_eq_div int_and_128 *)
qed

lemma seg_index_cases: "(k::nat) < 8 \<Longrightarrow>
    k = 0 \<or> k = 1 \<or> k = 2 \<or> k = 3 \<or> k = 4 \<or> k = 5 \<or> k = 6 \<or> k = 7"
  by arith

lemma seg_mu: "k < 8 \<Longrightarrow> 2 ^ (k + 7) \<le> m \<or> k = 0 \<Longrightarrow> m < 2 ^ (k + 8) \<Longrightarrow> seg m muSegEnd = k"
  by (drule seg_index_cases) (auto simp: muSegEnd_def)

definition mu_cell :: "nat \<Rightarrow> int \<Rightarrow> int \<Rightarrow> bool" where
  "mu_cell k q m \<longleftrightarrow> k < 8 \<and> 0 \<le> q \<and> q < 16
     \<and> (16 + q) * 2 ^ (k + 3) \<le> m \<and> m < (17 + q) * 2 ^ (k + 3)"

lemma mu_cell_bounds:
  assumes "mu_cell k q m" shows "2 ^ (k + 7) \<le> m" "m < 2 ^ (k + 8)"
proof -
  have "16 * 2 ^ (k + 3) \<le> (16 + q) * (2::int) ^ (k + 3)" "(17 + q) * (2::int) ^ (k + 3) \<le> 32 * 2 ^ (k + 3)"
    using assms by (auto simp: mu_cell_def intro: mult_right_mono)
  moreover have "2 ^ (k + 7) = 16 * (2::int) ^ (k + 3)" "2 ^ (k + 8) = 32 * (2::int) ^ (k + 3)"
    by (simp_all add: power_add)
  ultimately show "2 ^ (k + 7) \<le> m" "m < 2 ^ (k + 8)"
    using assms unfolding mu_cell_def by linarith+
qed

lemma mu_cell_exists:
  assumes "128 \<le> m" "m < 32768"
  obtains k q where "mu_cell k q m"
proof -
  have "\<exists>k<8. 2 ^ (k + 7) \<le> m \<and> m < 2 ^ (k + 8)"
  proof -
    have "m < 256 \<or> m < 512 \<or> m < 1024 \<or> m < 2048 \<or> m < 4096 \<or> m < 8192 \<or> m < 16384 \<or> m < 32768"
      using assms by simp
    then show ?thesis using assms
      by (cases "m < 256"; cases "m < 512"; cases "m < 1024"; cases "m < 2048"; cases "m < 4096";
          cases "m < 8192"; cases "m < 16384")
        (auto simp: intro: exI [of _ 0] exI [of _ 1] exI [of _ 2] exI [of _ 3] exI [of _ 4]
           exI [of _ 5] exI [of _ 6] exI [of _ 7])
  qed
  then obtain k where k: "k < 8" "2 ^ (k + 7) \<le> m" "m < 2 ^ (k + 8)" by blast
  let ?D = "2 ^ (k + 3) :: int" and ?q = "m div 2 ^ (k + 3) - 16"
  have b: "16 * ?D \<le> m" "m < 32 * ?D"
    using k by (simp_all add: power_add)
  have dm: "m div ?D * ?D \<le> m" "m < (m div ?D + 1) * ?D" by (rule int_div_bounds, simp)+
  have "(m div ?D) * ?D < 32 * ?D" "16 * ?D < (m div ?D + 1) * ?D" using b dm by linarith+
  then have "m div ?D < 32" "16 < m div ?D + 1"
    by (simp_all only: mult_less_cancel_right) simp_all
  then show ?thesis using k dm by (intro that [of k ?q]) (simp add: mu_cell_def algebra_simps)
qed

definition mu_level :: "nat \<Rightarrow> int \<Rightarrow> int" where
  "mu_level k q = (16 + q) * 2 ^ (k + 3) + 2 ^ (k + 2) - 132"

definition mu_code :: "bool \<Rightarrow> nat \<Rightarrow> int \<Rightarrow> u8" where
  "mu_code neg k q = word_of_int (NOT (int k * 16 + q + (if neg then 128 else 0)))"

lemma encodeMuLaw_cell:
  assumes "mu_cell k q (min \<bar>sint s\<bar> 32635 + 132)"
  shows "encodeMuLaw s = mu_code (sint s < 0) k q"
proof -
  let ?m = "min \<bar>sint s\<bar> 32635 + 132"
  have k: "k < 8" "0 \<le> q" "q < 16" using assms by (simp_all add: mu_cell_def)
  have seg: "seg ?m muSegEnd = k" using mu_cell_bounds [OF assms] k(1) by (blast intro: seg_mu)
  have mant: "drop_bit (k + 3) ?m AND 0x0F = q"
  proof -
    have "?m div 2 ^ (k + 3) = 16 + q"
      using assms by (intro int_div_eqI) (simp_all add: mu_cell_def)
    then show ?thesis using k by (simp add: drop_bit_eq_div int_and_15)
  qed
  have or1: "push_bit 4 (int k) OR q = int k * 16 + q"
    using int_or_add_low [of q 4 "int k"] k by simp
  have sign: "(int k * 16 + q) OR (if sint s < 0 then 128 else 0)
      = int k * 16 + q + (if sint s < 0 then 128 else 0)"
    using int_or_add_low [of "int k * 16 + q" 7 1] k by (simp add: or.commute)
  have "uint (word_of_int (int k * 16 + q) :: u8) = int k * 16 + q"
    using k by (intro uint_word_of_int_u8) simp_all
  moreover have "(if kMuClip < (if drop_bit 8 (sint s) AND 0x80 \<noteq> 0 then - sint s else sint s)
      then kMuClip else if drop_bit 8 (sint s) AND 0x80 \<noteq> 0 then - sint s else sint s) + kMuBias = ?m"
    by (simp add: sint_sign_bit kMuClip_def kMuBias_def)
  ultimately have "encodeMuLaw s
      = word_of_int (NOT ((int k * 16 + q) OR (drop_bit 8 (sint s) AND 0x80)))"
    using k(1) by (simp only: encodeMuLaw_def Let_def seg mant or1) simp
  then show ?thesis by (simp only: mu_code_def sign sint_sign_bit)
qed

lemma decodeMuLaw_code:
  assumes "k < 8" "0 \<le> q" "q < 16"
  shows "sint (decodeMuLaw (mu_code neg k q)) = (if neg then - mu_level k q else mu_level k q)"
proof -
  let ?n = "int k * 16 + q + (if neg then 128 else 0)"
  have n: "uint (word_of_int (NOT (uint (mu_code neg k q))) :: u8) = ?n"
    unfolding mu_code_def using assms by (intro u8_not_not) auto
  have d: "?n div 16 = int k + (if neg then 8 else 0)" "?n div 128 = (if neg then 1 else 0)"
    using assms by (auto intro: int_div_eqI)
  moreover have "?n mod 16 = q"
    using assms(2,3) by (intro int_mod_pos_eq [of _ _ "int k + (if neg then 8 else 0)"]) simp_all
  ultimately have e: "drop_bit 4 ?n AND 7 = int k" "?n AND 15 = q" "(?n AND 128 \<noteq> 0) = neg"
    using assms by (auto simp: drop_bit_eq_div int_and_7 int_and_15 int_and_128)
  have "push_bit k (push_bit 3 q + kMuBias) - kMuBias = mu_level k q"
    by (simp add: push_bit_eq_mult kMuBias_def mu_level_def power_add algebra_simps)
  moreover have "0 \<le> mu_level k q" "mu_level k q < 32768"
    using seg_index_cases [OF assms(1)] assms(2,3) by (auto simp: mu_level_def)
  ultimately show ?thesis
    by (simp only: decodeMuLaw_def n Let_def e nat_int)
      (auto simp: sint_word_of_int_u16 simp del: of_int_minus)
qed

lemma mu_level_range: "k < 8 \<Longrightarrow> 0 \<le> q \<Longrightarrow> q < 16 \<Longrightarrow> 0 \<le> mu_level k q \<and> mu_level k q \<le> 32124"
  by (drule seg_index_cases) (auto simp: mu_level_def)

lemma mu_level_cell: "k < 8 \<Longrightarrow> 0 \<le> q \<Longrightarrow> q < 16 \<Longrightarrow> mu_cell k q (mu_level k q + 132)"
  by (simp add: mu_cell_def mu_level_def power_add algebra_simps)

lemma mu_level_pos: "k < 8 \<Longrightarrow> 0 \<le> q \<Longrightarrow> 0 < k \<or> 0 < q \<Longrightarrow> 0 < mu_level k q"
  by (drule seg_index_cases) (auto simp: mu_level_def)

lemma u8_mu_code:
  obtains neg k q where "c = mu_code neg k q" "k < 8" "0 \<le> q" "q < 16"
proof -
  let ?n = "255 - uint (c :: u8)"
  have n: "0 \<le> ?n" "?n < 256" using uint_lt2p [of c] uint_ge_0 [of c] by (simp, linarith)
  let ?neg = "128 \<le> ?n" and ?k = "nat ((?n mod 128) div 16)" and ?q = "?n mod 16"
  have "(?n mod 128) mod 16 = ?n mod 16" by (simp add: mod_mod_cancel)
  then have "?n mod 128 = int ?k * 16 + ?q"
    using div_mult_mod_eq [of "?n mod 128" 16] by simp
  moreover have "?n = ?n mod 128 + (if ?neg then 128 else 0)"
  proof (cases ?neg)
    case True
    then have "?n div 128 = 1" using n by (intro int_div_eqI) simp_all
    then show ?thesis using div_mult_mod_eq [of ?n 128] True by simp
  next
    case False
    then show ?thesis using n by simp
  qed
  ultimately have "?n = int ?k * 16 + ?q + (if ?neg then 128 else 0)" by simp
  moreover have "c = word_of_int (NOT ?n)"
  proof -
    have "NOT ?n = uint c - 256" by (simp add: not_int_def)
    then have "word_of_int (NOT ?n) = (word_of_int (uint c) - word_of_int 256 :: u8)"
      by (simp only: of_int_diff)
    then show ?thesis by simp
  qed
  moreover have "?k < 8" by simp
  ultimately show ?thesis by (intro that [of ?neg ?k ?q]) (simp_all add: mu_code_def)
qed

lemma muLaw_roundtrip:
  assumes "c \<noteq> 0x7F"
  shows "encodeMuLaw (decodeMuLaw c) = c"
proof -
  obtain neg k q where c: "c = mu_code neg k q" and kq: "k < 8" "0 \<le> q" "q < 16"
    by (rule u8_mu_code)
  let ?s = "decodeMuLaw c"
  have s: "sint ?s = (if neg then - mu_level k q else mu_level k q)"
    using decodeMuLaw_code [OF kq] by (simp add: c)
  have r: "0 \<le> mu_level k q" "mu_level k q \<le> 32124" using mu_level_range [OF kq] by simp_all
  have "mu_cell k q (min \<bar>sint ?s\<bar> 32635 + 132)"
    using mu_level_cell [OF kq] r by (simp add: s)
  then have enc: "encodeMuLaw ?s = mu_code (sint ?s < 0) k q" by (rule encodeMuLaw_cell)
  have "0 < mu_level k q" if neg
  proof (rule mu_level_pos [OF kq(1,2)], rule ccontr)
    assume "\<not> (0 < k \<or> 0 < q)"
    then have "c = 0x7F" using kq that by (simp add: c mu_code_def)
    with assms show False by simp
  qed
  then have "(sint ?s < 0) = neg" using r by (auto simp: s)
  with enc show ?thesis by (simp only: c)
qed

lemma muLaw_error:
  "32 * \<bar>sint (decodeMuLaw (encodeMuLaw s)) - sint s\<bar> \<le> \<bar>sint s\<bar> + 132"
proof -
  let ?a = "\<bar>sint s\<bar>"
  let ?m = "min ?a 32635 + 132"
  have a: "?a \<le> 32768" using sint_u16_bounds [of s] by simp
  obtain k q where cell: "mu_cell k q ?m"
    by (rule mu_cell_exists [of ?m]) simp_all
  then have kq: "k < 8" "0 \<le> q" "q < 16" by (simp_all add: mu_cell_def)
  have d: "sint (decodeMuLaw (encodeMuLaw s)) = (if sint s < 0 then - mu_level k q else mu_level k q)"
    by (simp add: encodeMuLaw_cell [OF cell] decodeMuLaw_code [OF kq])
  have f: "\<bar>mu_level k q + 132 - ?m\<bar> \<le> 2 ^ (k + 2)"
  proof -
    have "(17 + q) * (2::int) ^ (k + 3) = (16 + q) * 2 ^ (k + 3) + 2 * 2 ^ (k + 2)"
      by (simp add: power_add algebra_simps)
    then show ?thesis using cell unfolding mu_cell_def mu_level_def by linarith
  qed
  moreover have g: "32 * 2 ^ (k + 2) \<le> ?m" "(2::int) ^ (k + 2) \<le> 2 ^ 9"
    using kq  mu_cell_bounds(1) [OF cell] by (simp add: power_add, intro power_increasing, simp_all)
  ultimately have e: "32 * \<bar>mu_level k q + 132 - ?m\<bar> \<le> ?m" by linarith
  show ?thesis
  proof (cases "?a \<le> 32635")
    case True
    then have "32 * \<bar>mu_level k q - ?a\<bar> \<le> ?a + 132" using e by simp
    then show ?thesis
      unfolding d using abs_minus_cancel [of "mu_level k q + sint s"] by (auto split: if_split)
  next
    case False
    then have "\<bar>mu_level k q - ?a\<bar> \<le> 1024" using f g(2) mu_level_range [OF kq] a by (simp add: min_def)
    then show ?thesis
      using False abs_minus_cancel [of "mu_level k q + sint s"] by (auto simp: d)
  qed
qed

lemma mu_level_mono:
  assumes "mu_cell k q m" "mu_cell k' q' m'" "m \<le> m'"
  shows "mu_level k q \<le> mu_level k' q'"
proof -
  have b: "2 ^ (k + 7) \<le> m" "m < 2 ^ (k + 8)" "2 ^ (k' + 7) \<le> m'" "m' < 2 ^ (k' + 8)"
    using assms mu_cell_bounds by blast+
  have q: "0 \<le> q" "q < 16" "0 \<le> q'" "q' < 16" using assms by (simp_all add: mu_cell_def)
  have half: "(2::int) ^ (j + 3) = 2 * 2 ^ (j + 2)" "0 < (2::int) ^ (j + 2)" for j
    by (simp_all add: power_add)
  consider "k < k'" | "k = k'" | "k' < k" by arith
  then show ?thesis
  proof cases
    case 1
    have "(17 + q) * (2::int) ^ (k + 3) \<le> 2 ^ (k + 8)"
      using q mult_right_mono [of "17 + q" 32 "2 ^ (k + 3)"] by (simp add: power_add)
    moreover have "(2::int) ^ (k + 8) \<le> 2 ^ (k' + 7)" using 1 by (intro power_increasing) simp_all
    moreover have "(2::int) ^ (k' + 7) \<le> (16 + q') * 2 ^ (k' + 3)"
      using q mult_right_mono [of 16 "16 + q'" "2 ^ (k' + 3)"] by (simp add: power_add)
    moreover have "(17 + q) * (2::int) ^ (k + 3) = (16 + q) * 2 ^ (k + 3) + 2 ^ (k + 3)"
      by (simp add: algebra_simps)
    ultimately show ?thesis
      using half [of k] half [of k'] unfolding mu_level_def by linarith
  next
    case 2
    have "(16 + q) * 2 ^ (k + 3) \<le> m" "m' < (17 + q') * 2 ^ (k + 3)"
      using assms 2 by (simp_all add: mu_cell_def)
    then have "(16 + q) * 2 ^ (k + 3) < (17 + q') * 2 ^ (k + 3)"
      using assms(3) by linarith
    then have "q \<le> q'" by (simp add: mult_less_cancel_right)
    then show ?thesis using 2 by (simp add: mu_level_def)
  next
    case 3
    then have "(2::int) ^ (k' + 8) \<le> 2 ^ (k + 7)" by (intro power_increasing) simp_all
    then show ?thesis using b assms(3) by linarith
  qed
qed

lemma muLaw_value:
  obtains k q where "mu_cell k q (min \<bar>sint s\<bar> 32635 + 132)" "0 \<le> mu_level k q"
    "sint (decodeMuLaw (encodeMuLaw s)) = (if sint s < 0 then - mu_level k q else mu_level k q)"
proof -
  obtain k q where cell: "mu_cell k q (min \<bar>sint s\<bar> 32635 + 132)"
    by (rule mu_cell_exists [of "min \<bar>sint s\<bar> 32635 + 132"]) simp_all
  then have kq: "k < 8" "0 \<le> q" "q < 16" by (simp_all add: mu_cell_def)
  show ?thesis
    using encodeMuLaw_cell [OF cell] decodeMuLaw_code [OF kq] mu_level_range [OF kq]
    by (intro that [OF cell]) simp_all
qed

lemma muLaw_mono:
  assumes "sint s \<le> sint t"
  shows "sint (decodeMuLaw (encodeMuLaw s)) \<le> sint (decodeMuLaw (encodeMuLaw t))"
proof -
  obtain k q where s: "mu_cell k q (min \<bar>sint s\<bar> 32635 + 132)" "0 \<le> mu_level k q"
    "sint (decodeMuLaw (encodeMuLaw s)) = (if sint s < 0 then - mu_level k q else mu_level k q)"
    by (rule muLaw_value)
  obtain k' q' where t: "mu_cell k' q' (min \<bar>sint t\<bar> 32635 + 132)" "0 \<le> mu_level k' q'"
    "sint (decodeMuLaw (encodeMuLaw t)) = (if sint t < 0 then - mu_level k' q' else mu_level k' q')"
    by (rule muLaw_value)
  consider "sint t < 0" | "sint s < 0" "0 \<le> sint t" | "0 \<le> sint s" by arith
  then show ?thesis
    by cases (use assms s t mu_level_mono [OF s(1) t(1)] mu_level_mono [OF t(1) s(1)] in auto)
qed

section \<open>The quantisation cells of A-law\<close>

definition a_cell :: "nat \<Rightarrow> int \<Rightarrow> int \<Rightarrow> bool" where
  "a_cell k q p \<longleftrightarrow> k < 8 \<and> 0 \<le> q \<and> q < 16
     \<and> (if k = 0 then 2 * q \<le> p \<and> p < 2 * q + 2
        else (16 + q) * 2 ^ k \<le> p \<and> p < (17 + q) * 2 ^ k)"

definition a_level :: "nat \<Rightarrow> int \<Rightarrow> int" where
  "a_level k q = (if k = 0 then 16 * q + 8 else (16 + q) * 2 ^ (k + 3) + 2 ^ (k + 2))"

definition a_code :: "bool \<Rightarrow> nat \<Rightarrow> int \<Rightarrow> u8" where
  "a_code pos k q = word_of_int (int k * 16 + q + (if pos then 128 else 0)) XOR 0x55"

text \<open>The 13-bit magnitude the encoder looks up.\<close>

definition a_mag :: "u16 \<Rightarrow> int" where
  "a_mag s = (if 0 \<le> sint s then sint s div 8 else - (sint s div 8) - 1)"

lemma a_mag_range: "0 \<le> a_mag s" "a_mag s < 4096"
  using sint_u16_bounds [of s] by (auto simp: a_mag_def)

lemma a_mag_eq: "8 * a_mag s \<le> \<bar>sint s\<bar>" "\<bar>sint s\<bar> \<le> 8 * a_mag s + 8"
    "0 \<le> sint s \<Longrightarrow> \<bar>sint s\<bar> \<le> 8 * a_mag s + 7"
  using int_div_bounds [of 8 "sint s"] by (auto simp: a_mag_def)

lemma a_cell_exists:
  assumes "0 \<le> p" "p < 4096"
  obtains k q where "a_cell k q p"
proof (cases "p < 32")
  case True
  then show ?thesis
    using assms int_div_bounds [of 2 p] by (intro that [of 0 "p div 2"]) (simp add: a_cell_def)
next
  case False
  obtain k q where m: "mu_cell k q (8 * p)"
    by (rule mu_cell_exists [of "8 * p"]) (use assms False in simp_all)
  have "k \<noteq> 0" using mu_cell_bounds [OF m] False by (cases k) simp_all
  then show ?thesis
    using m by (intro that [of k q]) (simp add: a_cell_def mu_cell_def power_add algebra_simps)
qed

lemma seg_a: "k < 8 \<Longrightarrow> a_cell k q p \<Longrightarrow> seg p aSegEnd = k"
  by (drule seg_index_cases) (auto simp: a_cell_def aSegEnd_def)

lemma a_mask: "0 \<le> n \<Longrightarrow> n < 128 \<Longrightarrow> (word_of_int n :: u8) XOR 0xD5 = word_of_int (n + 128) XOR 0x55"
proof -
  assume n: "0 \<le> n" "n < 128"
  have "(word_of_int n :: u8) XOR 0xD5 = (word_of_int n XOR 0x80) XOR 0x55"
    by (simp add: xor.assoc)
  also have "(word_of_int n :: u8) XOR 0x80 = word_of_int (n XOR 0x80)"
    by (simp add: of_int_xor_eq)
  also have "n XOR 0x80 = n + 128" using int_xor_add_low [of n 7] n by simp
  finally show ?thesis .
qed

lemma encodeALaw_cell:
  assumes "a_cell k q (a_mag s)"
  shows "encodeALaw s = a_code (0 \<le> sint s) k q"
proof -
  have k: "k < 8" "0 \<le> q" "q < 16" using assms by (simp_all add: a_cell_def)
  have seg: "seg (a_mag s) aSegEnd = k" using k(1) assms by (rule seg_a)
  have pos: "(0 \<le> drop_bit 3 (sint s)) = (0 \<le> sint s)"
    by (simp add: drop_bit_eq_div pos_imp_zdiv_nonneg_iff)
  have mag: "(if 0 \<le> drop_bit 3 (sint s) then drop_bit 3 (sint s)
      else if - drop_bit 3 (sint s) - 1 < 0 then 0 else - drop_bit 3 (sint s) - 1) = a_mag s"
    using a_mag_range [of s] unfolding pos by (auto simp: a_mag_def drop_bit_eq_div)
  have q: "drop_bit (if k < 2 then 1 else k) (a_mag s) AND 0x0F = q"
  proof -
    have "a_mag s div 2 ^ (if k < 2 then 1 else k) = (if k = 0 then q else 16 + q)"
    proof (cases "k < 2")
      case True
      then have "k = 0 \<or> k = 1" by auto
      then show ?thesis using assms by (auto simp: a_cell_def intro!: int_div_eqI)
    next
      case False
      then show ?thesis using assms by (auto simp: a_cell_def algebra_simps intro!: int_div_eqI)
    qed
    then show ?thesis using k by (simp add: drop_bit_eq_div int_and_15)
  qed
  have or1: "(word_of_int (push_bit 4 (int k)) :: u8) OR word_of_int q = word_of_int (int k * 16 + q)"
    using int_or_add_low [of q 4 "int k"] k by (simp only: of_int_or_eq [symmetric]) simp
  have "encodeALaw s = word_of_int (int k * 16 + q) XOR (if 0 \<le> sint s then 0xD5 else 0x55)"
    unfolding encodeALaw_def Let_def unfolding mag seg unfolding pos using k(1) q
    by (cases "k < 2") (simp_all only: or1 if_True if_False, simp_all)
  then show ?thesis using a_mask [of "int k * 16 + q"] k by (simp add: a_code_def)
qed

lemma a_level_range: "k < 8 \<Longrightarrow> 0 \<le> q \<Longrightarrow> q < 16 \<Longrightarrow> 8 \<le> a_level k q \<and> a_level k q \<le> 32256"
  by (drule seg_index_cases) (auto simp: a_level_def)

lemma a_code_bits: "0 \<le> q \<Longrightarrow> q < 16 \<Longrightarrow> k < 8 \<Longrightarrow>
    uint (a_code pos k q XOR 0x55) = int k * 16 + q + (if pos then 128 else 0)"
  unfolding a_code_def by (simp only: xor.assoc xor_self_eq xor.right_neutral) (rule uint_word_of_int_u8, auto)

lemma decodeALaw_code:
  assumes "k < 8" "0 \<le> q" "q < 16"
  shows "sint (decodeALaw (a_code pos k q)) = (if pos then a_level k q else - a_level k q)"
proof -
  let ?n = "int k * 16 + q + (if pos then 128 else 0)"
  have u: "uint (a_code pos k q XOR 0x55) = ?n" using assms by (intro a_code_bits)
  have d: "?n div 16 = int k + (if pos then 8 else 0)" "?n div 128 = (if pos then 1 else 0)"
    using assms by (auto intro: int_div_eqI)
  moreover have "?n mod 16 = q"
    using assms(2,3) by (intro int_mod_pos_eq [of _ _ "int k + (if pos then 8 else 0)"]) simp_all
  ultimately have e: "drop_bit 4 ?n AND 7 = int k" "?n AND 15 = q" "(?n AND 128 \<noteq> 0) = pos"
    using assms by (auto simp: drop_bit_eq_div int_and_7 int_and_15 int_and_128)
  have seg: "drop_bit 4 (?n AND 0x70) = int k"
    using e(1) by (simp add: drop_bit_and)
  have t: "(if int k = 0 then push_bit 4 q + 8 else if int k = 1 then push_bit 4 q + 0x108
      else push_bit (nat (int k - 1)) (push_bit 4 q + 0x108)) = a_level k q"
    using seg_index_cases [OF assms(1)] by (auto simp: a_level_def push_bit_eq_mult)
  show ?thesis
    unfolding decodeALaw_def Let_def u seg t e
    using a_level_range [OF assms] by (auto simp: sint_word_of_int_u16 simp del: of_int_minus)
qed

lemma a_level_cell: "k < 8 \<Longrightarrow> 0 \<le> q \<Longrightarrow> q < 16 \<Longrightarrow>
   a_cell k q (a_level k q div 8) \<and> a_cell k q (a_level k q div 8 - 1) \<and> a_level k q mod 8 = 0"
  by (drule seg_index_cases) (auto simp: a_level_def a_cell_def)

lemma u8_a_code:
  obtains pos k q where "c = a_code pos k q" "k < 8" "0 \<le> q" "q < 16"
proof -
  obtain neg k q where n: "NOT (c XOR 0x55) = mu_code neg k q" and kq: "k < 8" "0 \<le> q" "q < 16"
    by (rule u8_mu_code)
  have "c XOR 0x55 = NOT (mu_code neg k q)" using n by (metis bit.double_compl)
  also have "\<dots> = word_of_int (int k * 16 + q + (if neg then 128 else 0))"
    unfolding mu_code_def by (simp only: of_int_not_eq bit.double_compl)
  finally have "c = word_of_int (int k * 16 + q + (if neg then 128 else 0)) XOR 0x55"
    by (metis xor.assoc xor_self_eq xor.right_neutral)
  then show ?thesis using kq by (intro that [of neg k q]) (simp_all add: a_code_def)
qed

lemma aLaw_roundtrip: "encodeALaw (decodeALaw c) = c"
proof -
  obtain pos k q where c: "c = a_code pos k q" and kq: "k < 8" "0 \<le> q" "q < 16"
    by (rule u8_a_code)
  let ?s = "decodeALaw c" and ?l = "a_level k q"
  have s: "sint ?s = (if pos then ?l else - ?l)" using decodeALaw_code [OF kq] by (simp add: c)
  have r: "8 \<le> ?l" using a_level_range [OF kq] by simp
  have "?l = 8 * (?l div 8)" using a_level_cell [OF kq] by (metis mult_div_mod_eq add.right_neutral)
  then have "(- ?l) div 8 = - (?l div 8)" by (metis nonzero_mult_div_cancel_left mult_minus_right zero_neq_numeral)
  then have "a_mag ?s = (if pos then ?l div 8 else ?l div 8 - 1)"
    using r by (simp add: a_mag_def s)
  then have "a_cell k q (a_mag ?s)" using a_level_cell [OF kq] by simp
  then have "encodeALaw ?s = a_code (0 \<le> sint ?s) k q" by (rule encodeALaw_cell)
  moreover have "(0 \<le> sint ?s) = pos" using r by (simp add: s)
  ultimately show ?thesis by (simp only: c)
qed

lemma aLaw_value:
  obtains k q where "a_cell k q (a_mag s)"
    "sint (decodeALaw (encodeALaw s)) = (if 0 \<le> sint s then a_level k q else - a_level k q)"
proof -
  obtain k q where cell: "a_cell k q (a_mag s)"
    using a_cell_exists [OF a_mag_range] by blast
  then have kq: "k < 8" "0 \<le> q" "q < 16" by (simp_all add: a_cell_def)
  show ?thesis
    using encodeALaw_cell [OF cell] decodeALaw_code [OF kq] by (intro that [OF cell]) simp
qed

lemma aLaw_error:
  "\<bar>sint (decodeALaw (encodeALaw s)) - sint s\<bar> \<le> max 8 (\<bar>sint s\<bar> div 32)"
proof -
  let ?a = "\<bar>sint s\<bar>"
  obtain k q where cell: "a_cell k q (a_mag s)"
    and d: "sint (decodeALaw (encodeALaw s)) = (if 0 \<le> sint s then a_level k q else - a_level k q)"
    by (rule aLaw_value)
  have kq: "k < 8" "0 \<le> q" "q < 16" using cell by (simp_all add: a_cell_def)
  have "\<bar>a_level k q - ?a\<bar> \<le> (if k = 0 then 8 else 2 ^ (k + 2)) \<and> (k = 0 \<or> 2 ^ (k + 7) \<le> ?a)"
    using a_mag_eq [of s] cell seg_index_cases [OF kq(1)] by (auto simp: a_cell_def a_level_def)
  moreover have "2 ^ (k + 7) \<le> ?a \<Longrightarrow> (2::int) ^ (k + 2) \<le> ?a div 32"
    using zdiv_mono1 [of "2 ^ (k + 7)" ?a 32] by (simp add: power_add)
  ultimately have "\<bar>a_level k q - ?a\<bar> \<le> max 8 (?a div 32)"
    by (cases "k = 0") (simp_all del: power_Suc power_add_numeral2 add: le_max_iff_disj)
  then show ?thesis
    using abs_minus_cancel [of "a_level k q + sint s"] by (auto simp: d)
qed

lemma a_level_mono:
  assumes "a_cell k q p" "a_cell k' q' p'" "p \<le> p'"
  shows "a_level k q \<le> a_level k' q'"
proof -
  have k: "k < 8" "k' < 8" "0 \<le> q" "q < 16" "0 \<le> q'" "q' < 16" using assms by (simp_all add: a_cell_def)
  show ?thesis
    using assms(3) seg_index_cases [OF k(1)] seg_index_cases [OF k(2)] assms(1,2)
    by (auto simp: a_cell_def a_level_def)
qed

lemma aLaw_mono:
  assumes "sint s \<le> sint t"
  shows "sint (decodeALaw (encodeALaw s)) \<le> sint (decodeALaw (encodeALaw t))"
proof -
  obtain k q where s: "a_cell k q (a_mag s)"
    "sint (decodeALaw (encodeALaw s)) = (if 0 \<le> sint s then a_level k q else - a_level k q)"
    by (rule aLaw_value)
  obtain k' q' where t: "a_cell k' q' (a_mag t)"
    "sint (decodeALaw (encodeALaw t)) = (if 0 \<le> sint t then a_level k' q' else - a_level k' q')"
    by (rule aLaw_value)
  have "8 \<le> a_level k q" "8 \<le> a_level k' q'"
    using s(1) t(1) a_level_range by (auto simp: a_cell_def)
  moreover have "sint s div 8 \<le> sint t div 8" using assms by (rule zdiv_mono1) simp
  ultimately show ?thesis
    using assms s(2) t(2) a_level_mono [OF s(1) t(1)] a_level_mono [OF t(1) s(1)]
    by (auto simp: a_mag_def split: if_splits)
qed

section \<open>The codec interface\<close>

text \<open>
  What the media path relies on: a coder and a decoder of single samples, their bulk versions,
  and the two laws that make re-encoding harmless. \<open>canon\<close> are the code words that re-encode to
  themselves.
\<close>

locale companding =
  fixes enc :: "u16 \<Rightarrow> u8"
    and dec :: "u8 \<Rightarrow> u16"
    and enc_bulk :: "u16 list \<Rightarrow> u8 list"
    and dec_bulk :: "u8 list \<Rightarrow> u16 list"
    and canon :: "u8 \<Rightarrow> bool"
  assumes enc_dec: "canon c \<Longrightarrow> enc (dec c) = c"
    and dec_enc_dec: "dec (enc (dec c)) = dec c"
    and enc_bulk_map: "enc_bulk pcm = map enc pcm"
    and dec_bulk_map: "dec_bulk codes = map dec codes"
begin

lemma length_bulk [simp]:
  "length (enc_bulk pcm) = length pcm" "length (dec_bulk codes) = length codes"
  by (simp_all add: enc_bulk_map dec_bulk_map)

lemma recode_exact: "list_all canon codes \<Longrightarrow> enc_bulk (dec_bulk codes) = codes"
  by (induction codes) (simp_all add: enc_bulk_map dec_bulk_map enc_dec)

lemma recode_keeps_audio: "dec_bulk (enc_bulk (dec_bulk codes)) = dec_bulk codes"
  by (simp add: enc_bulk_map dec_bulk_map dec_enc_dec)

lemma generation_stable: "enc_bulk (dec_bulk (enc_bulk (dec_bulk codes))) = enc_bulk (dec_bulk codes)"
  by (simp add: recode_keeps_audio)

lemma dec_inj_canon: "inj_on dec (Collect canon)"
  by (rule inj_on_inverseI [of _ enc]) (simp add: enc_dec)

end

lemma muLaw_bulk_map: "encodeMuLaw_bulk pcm = map encodeMuLaw pcm" "decodeMuLaw_bulk codes = map decodeMuLaw codes"
  by (induction pcm, simp_all) (induction codes, simp_all)

lemma aLaw_bulk_map: "encodeALaw_bulk pcm = map encodeALaw pcm" "decodeALaw_bulk codes = map decodeALaw codes"
  by (induction pcm, simp_all) (induction codes, simp_all)

lemma muLaw_decode_0x7F: "encodeMuLaw (decodeMuLaw 0x7F) = 0xFF" "decodeMuLaw 0xFF = decodeMuLaw 0x7F"
  by code_simp+

interpretation mu: companding encodeMuLaw decodeMuLaw encodeMuLaw_bulk decodeMuLaw_bulk "\<lambda>c. c \<noteq> 0x7F"
proof
  fix c
  show "decodeMuLaw (encodeMuLaw (decodeMuLaw c)) = decodeMuLaw c"
    by (cases "c = 0x7F") (simp_all add: muLaw_decode_0x7F muLaw_roundtrip)
qed (simp_all add: muLaw_roundtrip muLaw_bulk_map)

interpretation al: companding encodeALaw decodeALaw encodeALaw_bulk decodeALaw_bulk "\<lambda>_. True"
  by unfold_locales (simp_all add: aLaw_roundtrip aLaw_bulk_map)

section \<open>Properties\<close>

text \<open>C14. Decoding and re-encoding an A-law frame gives back exactly the frame, so transcoding through
PCM (as the echo path does) is lossless for every sequence of code words.\<close>

theorem aLaw_recode_exact: "encodeALaw_bulk (decodeALaw_bulk codes) = codes"
  by (rule al.recode_exact) (simp add: list_all_iff)

text \<open>The same for mu-law, where only \<open>0x7F\<close> (negative zero) is not canonical: every frame without
it survives exactly, and the audio of any frame survives, so repeated transcoding never degrades it.\<close>

theorem muLaw_recode:
  "encodeMuLaw_bulk (decodeMuLaw_bulk codes) = map (\<lambda>c. if c = 0x7F then 0xFF else c) codes
   \<and> decodeMuLaw_bulk (encodeMuLaw_bulk (decodeMuLaw_bulk codes)) = decodeMuLaw_bulk codes"
  by (simp only: mu.recode_keeps_audio simp_thms)
    (simp add: muLaw_bulk_map muLaw_decode_0x7F muLaw_roundtrip)

text \<open>Mu-law keeps every 16-bit sample within about 3 percent plus a small constant, clipping at the
ends of the range included, and companding keeps the order of samples.\<close>

theorem muLaw_quality:
  "32 * \<bar>sint (decodeMuLaw (encodeMuLaw s)) - sint s\<bar> \<le> \<bar>sint s\<bar> + 132
   \<and> (sint s \<le> sint t \<longrightarrow> sint (decodeMuLaw (encodeMuLaw s)) \<le> sint (decodeMuLaw (encodeMuLaw t)))"
  using muLaw_error [of s] muLaw_mono [of s t] by blast

theorem muLaw_quality_witness:
  "32 * \<bar>sint (decodeMuLaw (encodeMuLaw (- 32768))) - sint (- 32768 :: u16)\<bar> \<le> \<bar>sint (- 32768 :: u16)\<bar> + 132
   \<and> sint (decodeMuLaw (encodeMuLaw (- 32768))) \<le> sint (decodeMuLaw (encodeMuLaw 100))"
  using muLaw_quality [of "- 32768" 100] by simp

text \<open>A-law keeps every 16-bit sample within 8 units or a 32nd of its magnitude, the most negative
sample included, and keeps the order of samples.\<close>

theorem aLaw_quality:
  "\<bar>sint (decodeALaw (encodeALaw s)) - sint s\<bar> \<le> max 8 (\<bar>sint s\<bar> div 32)
   \<and> (sint s \<le> sint t \<longrightarrow> sint (decodeALaw (encodeALaw s)) \<le> sint (decodeALaw (encodeALaw t)))"
  using aLaw_error [of s] aLaw_mono [of s t] by blast

theorem aLaw_quality_witness:
  "\<bar>sint (decodeALaw (encodeALaw (- 32768))) - sint (- 32768 :: u16)\<bar> \<le> max 8 (\<bar>sint (- 32768 :: u16)\<bar> div 32)
   \<and> sint (decodeALaw (encodeALaw (- 32768))) \<le> sint (decodeALaw (encodeALaw 100))"
  using aLaw_quality [of "- 32768" 100] by simp

end
