(* ===== verification/Resample.thy ===== *)
theory Resample
  imports Prelude "HOL-Library.Signed_Division"
begin

text \<open>
  The 8 kHz to 16 kHz upsampler of src/src/codec/Resample.cpp, which the gateway client uses on
  decoded audio. The sum of two \<open>int16_t\<close> is taken in \<open>int32_t\<close>, so it is an integer here; the
  division truncates towards zero (\<open>sdiv\<close>), the cast back to \<open>int16_t\<close> is \<open>word_of_int\<close>.
\<close>

definition upsample_next :: "u16 list \<Rightarrow> nat \<Rightarrow> u16" where
  "upsample_next xs i = (if i + 1 < length xs then xs ! (i + 1) else xs ! i)"

definition upsample_mid :: "u16 list \<Rightarrow> nat \<Rightarrow> u16" where
  "upsample_mid xs i = word_of_int ((sint (xs ! i) + sint (upsample_next xs i)) sdiv 2)"

definition upsample8kTo16k :: "u16 list \<Rightarrow> u16 list" where
  "upsample8kTo16k xs =
    (if xs = [] then []
     else foldl (\<lambda>out i. (out @ [xs ! i]) @ [upsample_mid xs i]) [] [0..<length xs])"

lemma upsample_loop:
  "length (foldl (\<lambda>out i. (out @ [f i]) @ [g i]) [] [0..<n]) = 2 * n
   \<and> (\<forall>i < n. foldl (\<lambda>out i. (out @ [f i]) @ [g i]) [] [0..<n] ! (2 * i) = f i
        \<and> foldl (\<lambda>out i. (out @ [f i]) @ [g i]) [] [0..<n] ! (2 * i + 1) = g i)"
proof (induction n)
  case (Suc n)
  then show ?case by (auto simp: nth_append less_Suc_eq)
qed simp

lemma sdiv_2_bounds:
  fixes a b :: int
  assumes "m = (a + b) sdiv 2"
  shows "min a b \<le> m" "m \<le> max a b" "\<bar>2 * m - (a + b)\<bar> \<le> 1" "\<bar>2 * m\<bar> \<le> \<bar>a + b\<bar>"
proof -
  have m: "m = (if 0 \<le> a + b then (a + b) div 2 else - (- (a + b) div 2))"
    using assms by (simp add: signed_divide_int_def sgn_if div_minus_right)
  show "min a b \<le> m" "m \<le> max a b" "\<bar>2 * m - (a + b)\<bar> \<le> 1" "\<bar>2 * m\<bar> \<le> \<bar>a + b\<bar>"
    unfolding m by (auto simp: min_def max_def abs_if)
qed

lemma upsample_mid_value:
  "sint (upsample_mid xs i) = (sint (xs ! i) + sint (upsample_next xs i)) sdiv 2"
proof -
  let ?a = "sint (xs ! i)" and ?b = "sint (upsample_next xs i)"
  note b = sdiv_2_bounds [OF refl, of ?a ?b] sint_u16_bounds [of "xs ! i"] sint_u16_bounds [of "upsample_next xs i"]
  have "- 32768 \<le> (?a + ?b) sdiv 2" using b(1,5,7) by (simp add: min_def split: if_splits)
  moreover have "(?a + ?b) sdiv 2 < 32768" using b(2,6,8) by (simp add: max_def split: if_splits)
  ultimately show ?thesis unfolding upsample_mid_def by (rule sint_word_of_int_u16)
qed

text \<open>Upsampling doubles the length, keeps every input sample at the even positions, and puts
between two neighbours a value that lies between them, within half a unit of their midpoint and not
further from zero than it: the interpolation never overshoots and never overflows.\<close>

theorem upsample_spec:
  assumes "i < length xs"
  shows "length (upsample8kTo16k xs) = 2 * length xs
    \<and> upsample8kTo16k xs ! (2 * i) = xs ! i
    \<and> (let y = sint (upsample8kTo16k xs ! (2 * i + 1)); a = sint (xs ! i); b = sint (upsample_next xs i)
       in min a b \<le> y \<and> y \<le> max a b \<and> \<bar>2 * y - (a + b)\<bar> \<le> 1 \<and> \<bar>2 * y\<bar> \<le> \<bar>a + b\<bar>)"
  using upsample_loop [of "(!) xs" "upsample_mid xs" "length xs"] assms
    sdiv_2_bounds [OF upsample_mid_value [of xs i]]
  by (auto simp: upsample8kTo16k_def Let_def)

theorem upsample_spec_witness:
  "length (upsample8kTo16k [100, -101]) = 2 * length [100, -101 :: u16]
    \<and> upsample8kTo16k [100, -101] ! (2 * 0) = [100, -101] ! 0
    \<and> (let y = sint (upsample8kTo16k [100, -101] ! (2 * 0 + 1)); a = sint ([100, -101 :: u16] ! 0);
         b = sint (upsample_next [100, -101] 0)
       in min a b \<le> y \<and> y \<le> max a b \<and> \<bar>2 * y - (a + b)\<bar> \<le> 1 \<and> \<bar>2 * y\<bar> \<le> \<bar>a + b\<bar>)"
  by (rule upsample_spec) simp

end
