(* ===== verification/Rtp_Packet.thy ===== *)
theory Rtp_Packet
  imports Prelude
begin

text \<open>
  RTP packets: src/src/rtp/RtpPacket.cpp and src/include/sipdemo/RtpPacket.h. The parser is
  modelled with its buffer reads (\<open>None\<close> is a read outside the datagram, \<open>Some None\<close> the code's
  \<open>nullopt\<close>), the serializer writes the bytes in the code's order.
\<close>

section \<open>Definitions\<close>

record rtp_packet =
  version :: u8
  padding :: bool
  extension :: bool
  marker :: bool
  payloadType :: u8
  sequence :: u16
  timestamp :: u32
  ssrc :: u32
  csrc :: "u32 list"
  payload :: bytes

text \<open>The default member initializers.\<close>

definition rtp_packet_init :: rtp_packet where
  "rtp_packet_init = \<lparr>version = 2, padding = False, extension = False, marker = False,
     payloadType = 0, sequence = 0, timestamp = 0, ssrc = 0, csrc = [], payload = []\<rparr>"

definition rd16 :: "bytes \<Rightarrow> nat \<Rightarrow> u16 option" where
  "rd16 data p = do {
     b0 \<leftarrow> rd8 data p; b1 \<leftarrow> rd8 data (p + 1);
     Some (push_bit 8 (ucast b0) OR ucast b1) }"

definition rd32 :: "bytes \<Rightarrow> nat \<Rightarrow> u32 option" where
  "rd32 data p = do {
     b0 \<leftarrow> rd8 data p; b1 \<leftarrow> rd8 data (p + 1); b2 \<leftarrow> rd8 data (p + 2); b3 \<leftarrow> rd8 data (p + 3);
     Some (push_bit 24 (ucast b0) OR push_bit 16 (ucast b1) OR push_bit 8 (ucast b2) OR ucast b3) }"

definition wr16 :: "bytes \<Rightarrow> u16 \<Rightarrow> bytes" where
  "wr16 v x = v @ [ucast (drop_bit 8 x), ucast (x AND 0xff)]"

definition wr32 :: "bytes \<Rightarrow> u32 \<Rightarrow> bytes" where
  "wr32 v x = v @ [ucast (drop_bit 24 x), ucast (drop_bit 16 x), ucast (drop_bit 8 x), ucast (x AND 0xff)]"

text \<open>The CSRC loop: \<open>n\<close> words from \<open>offset\<close> on.\<close>

primrec rd_csrc :: "bytes \<Rightarrow> nat \<Rightarrow> nat \<Rightarrow> u32 list option" where
  "rd_csrc data 0 offset = Some []"
| "rd_csrc data (Suc n) offset = do {
     w \<leftarrow> rd32 data offset; ws \<leftarrow> rd_csrc data n (offset + 4); Some (w # ws) }"

text \<open>The header extension: \<open>Some None\<close> rejects, \<open>Some (Some o)\<close> goes on at offset \<open>o\<close>.\<close>

definition skip_extension :: "bytes \<Rightarrow> bool \<Rightarrow> nat \<Rightarrow> nat option option" where
  "skip_extension data ext offset =
    (if \<not> ext then Some (Some offset)
     else if length data < offset + 4 then Some None
     else do {
       extWords \<leftarrow> rd16 data (offset + 2);
       let extBytes = 4 + unat extWords * 4;
       if length data < offset + extBytes then Some None
       else Some (Some (offset + extBytes)) })"

definition payload_end :: "bytes \<Rightarrow> bool \<Rightarrow> nat \<Rightarrow> nat option option" where
  "payload_end data pad offset =
    (let len = length data in
     if \<not> pad then Some (Some len)
     else do {
       padLen \<leftarrow> rd8 data (len - 1);
       if padLen = 0 \<or> unat padLen > len - offset then Some None
       else Some (Some (len - unat padLen)) })"

definition rtp_parse :: "bytes \<Rightarrow> rtp_packet option option" where
  "rtp_parse data =
    (let len = length data in
     if len < 12 then Some None
     else do {
       b0 \<leftarrow> rd8 data 0;
       let ver = drop_bit 6 b0 AND 0x03;
       if ver \<noteq> 2 then Some None
       else do {
         let pad = (drop_bit 5 b0 AND 0x01 \<noteq> 0);
         let ext = (drop_bit 4 b0 AND 0x01 \<noteq> 0);
         let cc = unat (b0 AND 0x0f);
         b1 \<leftarrow> rd8 data 1;
         let mark = (drop_bit 7 b1 AND 0x01 \<noteq> 0);
         let pt = b1 AND 0x7f;
         sq \<leftarrow> rd16 data 2;
         ts \<leftarrow> rd32 data 4;
         src \<leftarrow> rd32 data 8;
         if len < 12 + cc * 4 then Some None
         else do {
           cs \<leftarrow> rd_csrc data cc 12;
           off \<leftarrow> skip_extension data ext (12 + cc * 4);
           case off of
             None \<Rightarrow> Some None
           | Some offset \<Rightarrow> do {
               pend \<leftarrow> payload_end data pad offset;
               case pend of
                 None \<Rightarrow> Some None
               | Some payloadEnd \<Rightarrow> do {
                   body \<leftarrow> slice data offset payloadEnd;
                   Some (Some \<lparr>version = ver, padding = pad, extension = ext, marker = mark,
                     payloadType = pt, sequence = sq, timestamp = ts, ssrc = src, csrc = cs,
                     payload = body\<rparr>) } } } } })"

primrec wr_csrc :: "bytes \<Rightarrow> u32 list \<Rightarrow> bytes" where
  "wr_csrc v [] = v"
| "wr_csrc v (x # xs) = wr_csrc (wr32 v x) xs"

definition rtp_serialize :: "rtp_packet \<Rightarrow> bytes" where
  "rtp_serialize p =
    (let cc = (if length (csrc p) > 15 then 15 else length (csrc p));
         b0 = push_bit 6 (version p AND 0x03);
         b0 = (if padding p then b0 OR 0x20 else b0);
         b0 = (if extension p then b0 OR 0x10 else b0);
         b0 = b0 OR word_of_nat cc;
         b1 = payloadType p AND 0x7f;
         b1 = (if marker p then b1 OR 0x80 else b1);
         out = wr16 [b0, b1] (sequence p);
         out = wr32 out (timestamp p);
         out = wr32 out (ssrc p);
         out = wr_csrc out (take cc (csrc p))
     in out @ payload p)"

definition seqLess :: "u16 \<Rightarrow> u16 \<Rightarrow> bool" where
  "seqLess a b \<longleftrightarrow> a \<noteq> b \<and> b - a < 0x8000"

definition seqDiff :: "u16 \<Rightarrow> u16 \<Rightarrow> int" where
  "seqDiff a b = sint (b - a)"

section \<open>Reads and writes\<close>

lemma rd16_safe: "p + 2 \<le> length d \<Longrightarrow> \<exists>x. rd16 d p = Some x"
  by (simp add: rd16_def)

lemma rd32_safe: "p + 4 \<le> length d \<Longrightarrow> \<exists>x. rd32 d p = Some x"
  by (simp add: rd32_def)

lemma rd_csrc_safe: "off + n * 4 \<le> length d \<Longrightarrow> \<exists>xs. rd_csrc d n off = Some xs \<and> length xs = n"
proof (induction n arbitrary: off)
  case (Suc n)
  then have "off + 4 \<le> length d" "off + 4 + n * 4 \<le> length d" by simp_all
  then show ?case using rd32_safe [of off d] Suc.IH [of "off + 4"] by auto
qed simp

lemma skip_extension_safe:
  "off \<le> length d \<Longrightarrow> \<exists>r. skip_extension d ext off = Some r \<and> (\<forall>o'. r = Some o' \<longrightarrow> off \<le> o' \<and> o' \<le> length d)"
  using rd16_safe [of "off + 2" d] by (auto simp: skip_extension_def Let_def)

lemma payload_end_safe:
  "off \<le> length d \<Longrightarrow> 0 < length d \<Longrightarrow>
   \<exists>r. payload_end d pad off = Some r \<and> (\<forall>e. r = Some e \<longrightarrow> off \<le> e \<and> e \<le> length d)"
  by (auto simp: payload_end_def Let_def)

definition enc16 :: "u16 \<Rightarrow> bytes" where
  "enc16 x = [ucast (drop_bit 8 x), ucast (x AND 0xff)]"

definition enc32 :: "u32 \<Rightarrow> bytes" where
  "enc32 x = [ucast (drop_bit 24 x), ucast (drop_bit 16 x), ucast (drop_bit 8 x), ucast (x AND 0xff)]"

lemma length_enc [simp]: "length (enc16 x) = 2" "length (enc32 y) = 4"
  by (simp_all add: enc16_def enc32_def)

lemma wr_enc: "wr16 v x = v @ enc16 x" "wr32 v y = v @ enc32 y"
  by (simp_all add: wr16_def wr32_def enc16_def enc32_def)

lemma wr_csrc_enc: "wr_csrc v xs = v @ concat (map enc32 xs)"
  by (induction xs arbitrary: v) (simp_all add: wr_enc)

lemma rd8_append: "rd8 (xs @ ys) i = (if i < length xs then Some (xs ! i) else rd8 ys (i - length xs))"
  by (auto simp: rd8_def nth_append)

lemma rd16_enc16: "rd16 (v @ enc16 x @ w) (length v) = Some x"
proof -
  have "push_bit 8 (ucast (ucast (drop_bit 8 x) :: u8)) OR ucast (ucast (x AND 255) :: u8) = x"
    unfolding mask_consts by (rule bit_word_eqI) (auto simp: bit_simps)
  then show ?thesis by (simp add: rd16_def enc16_def rd8_append nth_append)
qed

lemma rd32_enc32: "rd32 (v @ enc32 x @ w) (length v) = Some x"
proof -
  have "push_bit 24 (ucast (ucast (drop_bit 24 x) :: u8)) OR push_bit 16 (ucast (ucast (drop_bit 16 x) :: u8))
      OR push_bit 8 (ucast (ucast (drop_bit 8 x) :: u8)) OR ucast (ucast (x AND 255) :: u8) = x"
    unfolding mask_consts
  proof (rule bit_word_eqI)
    fix n assume "n < LENGTH(32)"
    then show "bit (push_bit 24 (ucast (ucast (drop_bit 24 x) :: u8))
      OR push_bit 16 (ucast (ucast (drop_bit 16 x) :: u8))
      OR push_bit 8 (ucast (ucast (drop_bit 8 x) :: u8)) OR ucast (ucast (x AND mask 8) :: u8) :: u32) n = bit x n"
      by (cases "24 \<le> n"; cases "16 \<le> n") (auto simp: bit_simps)
  qed
  then show ?thesis by (simp add: rd32_def enc32_def rd8_append nth_append)
qed

lemma enc16_rd16: 
  assumes "p + 2 \<le> length d" shows "map_option enc16 (rd16 d p) = Some (take 2 (drop p d))"
proof -
  have d: "take 2 (drop p d) = [d ! p, d ! (p + 1)]"
    using assms by (simp add: numeral_2_eq_2 take_Suc_conv_app_nth)
  have "ucast (drop_bit 8 (push_bit 8 (ucast a) OR ucast b :: u16)) = a" 
     "ucast ((push_bit 8 (ucast a) OR ucast b :: u16) AND 255) = b" for a b :: u8
    unfolding mask_consts by (rule bit_word_eqI; auto simp: bit_simps dest: bit_imp_le_length)+
  then show ?thesis using assms by (simp add: rd16_def enc16_def d)
qed

lemma enc32_rd32: 
  assumes "p + 4 \<le> length d" shows "map_option enc32 (rd32 d p) = Some (take 4 (drop p d))"
proof -
  have d: "take 4 (drop p d) = [d ! p, d ! (p + 1), d ! (p + 2), d ! (p + 3)]"
    using assms by (simp add: eval_nat_numeral take_Suc_conv_app_nth)
  have "ucast (drop_bit 24 (push_bit 24 (ucast a) OR push_bit 16 (ucast b) OR push_bit 8 (ucast c) OR ucast e :: u32)) = a" 
     "ucast (drop_bit 16 (push_bit 24 (ucast a) OR push_bit 16 (ucast b) OR push_bit 8 (ucast c) OR ucast e :: u32)) = b" 
     "ucast (drop_bit 8 (push_bit 24 (ucast a) OR push_bit 16 (ucast b) OR push_bit 8 (ucast c) OR ucast e :: u32)) = c" 
     "ucast ((push_bit 24 (ucast a) OR push_bit 16 (ucast b) OR push_bit 8 (ucast c) OR ucast e :: u32) AND 255) = e" for a b c e :: u8
    unfolding mask_consts by (rule bit_word_eqI; auto simp: bit_simps dest: bit_imp_le_length)+
  then show ?thesis using assms by (simp add: rd32_def enc32_def d)
qed

lemma rd_at:
  "d = v @ enc16 x @ w \<Longrightarrow> length v = i \<Longrightarrow> rd16 d i = Some x"
  "d = v @ enc32 y @ w \<Longrightarrow> length v = i \<Longrightarrow> rd32 d i = Some y"
  using rd16_enc16 rd32_enc32 by blast+

lemma rd_csrc_at:
  "d = v @ concat (map enc32 xs) @ w \<Longrightarrow> length v = i \<Longrightarrow> rd_csrc d (length xs) i = Some xs"
proof (induction xs arbitrary: v i)
  case (Cons x xs)
  have "rd32 d i = Some x" using Cons.prems by (intro rd_at(2) [of d v x]) simp_all
  moreover have "rd_csrc d (length xs) (i + 4) = Some xs"
    using Cons.prems by (intro Cons.IH [of "v @ enc32 x"]) simp_all
  ultimately show ?case by simp
qed simp


definition rtp_wf :: "rtp_packet \<Rightarrow> bool" where
  "rtp_wf p \<longleftrightarrow> version p = 2 \<and> \<not> padding p \<and> \<not> extension p \<and> payloadType p < 128 \<and> length (csrc p) \<le> 15"

definition hdr0 :: "rtp_packet \<Rightarrow> u8" where
  "hdr0 p = (let cc = (if length (csrc p) > 15 then 15 else length (csrc p));
         b0 = push_bit 6 (version p AND 0x03);
         b0 = (if padding p then b0 OR 0x20 else b0);
         b0 = (if extension p then b0 OR 0x10 else b0)
     in b0 OR word_of_nat cc)"

definition hdr1 :: "rtp_packet \<Rightarrow> u8" where
  "hdr1 p = (if marker p then (payloadType p AND 0x7f) OR 0x80 else payloadType p AND 0x7f)"

lemma rtp_serialize_bytes:
  "rtp_serialize p = [hdr0 p, hdr1 p] @ enc16 (sequence p) @ enc32 (timestamp p) @ enc32 (ssrc p)
     @ concat (map enc32 (take 15 (csrc p))) @ payload p"
  by (simp add: rtp_serialize_def Let_def hdr0_def hdr1_def wr_enc wr_csrc_enc)

lemma hdr0_fields:
  assumes "rtp_wf p"
  shows "drop_bit 6 (hdr0 p) AND 0x03 = 2" "drop_bit 5 (hdr0 p) AND 0x01 = 0"
    "drop_bit 4 (hdr0 p) AND 0x01 = 0" "unat (hdr0 p AND 0x0f) = length (csrc p)"
proof -
  define n where "n = length (csrc p)"
  have "n \<le> 15" using assms by (simp add: rtp_wf_def n_def)
  then have "n \<in> {0,1,2,3,4,5,6,7,8,9,10,11,12,13,14,15}" by (simp add: numeral_eq_Suc) arith
  moreover have "hdr0 p = 128 OR word_of_nat n"
    using assms by (simp add: hdr0_def rtp_wf_def n_def)
  ultimately show "drop_bit 6 (hdr0 p) AND 0x03 = 2" "drop_bit 5 (hdr0 p) AND 0x01 = 0"
    "drop_bit 4 (hdr0 p) AND 0x01 = 0" "unat (hdr0 p AND 0x0f) = length (csrc p)"
    unfolding n_def [symmetric] by (elim insertE; simp)+
qed

lemma hdr1_fields:
  assumes "payloadType p < 128"
  shows "hdr1 p AND 0x7f = payloadType p" "(drop_bit 7 (hdr1 p) AND 0x01 \<noteq> 0) = marker p"
proof -
  have "take_bit 7 (payloadType p) = payloadType p"
    using assms by (intro word_uint_eqI) (simp add: unsigned_take_bit_eq take_bit_int_eq_self word_less_def)
  then have pt: "payloadType p AND mask 7 = payloadType p" by (simp add: take_bit_eq_mask)
  have b7: "\<not> bit (payloadType p) 7" using pt by (metis bit_and_iff bit_mask_iff less_irrefl)
  have e: "(0x80 :: u8) = 2 ^ 7" by simp
  show "hdr1 p AND 0x7f = payloadType p"
  proof -
    have "(payloadType p OR 0x80) AND 0x7f = (payloadType p AND 0x7f) OR (0x80 AND 0x7f)"
      by (rule bit.conj_disj_distrib2)
    moreover have "payloadType p AND 0x7f = payloadType p" using pt by (simp only: mask_consts)
    ultimately show ?thesis by (simp add: hdr1_def)
  qed
  show "(drop_bit 7 (hdr1 p) AND 0x01 \<noteq> 0) = marker p"
    unfolding flag_bit hdr1_def mask_consts pt e using b7 by (auto simp: bit_simps)
qed

lemma rtp_roundtrip:
  assumes "rtp_wf p"
  shows "rtp_parse (rtp_serialize p) = Some (Some p)"
proof -
  let ?d = "rtp_serialize p" and ?n = "length (csrc p)"
  have n: "take 15 (csrc p) = csrc p" using assms by (simp add: rtp_wf_def)
  have len: "length ?d = 12 + ?n * 4 + length (payload p)"
    by (simp add: rtp_serialize_bytes n length_concat comp_def sum_list_triv)
  have b: "?d ! 0 = hdr0 p" "?d ! Suc 0 = hdr1 p"
    by (simp_all add: rtp_serialize_bytes)
  have sq: "rd16 ?d 2 = Some (sequence p)"
    by (rule rd_at(1) [of _ "[hdr0 p, hdr1 p]"]) (simp_all add: rtp_serialize_bytes)
  have ts: "rd32 ?d 4 = Some (timestamp p)"
    by (rule rd_at(2) [of _ "[hdr0 p, hdr1 p] @ enc16 (sequence p)"]) (simp_all add: rtp_serialize_bytes)
  have src: "rd32 ?d 8 = Some (ssrc p)"
    by (rule rd_at(2) [of _ "[hdr0 p, hdr1 p] @ enc16 (sequence p) @ enc32 (timestamp p)"])
      (simp_all add: rtp_serialize_bytes)
  have cs: "rd_csrc ?d ?n 12 = Some (csrc p)"
    by (rule rd_csrc_at [of _ "[hdr0 p, hdr1 p] @ enc16 (sequence p) @ enc32 (timestamp p) @ enc32 (ssrc p)"])
      (simp_all add: rtp_serialize_bytes n)
  have body: "drop (12 + ?n * 4) ?d = payload p"
  proof -
    have "?d = ([hdr0 p, hdr1 p] @ enc16 (sequence p) @ enc32 (timestamp p) @ enc32 (ssrc p)
        @ concat (map enc32 (csrc p))) @ payload p" by (simp add: rtp_serialize_bytes n)
    then show ?thesis by (rule drop_at) (simp add: length_concat comp_def sum_list_triv)
  qed
  show ?thesis
    using hdr0_fields [OF assms] hdr1_fields [of p] assms
    by (simp add: rtp_parse_def len b sq ts src cs skip_extension_def payload_end_def body rtp_wf_def)
qed

lemma rtp_parse_ok: "\<exists>r. rtp_parse d = Some r"
proof (cases "12 \<le> length d \<and> 12 + unat (d ! 0 AND 0x0f) * 4 \<le> length d")
  case False
  show ?thesis
  proof (cases "12 \<le> length d")
    case True
    then have "d \<noteq> []" by auto
    have "\<exists>x. rd16 d 2 = Some x" "\<exists>x. rd32 d 4 = Some x" "\<exists>x. rd32 d 8 = Some x"
      using True rd16_safe [of 2 d] rd32_safe [of 4 d] rd32_safe [of 8 d] by auto
    then show ?thesis using True False \<open>d \<noteq> []\<close> by (auto simp: rtp_parse_def Let_def)
  qed (simp add: rtp_parse_def)
next
  case True
  have nz: "d \<noteq> []" using True by auto
  let ?off = "12 + unat (d ! 0 AND 0x0f) * 4"
  obtain sq ts src where h: "rd16 d 2 = Some sq" "rd32 d 4 = Some ts" "rd32 d 8 = Some src"
    using True rd16_safe [of 2 d] rd32_safe [of 4 d] rd32_safe [of 8 d] by auto
  obtain cs where cs: "rd_csrc d (unat (d ! 0 AND 0x0f)) 12 = Some cs"
    using True rd_csrc_safe [of 12 _ d] by blast
  obtain r where r: "skip_extension d (drop_bit 4 (d ! 0) AND 1 \<noteq> 0) ?off = Some r"
    and rb: "\<And>off. r = Some off \<Longrightarrow> ?off \<le> off \<and> off \<le> length d"
    using True skip_extension_safe [of ?off d] by blast
  show ?thesis
  proof (cases r)
    case None
    then show ?thesis using True nz h cs r by (simp add: rtp_parse_def Let_def)
  next
    case (Some off)
    obtain e where e: "payload_end d (drop_bit 5 (d ! 0) AND 1 \<noteq> 0) off = Some e"
      and eb: "\<And>e'. e = Some e' \<Longrightarrow> off \<le> e' \<and> e' \<le> length d"
      using True nz rb [OF Some] payload_end_safe [of off d] by fastforce
    show ?thesis using True nz h cs r Some e eb
      by (cases e) (simp_all add: rtp_parse_def Let_def)
  qed
qed

lemma seqDiff_range: "- 32768 \<le> seqDiff a b" "seqDiff a b \<le> 32767"
  using sint_u16_bounds [of "b - a"] by (simp_all add: seqDiff_def)

lemma seqDiff_advance: "a + word_of_int (seqDiff a b) = b"
  by (simp add: seqDiff_def)


lemma seqLess_iff_seqDiff: "seqLess a b = (0 < seqDiff a b)"
proof -
  have "(0 < uint (b - a)) = (a \<noteq> b)"
    by (metis eq_iff_diff_eq_0 order_less_le uint_0_iff uint_ge_0)
  moreover have "uint (b - a) < 65536" using uint_lt2p [of "b - a"] by simp
  ultimately show ?thesis by (auto simp: seqLess_def seqDiff_def sint_u16_eq)
qed

lemma seqLess_window: "seqLess a (a + word_of_int n) = (0 < n \<and> n < 32768)" if "0 \<le> n" "n < 65536"
proof -
  have "uint (word_of_int n :: u16) = n" using that by (simp add: uint_word_of_int)
  then show ?thesis using that
    by (auto simp: seqLess_def word_less_def) (metis less_irrefl uint_0_iff that(1) order_less_le)
qed

lemma rtp_parseE:
  assumes "rtp_parse d = Some (Some p)"
  obtains "12 + length (csrc p) * 4 \<le> length d"
    "length (csrc p) = unat (d ! 0 AND 0x0f)"
    "drop_bit 6 (d ! 0) AND 0x03 = 2" "version p = 2"
    "padding p = (drop_bit 5 (d ! 0) AND 0x01 \<noteq> 0)" "extension p = (drop_bit 4 (d ! 0) AND 0x01 \<noteq> 0)"
    "marker p = (drop_bit 7 (d ! 1) AND 0x01 \<noteq> 0)" "payloadType p = d ! 1 AND 0x7f"
    "rd16 d 2 = Some (sequence p)" "rd32 d 4 = Some (timestamp p)" "rd32 d 8 = Some (ssrc p)"
    "rd_csrc d (length (csrc p)) 12 = Some (csrc p)"
    "\<exists>off e. skip_extension d (extension p) (12 + length (csrc p) * 4) = Some (Some off)
       \<and> payload_end d (padding p) off = Some (Some e) \<and> slice d off e = Some (payload p)"
proof -
  have len: "12 \<le> length d"
    using assms by (cases "12 \<le> length d") (simp_all add: rtp_parse_def)
  then have nz: "d \<noteq> []" "Suc 0 < length d" by auto
  let ?cc = "unat (d ! 0 AND 0x0f)"
  obtain sq ts src where h: "rd16 d 2 = Some sq" "rd32 d 4 = Some ts" "rd32 d 8 = Some src"
    using len rd16_safe [of 2 d] rd32_safe [of 4 d] rd32_safe [of 8 d] by auto
  have ver: "drop_bit 6 (d ! 0) AND 0x03 = 2"
    using assms nz len by (cases "drop_bit 6 (d ! 0) AND 0x03 = 2") (simp_all add: rtp_parse_def)
  have cs: "12 + ?cc * 4 \<le> length d"
    using assms nz len h ver by (cases "12 + ?cc * 4 \<le> length d") (simp_all add: rtp_parse_def)
  then obtain ws where ws: "rd_csrc d ?cc 12 = Some ws" "length ws = ?cc" using rd_csrc_safe by blast
  note eq = assms [unfolded rtp_parse_def Let_def]
  obtain off where off: "skip_extension d (drop_bit 4 (d ! 0) AND 0x01 \<noteq> 0) (12 + ?cc * 4) = Some (Some off)"
    using eq nz len h ver cs ws skip_extension_safe [OF cs, of "drop_bit 4 (d ! 0) AND 0x01 \<noteq> 0"]
    by (auto split: option.splits)
  obtain e where e: "payload_end d (drop_bit 5 (d ! 0) AND 0x01 \<noteq> 0) off = Some (Some e)"
    using eq nz len h ver cs ws off by (auto split: option.splits Option.bind_splits)
  show ?thesis
    by (rule that; use eq nz len h ver cs ws off e in \<open>auto split: Option.bind_splits\<close>)
qed

lemma slice_length: "slice d i j = Some xs \<Longrightarrow> i + length xs = j \<and> j \<le> length d"
  by (auto simp: slice_def split: if_splits)

lemma rtp_parse_bounds:
  assumes "rtp_parse d = Some (Some p)"
  shows "version p = 2" "payloadType p < 128" "length (csrc p) \<le> 15"
    "12 + length (csrc p) * 4 + length (payload p) \<le> length d"
proof -
  obtain off e where off: "skip_extension d (extension p) (12 + length (csrc p) * 4) = Some (Some off)"
    "slice d off e = Some (payload p)" and len: "12 + length (csrc p) * 4 \<le> length d"
    using assms by (elim rtp_parseE) blast
  have "12 + length (csrc p) * 4 \<le> off"
    using skip_extension_safe [OF len, of "extension p"] off(1) by auto
  then show "12 + length (csrc p) * 4 + length (payload p) \<le> length d"
    using slice_length [OF off(2)] by simp
  show "version p = 2" using assms by (rule rtp_parseE)
  have pt: "payloadType p = d ! 1 AND 0x7f" by (rule rtp_parseE [OF assms])
  show "payloadType p < 128"
    unfolding pt mask_consts word_less_def using and_mask_lt_2p [of "d ! 1" 7] by simp
  have n: "length (csrc p) = unat (d ! 0 AND 0x0f)" by (rule rtp_parseE [OF assms])
  have "uint (d ! 0 AND 0x0f) < 16" unfolding mask_consts using and_mask_lt_2p [of "d ! 0" 4] by simp
  then have "int (unat (d ! 0 AND 0x0f)) < 16" by simp
  then show "length (csrc p) \<le> 15" unfolding n by linarith
qed

lemma hdr_bytes_of_fields:
  assumes "drop_bit 6 (b :: u8) AND 0x03 = 2" "\<not> bit b 5" "\<not> bit b 4"
  shows "push_bit 6 2 OR (b AND 0x0f) = b"
proof (rule bit_word_eqI)
  fix n assume "n < LENGTH(8)"
  then have n: "n = 0 \<or> n = 1 \<or> n = 2 \<or> n = 3 \<or> n = 4 \<or> n = 5 \<or> n = 6 \<or> n = 7" by auto
  have "bit (drop_bit 6 b AND mask 2) 0 = bit (2 :: u8) 0" "bit (drop_bit 6 b AND mask 2) 1 = bit (2 :: u8) 1"
    using assms(1) by (simp_all only: mask_consts)
  then have "\<not> bit b 6" "bit b 7" by (simp_all add: bit_simps)
  then show "bit (push_bit 6 2 OR (b AND 0x0f)) n = bit b n"
    using n assms(2,3) unfolding mask_consts by (elim disjE) (simp_all add: bit_simps)
qed

lemma concat_enc32_rd_csrc:
  "off + n * 4 \<le> length d \<Longrightarrow> rd_csrc d n off = Some ws \<Longrightarrow> concat (map enc32 ws) = take (n * 4) (drop off d)"
proof (induction n arbitrary: off ws)
  case (Suc n)
  obtain w ws' where w: "rd32 d off = Some w" "rd_csrc d n (off + 4) = Some ws'" "ws = w # ws'"
    using Suc.prems(2) by (auto split: Option.bind_splits)
  have "enc32 w = take 4 (drop off d)" using enc32_rd32 [of off d] Suc.prems(1) w(1) by simp
  moreover have "concat (map enc32 ws') = take (n * 4) (drop (off + 4) d)"
    using Suc.prems(1) w(2) by (intro Suc.IH) simp_all
  ultimately show ?case using Suc.prems(1) by (simp add: w(3) take_add drop_drop add.commute)
qed simp

lemma rtp_reserialize:
  assumes "rtp_parse d = Some (Some p)" "\<not> padding p" "\<not> extension p"
  shows "rtp_serialize p = d"
proof -
  let ?n = "length (csrc p)"
  note f = rtp_parseE [OF assms(1)]
  have len: "12 + ?n * 4 \<le> length d" and n: "?n = unat (d ! 0 AND 0x0f)"
    and ver: "drop_bit 6 (d ! 0) AND 0x03 = 2" by (rule f, assumption)+
  have flags: "\<not> bit (d ! 0) 5" "\<not> bit (d ! 0) 4" "marker p = bit (d ! 1) 7"
  proof -
    have "padding p = (drop_bit 5 (d ! 0) AND 0x01 \<noteq> 0)" "extension p = (drop_bit 4 (d ! 0) AND 0x01 \<noteq> 0)"
      "marker p = (drop_bit 7 (d ! 1) AND 0x01 \<noteq> 0)" by (rule f, assumption)+
    then show "\<not> bit (d ! 0) 5" "\<not> bit (d ! 0) 4" "marker p = bit (d ! 1) 7"
      using assms(2,3) unfolding flag_bit by simp_all
  qed
  have pt: "payloadType p = d ! 1 AND 0x7f" by (rule f)
  have n15: "?n \<le> 15" using rtp_parse_bounds [OF assms(1)] by simp
  have h0: "hdr0 p = d ! 0"
  proof -
    have "word_of_nat ?n = d ! 0 AND 0x0f" by (simp add: n)
    then show ?thesis
      using hdr_bytes_of_fields [OF ver flags(1,2)] n15 assms(2,3) rtp_parse_bounds(1) [OF assms(1)]
      by (simp add: hdr0_def)
  qed
  have h1: "hdr1 p = d ! 1"
  proof (rule bit_word_eqI)
    fix k assume "k < LENGTH(8)"
    moreover have "bit (0x80 :: u8) k = (k = 7)" if "k < 8"
      using bit_exp_iff [where 'a = "8 word", of 7 k] that by simp
    ultimately show "bit (hdr1 p) k = bit (d ! 1) k"
      using flags(3) unfolding hdr1_def pt mask_consts by (auto simp: bit_simps less_Suc_eq)
  qed
  have r: "rd16 d 2 = Some (sequence p)" "rd32 d 4 = Some (timestamp p)" "rd32 d 8 = Some (ssrc p)"
    "rd_csrc d ?n 12 = Some (csrc p)"
    "\<exists>off e. skip_extension d (extension p) (12 + ?n * 4) = Some (Some off)
       \<and> payload_end d (padding p) off = Some (Some e) \<and> slice d off e = Some (payload p)"
    by (rule f, assumption)+
  have sq: "enc16 (sequence p) = take 2 (drop 2 d)" and ts: "enc32 (timestamp p) = take 4 (drop 4 d)"
    and src: "enc32 (ssrc p) = take 4 (drop 8 d)"
    using enc16_rd16 [of 2 d] enc32_rd32 [of 4 d] enc32_rd32 [of 8 d] len r by auto
  have cs: "concat (map enc32 (csrc p)) = take (?n * 4) (drop 12 d)"
    using len r(4) by (rule concat_enc32_rd_csrc)
  have body: "payload p = drop (12 + ?n * 4) d"
    using r(5) assms(2,3) len by (auto simp: skip_extension_def payload_end_def Let_def)
  have "[d ! 0, d ! 1] = take 2 d"
    using len by (cases d; cases "tl d") auto
  then have "rtp_serialize p = take 2 d @ take 2 (drop 2 d) @ take 4 (drop 4 d) @ take 4 (drop 8 d)
      @ take (?n * 4) (drop 12 d) @ drop (12 + ?n * 4) d"
    using n15 by (simp add: rtp_serialize_bytes h0 h1 sq ts src cs body)
  also have "\<dots> = take (2 + 2 + 4 + 4 + ?n * 4) d @ drop (12 + ?n * 4) d"
    by (simp only: take_add append_assoc) simp
  also have "\<dots> = d" by simp
  finally show ?thesis .
qed

section \<open>RTP as a wire format\<close>

interpretation rtp: wire_format rtp_serialize "\<lambda>d. Option.bind (rtp_parse d) id" rtp_wf id
  by unfold_locales (simp_all add: rtp_roundtrip)

section \<open>Properties\<close>

text \<open>C31. Parsing never reads outside the datagram, whatever bytes and lengths it holds.\<close>

theorem rtp_parse_memory_safe: "rtp_parse d \<noteq> None"
  using rtp_parse_ok [of d] by auto

text \<open>C30. A packet without padding and header extension, of version 2, with a 7-bit payload type
  and at most 15 CSRCs, is parsed back exactly from its serialization.\<close>

theorem rtp_serialize_parse: "rtp_wf p \<Longrightarrow> rtp_parse (rtp_serialize p) = Some (Some p)"
  by (rule rtp_roundtrip)

theorem rtp_serialize_parse_witness:
  "rtp_parse (rtp_serialize (rtp_packet_init\<lparr>marker := True, sequence := 4321, ssrc := 0xDEADBEEF,
      csrc := [0x11111111, 0x22222222], payload := [1, 2, 3]\<rparr>))
   = Some (Some (rtp_packet_init\<lparr>marker := True, sequence := 4321, ssrc := 0xDEADBEEF,
      csrc := [0x11111111, 0x22222222], payload := [1, 2, 3]\<rparr>))"
  by (rule rtp_serialize_parse) (simp add: rtp_wf_def rtp_packet_init_def)

text \<open>Serializing a parsed packet that had neither padding nor a header extension gives back
  the datagram byte for byte.\<close>

theorem rtp_parse_serialize:
  "rtp_parse d = Some (Some p) \<Longrightarrow> \<not> padding p \<Longrightarrow> \<not> extension p \<Longrightarrow> rtp_serialize p = d"
  by (rule rtp_reserialize)

theorem rtp_parse_serialize_witness:
  "rtp_serialize (rtp_packet_init\<lparr>payloadType := 8, payload := [9]\<rparr>)
     = [0x80, 8, 0, 0, 0, 0, 0, 0, 0, 0, 0, 0, 9]"
  by (rule rtp_parse_serialize [of "[0x80, 8, 0, 0, 0, 0, 0, 0, 0, 0, 0, 0, 9]"]; code_simp)

text \<open>With padding the converse fails: the serializer keeps the P bit but writes no padding, so
  a parsed padded packet can serialize to a datagram the parser rejects.\<close>

theorem rtp_padding_not_reserialized:
  "\<exists>d p. rtp_parse d = Some (Some p) \<and> padding p \<and> rtp_serialize p \<noteq> d
     \<and> rtp_parse (rtp_serialize p) = Some None"
proof -
  let ?d = "[0xA0, 0, 0, 0, 0, 0, 0, 0, 0, 0, 0, 0, 7, 7, 0, 2] :: bytes"
  let ?p = "rtp_packet_init\<lparr>padding := True, payload := [7, 7]\<rparr>"
  have "rtp_parse ?d = Some (Some ?p)" "padding ?p" "rtp_serialize ?p \<noteq> ?d"
    "rtp_parse (rtp_serialize ?p) = Some None"
    by code_simp+
  then show ?thesis by blast
qed

text \<open>The signed distance of two sequence numbers: adding it to the first gives the second, it
  lies in [-32768, 32767], and \<open>seqLess\<close> is its being positive.\<close>

theorem seqDiff_spec:
  "a + word_of_int (seqDiff a b) = b \<and> - 32768 \<le> seqDiff a b \<and> seqDiff a b \<le> 32767
   \<and> seqLess a b = (0 < seqDiff a b)"
  by (simp add: seqDiff_advance seqDiff_range seqLess_iff_seqDiff)

text \<open>The bound -32768 is reached, which the header's comment excludes.\<close>

theorem seqDiff_min: "seqDiff 0 0x8000 = - 32768 \<and> \<not> seqLess 0 0x8000 \<and> \<not> seqLess 0x8000 0"
  by code_simp

end
