(* ===== verification/Seq_Unwrap.thy ===== *)
theory Seq_Unwrap
  imports Prelude "HOL-Library.Signed_Division"
begin

text \<open>
  Sequence-number unwrapping, shared by src/src/jitter/JitterBuffer.cpp and
  src/src/stats/RtpStats.cpp: both map a 16-bit number to the \<open>int64_t\<close> nearest a reference with
  the same two loops. The interface \<open>unwrap\<close> states the contract, its lemmas show that it
  recovers the true index of every packet less than half the sequence space away.
\<close>

section \<open>The two loops\<close>

function ext_down :: "int \<Rightarrow> int \<Rightarrow> int" where
  "ext_down reference candidate =
    (if candidate - reference > 32768 then ext_down reference (candidate - 65536) else candidate)"
  by pat_completeness auto
termination
  by (relation "measure (\<lambda>(reference, candidate). nat (candidate - reference))") auto

function ext_up :: "int \<Rightarrow> int \<Rightarrow> int" where
  "ext_up reference candidate =
    (if reference - candidate > 32768 then ext_up reference (candidate + 65536) else candidate)"
  by pat_completeness auto
termination
  by (relation "measure (\<lambda>(reference, candidate). nat (reference - candidate))") auto

declare ext_down.simps [simp del] ext_up.simps [simp del]

lemma ext_down_spec:
  "ext_down r c mod 65536 = c mod 65536 \<and> ext_down r c - r \<le> 32768
   \<and> (- 32768 \<le> c - r \<longrightarrow> - 32768 \<le> ext_down r c - r)"
proof (induction r c rule: ext_down.induct)
  case (1 r c)
  then show ?case
    by (cases "c - r > 32768") (simp_all add: ext_down.simps [of r c] mod_diff_right_eq [symmetric])
qed

lemma ext_up_spec:
  "ext_up r c mod 65536 = c mod 65536 \<and> - 32768 \<le> ext_up r c - r
   \<and> (c - r \<le> 32768 \<longrightarrow> ext_up r c - r \<le> 32768)"
proof (induction r c rule: ext_up.induct)
  case (1 r c)
  then show ?case
    by (cases "r - c > 32768") (simp_all add: ext_up.simps [of r c])
qed

section \<open>The contract of an unwrapping function\<close>

locale unwrap =
  fixes ext :: "u16 \<Rightarrow> int \<Rightarrow> int"
  assumes ext_cong: "ext s r mod 65536 = uint s"
    and ext_near: "\<bar>ext s r - r\<bar> \<le> 32768"
begin

lemma ext_low: "word_of_int (ext s r) = s"
proof -
  have "uint (word_of_int (ext s r) :: u16) = uint s"
    using ext_cong [of s r] by (simp add: uint_word_of_int)
  then show ?thesis by (rule word_uint_eqI)
qed

text \<open>An index closer than half the space to the reference is recovered exactly.\<close>

lemma ext_exact:
  assumes "\<bar>x - r\<bar> < 32768"
  shows "ext (word_of_int x) r = x"
proof -
  have "ext (word_of_int x) r mod 65536 = x mod 65536"
    using ext_cong [of "word_of_int x" r] by (simp add: uint_word_of_int)
  then have "65536 dvd ext (word_of_int x) r - x" by (simp add: mod_eq_dvd_iff)
  then obtain k where k: "ext (word_of_int x) r - x = 65536 * k" by blast
  have "\<bar>65536 * k\<bar> < 65536"
    using ext_near [of "word_of_int x" r] assms unfolding k [symmetric] by linarith
  then have "k = 0" by simp
  with k show ?thesis by simp
qed

text \<open>Two indices of different numbers differ; equal numbers near one reference are one index.\<close>

lemma ext_inj: "ext s r = ext t r \<Longrightarrow> s = t"
  by (metis ext_low)

lemma ext_upper: "0 \<le> r \<Longrightarrow> ext s r \<le> r + 32768"
  using ext_near [of s r] by linarith

end

section \<open>The common right-hand side\<close>

lemma extend_unwrap:
  "unwrap (\<lambda>s r. ext_up r (ext_down r (r - r smod 65536 + uint s)))"
proof
  fix s r
  let ?c = "r - r smod 65536 + uint (s :: u16)"
  have "r - r smod 65536 = 65536 * (r sdiv 65536)"
    by (simp add: minus_smod_eq_mult_sdiv)
  then have "?c mod 65536 = uint s mod 65536" by simp
  moreover have "uint s mod 65536 = uint s" using uint_lt2p [of s] by simp
  ultimately show "ext_up r (ext_down r ?c) mod 65536 = uint s"
    using ext_up_spec [of r "ext_down r ?c"] ext_down_spec [of r ?c] by simp
  show "\<bar>ext_up r (ext_down r ?c) - r\<bar> \<le> 32768"
    using ext_up_spec [of r "ext_down r ?c"] ext_down_spec [of r ?c] by linarith
qed

end
