(* ===== verification/Ordered_Map.thy ===== *)
theory Ordered_Map
  imports Prelude
begin

text \<open>
  \<open>std::map<int64_t, T>\<close> as the code uses it: an association list kept sorted by key. \<open>emplace\<close>
  leaves an existing key alone, \<open>begin\<close> is the head, \<open>find\<close> is \<open>map_of\<close>.
\<close>

type_synonym 'v omap = "(int \<times> 'v) list"

primrec omap_emplace :: "int \<Rightarrow> 'v \<Rightarrow> 'v omap \<Rightarrow> 'v omap" where
  "omap_emplace k v [] = [(k, v)]"
| "omap_emplace k v (x # xs) =
    (if k < fst x then (k, v) # x # xs
     else if k = fst x then x # xs
     else x # omap_emplace k v xs)"

definition omap_erase :: "int \<Rightarrow> 'v omap \<Rightarrow> 'v omap" where
  "omap_erase k xs = filter (\<lambda>x. fst x \<noteq> k) xs"

definition omap_ok :: "'v omap \<Rightarrow> bool" where
  "omap_ok xs \<longleftrightarrow> sorted_wrt (<) (map fst xs)"

abbreviation omap_keys :: "'v omap \<Rightarrow> int set" where
  "omap_keys xs \<equiv> fst ` set xs"

lemma omap_ok_Nil [simp]: "omap_ok []"
  by (simp add: omap_ok_def)

lemma omap_ok_Cons [simp]: "omap_ok (x # xs) = ((\<forall>k \<in> omap_keys xs. fst x < k) \<and> omap_ok xs)"
  by (auto simp: omap_ok_def)

lemma omap_keys_emplace [simp]: "omap_keys (omap_emplace k v xs) = insert k (omap_keys xs)"
  by (induction xs) auto

lemma omap_ok_emplace [simp]: "omap_ok xs \<Longrightarrow> omap_ok (omap_emplace k v xs)"
proof (induction xs)
  case (Cons x xs)
  then show ?case by (auto simp del: omap_keys_emplace simp: omap_keys_emplace)
qed simp

lemma length_omap_emplace: "k \<notin> omap_keys xs \<Longrightarrow> length (omap_emplace k v xs) = Suc (length xs)"
  by (induction xs) auto

lemma set_omap_emplace: "k \<notin> omap_keys xs \<Longrightarrow> set (omap_emplace k v xs) = insert (k, v) (set xs)"
  by (induction xs) auto

lemma map_of_omap_emplace: "omap_ok xs \<Longrightarrow> k \<notin> omap_keys xs \<Longrightarrow>
    map_of (omap_emplace k v xs) = (map_of xs)(k \<mapsto> v)"
  by (induction xs) (auto simp: fun_eq_iff)

lemma map_of_omap_iff: "(map_of xs k = None) = (k \<notin> omap_keys xs)"
  by (rule map_of_eq_None_iff)

lemma omap_keys_erase [simp]: "omap_keys (omap_erase k xs) = omap_keys xs - {k}"
  by (auto simp: omap_erase_def)

lemma omap_ok_erase [simp]: "omap_ok xs \<Longrightarrow> omap_ok (omap_erase k xs)"
  by (induction xs) (auto simp: omap_erase_def)

lemma omap_erase_absent: "k \<notin> omap_keys xs \<Longrightarrow> omap_erase k xs = xs"
  by (induction xs) (auto simp: omap_erase_def)

lemma omap_erase_min:
  assumes "omap_ok xs" "\<forall>j \<in> omap_keys xs. k \<le> j" "k \<in> omap_keys xs"
  obtains v where "xs = (k, v) # omap_erase k xs"
proof (cases xs)
  case Nil
  with assms show ?thesis by simp
next
  case (Cons x ys)
  have "fst x = k" using assms Cons by (cases "fst x = k") (auto dest: bspec)
  moreover have "k \<notin> omap_keys ys" using assms(1) Cons calculation by auto
  ultimately have "xs = (k, snd x) # omap_erase k xs"
    using Cons omap_erase_absent [of k ys] by (auto simp: omap_erase_def)
  then show ?thesis by (rule that)
qed

end
