(* ===== verification/Jitter_Buffer.thy ===== *)
theory Jitter_Buffer
  imports Rtp_Packet Seq_Unwrap Ordered_Map
begin

text \<open>
  The jitter buffer: src/src/jitter/JitterBuffer.cpp and src/include/sipdemo/JitterBuffer.h. The
  record holds the class's fields; \<open>jb_insert\<close>, \<open>jb_pop\<close>, \<open>jb_reset\<close>, \<open>jb_stats\<close> and \<open>jb_size\<close> are
  its operations. Counters are \<open>uint64_t\<close>; extended sequence numbers (\<open>int64_t\<close>) are integers,
  and \<open>jb_int64_bound\<close> shows that the C++ arithmetic does not overflow.
\<close>

section \<open>Definitions\<close>

record jitter_stats =
  st_received :: u64
  st_lost :: u64
  st_reordered :: u64
  st_lateDiscarded :: u64
  st_overflowDropped :: u64
  st_currentDepth :: nat

definition jitter_stats_init :: jitter_stats where
  "jitter_stats_init = \<lparr>st_received = 0, st_lost = 0, st_reordered = 0, st_lateDiscarded = 0,
     st_overflowDropped = 0, st_currentDepth = 0\<rparr>"

record jitter_config =
  targetDepth :: nat
  capacity :: nat

definition jitter_config_init :: jitter_config where
  "jitter_config_init = \<lparr>targetDepth = 3, capacity = 64\<rparr>"

record jitter_buffer =
  cfg :: jitter_config
  buf :: "rtp_packet omap"
  started :: bool
  primed :: bool
  highestExt :: int
  playoutExt :: int
  stats :: jitter_stats

definition jb_new :: "jitter_config \<Rightarrow> jitter_buffer" where
  "jb_new c = \<lparr>cfg = c, buf = [], started = False, primed = False, highestExt = 0,
     playoutExt = 0, stats = jitter_stats_init\<rparr>"

definition jb_extend :: "u16 \<Rightarrow> int \<Rightarrow> int" where
  "jb_extend seq reference =
    (let base = reference - (reference smod 65536);
         candidate = base + uint seq;
         candidate = ext_down reference candidate
     in ext_up reference candidate)"

text \<open>The overflow loop: the oldest packet goes and the cursor moves past it.\<close>

function jb_overflow :: "jitter_buffer \<Rightarrow> jitter_buffer" where
  "jb_overflow jb =
    (case buf jb of
       [] \<Rightarrow> jb
     | oldest # rest \<Rightarrow>
         if length (buf jb) > capacity (cfg jb) then
           jb_overflow (jb\<lparr>playoutExt := (if fst oldest \<ge> playoutExt jb then fst oldest + 1
                                            else playoutExt jb),
                           buf := rest,
                           stats := (stats jb)\<lparr>st_overflowDropped := st_overflowDropped (stats jb) + 1\<rparr>\<rparr>)
         else jb)"
  by pat_completeness auto
termination
  by (relation "measure (\<lambda>jb. length (buf jb))") auto

declare jb_overflow.simps [simp del]

definition jb_insert :: "jitter_buffer \<Rightarrow> rtp_packet \<Rightarrow> jitter_buffer" where
  "jb_insert jb0 pkt =
    (let (jb, ext) =
       (if \<not> started jb0 then
          (let ext = uint (sequence pkt)
           in (jb0\<lparr>started := True, highestExt := ext, playoutExt := ext\<rparr>, ext))
        else (jb0, jb_extend (sequence pkt) (highestExt jb0)))
     in if ext < playoutExt jb then
          jb\<lparr>stats := (stats jb)\<lparr>st_lateDiscarded := st_lateDiscarded (stats jb) + 1\<rparr>\<rparr>
        else if ext \<in> omap_keys (buf jb) then
          jb\<lparr>stats := (stats jb)\<lparr>st_lateDiscarded := st_lateDiscarded (stats jb) + 1\<rparr>\<rparr>
        else
          (let jb = (if ext < highestExt jb then
                       jb\<lparr>stats := (stats jb)\<lparr>st_reordered := st_reordered (stats jb) + 1\<rparr>\<rparr>
                     else jb);
               jb = (if ext > highestExt jb then jb\<lparr>highestExt := ext\<rparr> else jb);
               jb = jb\<lparr>buf := omap_emplace ext pkt (buf jb)\<rparr>;
               jb = jb\<lparr>stats := (stats jb)\<lparr>st_received := st_received (stats jb) + 1\<rparr>\<rparr>
           in jb_overflow jb))"

text \<open>The result of \<open>pop\<close>: the new state, the packet, and the value of \<open>*wasLost\<close>.\<close>

definition jb_pop :: "jitter_buffer \<Rightarrow> jitter_buffer \<times> rtp_packet option \<times> bool" where
  "jb_pop jb =
    (if \<not> started jb then (jb, None, False)
     else if \<not> primed jb \<and> length (buf jb) < targetDepth (cfg jb) then (jb, None, False)
     else
       (let jb = (if \<not> primed jb then jb\<lparr>primed := True\<rparr> else jb) in
        if buf jb = [] then (jb, None, False)
        else
          (case map_of (buf jb) (playoutExt jb) of
             Some p \<Rightarrow>
               (jb\<lparr>buf := omap_erase (playoutExt jb) (buf jb), playoutExt := playoutExt jb + 1\<rparr>,
                Some p, False)
           | None \<Rightarrow>
               (jb\<lparr>stats := (stats jb)\<lparr>st_lost := st_lost (stats jb) + 1\<rparr>,
                   playoutExt := playoutExt jb + 1\<rparr>, None, True))))"

definition jb_reset :: "jitter_buffer \<Rightarrow> jitter_buffer" where
  "jb_reset jb = jb\<lparr>buf := [], started := False, primed := False, highestExt := 0,
     playoutExt := 0, stats := jitter_stats_init\<rparr>"

definition jb_stats :: "jitter_buffer \<Rightarrow> jitter_stats" where
  "jb_stats jb = (stats jb)\<lparr>st_currentDepth := length (buf jb)\<rparr>"

definition jb_size :: "jitter_buffer \<Rightarrow> nat" where
  "jb_size jb = length (buf jb)"

section \<open>Unwrapping\<close>

interpretation jb: unwrap jb_extend
  using extend_unwrap by (simp add: jb_extend_def [abs_def] Let_def)

section \<open>The invariant\<close>

definition jb_inv :: "jitter_buffer \<Rightarrow> bool" where
  "jb_inv jb \<longleftrightarrow> omap_ok (buf jb)
     \<and> (\<forall>k \<in> omap_keys (buf jb). playoutExt jb \<le> k \<and> k \<le> highestExt jb)
     \<and> (\<forall>(k, p) \<in> set (buf jb). word_of_int k = sequence p)
     \<and> length (buf jb) \<le> capacity (cfg jb)
     \<and> 0 \<le> playoutExt jb \<and> playoutExt jb \<le> highestExt jb + 1 \<and> 0 \<le> highestExt jb
     \<and> (\<not> started jb \<longrightarrow> buf jb = [] \<and> playoutExt jb = 0 \<and> highestExt jb = 0 \<and> \<not> primed jb)"

lemma jb_overflow_fits [simp]: "length (buf jb) \<le> capacity (cfg jb) \<Longrightarrow> jb_overflow jb = jb"
  by (subst jb_overflow.simps, cases "buf jb") simp_all

lemma jb_overflow_one:
  assumes "buf jb = (k, p) # rest" "length rest = capacity (cfg jb)" "playoutExt jb \<le> k"
  shows "jb_overflow jb = jb\<lparr>playoutExt := k + 1, buf := rest,
     stats := (stats jb)\<lparr>st_overflowDropped := st_overflowDropped (stats jb) + 1\<rparr>\<rparr>"
  using assms by (subst jb_overflow.simps) simp

text \<open>The extended number \<open>insert\<close> computes, and the state after the first-packet set-up.\<close>

definition jb_arrival :: "jitter_buffer \<Rightarrow> rtp_packet \<Rightarrow> int" where
  "jb_arrival jb pkt = (if started jb then jb_extend (sequence pkt) (highestExt jb) else uint (sequence pkt))"

definition jb_begin :: "jitter_buffer \<Rightarrow> rtp_packet \<Rightarrow> jitter_buffer" where
  "jb_begin jb pkt = (if started jb then jb
     else jb\<lparr>started := True, highestExt := uint (sequence pkt), playoutExt := uint (sequence pkt)\<rparr>)"

definition jb_accept :: "jitter_buffer \<Rightarrow> int \<Rightarrow> rtp_packet \<Rightarrow> jitter_buffer" where
  "jb_accept jb ext pkt = jb\<lparr>highestExt := max ext (highestExt jb), buf := omap_emplace ext pkt (buf jb),
     stats := (stats jb)\<lparr>st_received := st_received (stats jb) + 1,
       st_reordered := st_reordered (stats jb) + (if ext < highestExt jb then 1 else 0)\<rparr>\<rparr>"

definition jb_discard :: "jitter_buffer \<Rightarrow> jitter_buffer" where
  "jb_discard jb = jb\<lparr>stats := (stats jb)\<lparr>st_lateDiscarded := st_lateDiscarded (stats jb) + 1\<rparr>\<rparr>"

lemma jb_insert_cases:
  "jb_insert jb0 pkt =
    (let jb = jb_begin jb0 pkt; ext = jb_arrival jb0 pkt in
     if ext < playoutExt jb \<or> ext \<in> omap_keys (buf jb) then jb_discard jb
     else jb_overflow (jb_accept jb ext pkt))"
  by (cases jb0, cases "stats jb0")
    (auto simp: jb_insert_def jb_begin_def jb_arrival_def jb_discard_def jb_accept_def Let_def max_def
       intro!: arg_cong [of _ _ jb_overflow])

lemma jb_arrival_low: "word_of_int (jb_arrival jb pkt) = sequence pkt"
  by (simp add: jb_arrival_def jb.ext_low)

lemma jb_inv_begin: "jb_inv jb \<Longrightarrow> jb_inv (jb_begin jb pkt)"
  by (auto simp: jb_inv_def jb_begin_def)

lemma jb_begin_simps [simp]:
  "started (jb_begin jb pkt)" "buf (jb_begin jb pkt) = buf jb" "cfg (jb_begin jb pkt) = cfg jb"
  "stats (jb_begin jb pkt) = stats jb" "primed (jb_begin jb pkt) = primed jb"
  by (simp_all add: jb_begin_def)

lemma jb_begin_playout: "jb_inv jb \<Longrightarrow> playoutExt jb \<le> playoutExt (jb_begin jb pkt)"
  by (auto simp: jb_inv_def jb_begin_def)

text \<open>Accepting a packet ends in one of two states: the packet fits, or the oldest one goes.\<close>

lemma jb_accept_cases:
  assumes inv: "jb_inv jb" and st: "started jb" and new: "playoutExt jb \<le> ext" "ext \<notin> omap_keys (buf jb)"
  obtains (fits) "length (buf jb) < capacity (cfg jb)"
      "jb_overflow (jb_accept jb ext pkt) = jb_accept jb ext pkt"
  | (full) k p rest where "omap_emplace ext pkt (buf jb) = (k, p) # rest" "playoutExt jb \<le> k"
      "length rest = capacity (cfg jb)" "length (buf jb) = capacity (cfg jb)"
      "jb_overflow (jb_accept jb ext pkt) = (jb_accept jb ext pkt)\<lparr>playoutExt := k + 1, buf := rest,
         stats := (stats (jb_accept jb ext pkt))\<lparr>st_overflowDropped := st_overflowDropped (stats jb) + 1\<rparr>\<rparr>"
proof (cases "length (buf jb) < capacity (cfg jb)")
  case True
  then show ?thesis
    by (intro fits) (simp_all add: jb_accept_def length_omap_emplace [OF new(2)])
next
  case False
  let ?m = "omap_emplace ext pkt (buf jb)"
  have len: "length ?m = Suc (capacity (cfg jb))" "length (buf jb) = capacity (cfg jb)"
    using False inv by (simp_all add: jb_inv_def length_omap_emplace [OF new(2)])
  then obtain k p rest where m: "?m = (k, p) # rest" by (cases ?m) auto
  have "k \<in> omap_keys ?m" unfolding m by simp
  then have k: "playoutExt jb \<le> k" using inv new(1) by (auto simp: jb_inv_def)
  show ?thesis
    using m k len jb_overflow_one [of "jb_accept jb ext pkt" k p rest]
    by (intro full [OF m k]) (simp_all add: jb_accept_def)
qed

lemma jb_inv_accept:
  assumes inv: "jb_inv jb" and st: "started jb" and new: "playoutExt jb \<le> ext" "ext \<notin> omap_keys (buf jb)"
    and low: "word_of_int ext = sequence pkt"
  shows "jb_inv (jb_overflow (jb_accept jb ext pkt))"
    and "playoutExt jb \<le> playoutExt (jb_overflow (jb_accept jb ext pkt))"
proof -
  let ?m = "omap_emplace ext pkt (buf jb)"
  have ok: "omap_ok ?m" "\<forall>k \<in> omap_keys ?m. playoutExt jb \<le> k \<and> k \<le> max ext (highestExt jb)"
    "\<forall>(k, p) \<in> set ?m. word_of_int k = sequence p"
    using inv new low by (auto simp: jb_inv_def set_omap_emplace)
  show "jb_inv (jb_overflow (jb_accept jb ext pkt))"
  proof (rule jb_accept_cases [where pkt = pkt, OF inv st new], goal_cases)
    case fits: 1
    then show ?case using ok inv st unfolding fits(2)
      by (auto simp: jb_inv_def jb_accept_def length_omap_emplace [OF new(2)])
  next
    case full: (2 k p rest)
    have "k \<le> max ext (highestExt jb)" "\<forall>j \<in> omap_keys rest. k + 1 \<le> j \<and> j \<le> max ext (highestExt jb)"
      "omap_ok rest" "\<forall>(k, p) \<in> set rest. word_of_int k = sequence p"
      using ok unfolding full(1) by auto
    then show ?case using inv st full(2,3) unfolding full(5)
      by (auto simp: jb_inv_def jb_accept_def)
  qed
  show "playoutExt jb \<le> playoutExt (jb_overflow (jb_accept jb ext pkt))"
    by (rule jb_accept_cases [where pkt = pkt, OF inv st new]) (simp_all add: jb_accept_def)
qed

lemma jb_inv_discard: "jb_inv jb \<Longrightarrow> jb_inv (jb_discard jb)"
  by (simp add: jb_inv_def jb_discard_def)

lemma jb_insert_inv [inv_intro]:
  assumes "jb_inv jb"
  shows "jb_inv (jb_insert jb pkt)" "playoutExt jb \<le> playoutExt (jb_insert jb pkt)"
proof -
  let ?b = "jb_begin jb pkt" and ?e = "jb_arrival jb pkt"
  have b: "jb_inv ?b" "started ?b" "playoutExt jb \<le> playoutExt ?b"
    using assms by (simp_all add: jb_inv_begin jb_begin_playout)
  show "jb_inv (jb_insert jb pkt)"
  proof (cases "?e < playoutExt ?b \<or> ?e \<in> omap_keys (buf ?b)")
    case True
    then show ?thesis using b(1) by (simp add: jb_insert_cases Let_def jb_inv_discard)
  next
    case False
    then have "jb_inv (jb_overflow (jb_accept ?b ?e pkt))"
      using b by (intro jb_inv_accept) (simp_all add: jb_arrival_low)
    then show ?thesis unfolding jb_insert_cases Let_def using False by (simp only: if_False)
  qed
  show "playoutExt jb \<le> playoutExt (jb_insert jb pkt)"
  proof (cases "?e < playoutExt ?b \<or> ?e \<in> omap_keys (buf ?b)")
    case True
    then show ?thesis using b(3) by (simp add: jb_insert_cases Let_def jb_discard_def)
  next
    case False
    then have "playoutExt ?b \<le> playoutExt (jb_overflow (jb_accept ?b ?e pkt))"
      using b by (intro jb_inv_accept) (simp_all add: jb_arrival_low)
    then have "playoutExt jb \<le> playoutExt (jb_overflow (jb_accept ?b ?e pkt))" using b(3) by simp
    then show ?thesis unfolding jb_insert_cases Let_def using False by (simp only: if_False)
  qed
qed

text \<open>What \<open>pop\<close> does to a state that satisfies the invariant.\<close>

definition jb_ready :: "jitter_buffer \<Rightarrow> bool" where
  "jb_ready jb \<longleftrightarrow> started jb \<and> (primed jb \<or> targetDepth (cfg jb) \<le> length (buf jb))"

lemma jb_pop_cases:
  assumes "jb_inv jb"
  obtains (wait) "\<not> jb_ready jb" "jb_pop jb = (jb, None, False)"
  | (underrun) "jb_ready jb" "buf jb = []" "jb_pop jb = (jb\<lparr>primed := True\<rparr>, None, False)"
  | (play) p rest where "jb_ready jb" "buf jb = (playoutExt jb, p) # rest"
      "jb_pop jb = (jb\<lparr>primed := True, buf := rest, playoutExt := playoutExt jb + 1\<rparr>, Some p, False)"
  | (loss) k p rest where "jb_ready jb" "buf jb = (k, p) # rest" "playoutExt jb < k"
      "jb_pop jb = (jb\<lparr>primed := True, playoutExt := playoutExt jb + 1,
         stats := (stats jb)\<lparr>st_lost := st_lost (stats jb) + 1\<rparr>\<rparr>, None, True)"
proof (cases "jb_ready jb")
  case False
  then show ?thesis by (intro wait) (auto simp: jb_ready_def jb_pop_def)
next
  case ready: True
  have pr: "(if \<not> primed jb then jb\<lparr>primed := True\<rparr> else jb) = jb\<lparr>primed := True\<rparr>" by simp
  show ?thesis
  proof (cases "buf jb")
    case Nil
    then show ?thesis using ready by (intro underrun) (auto simp: jb_ready_def jb_pop_def pr Let_def)
  next
    case (Cons x rest)
    obtain k p where x: "x = (k, p)" by (cases x)
    have ok: "omap_ok (buf jb)" "\<forall>j \<in> omap_keys (buf jb). playoutExt jb \<le> j"
      using assms by (auto simp: jb_inv_def)
    show ?thesis
    proof (cases "playoutExt jb = k")
      case True
      have "omap_erase k (buf jb) = rest"
        using ok(1) omap_erase_absent [of k rest] by (auto simp: Cons x omap_erase_def)
      then show ?thesis using ready Cons x True
        by (intro play [of p rest]) (auto simp: jb_ready_def jb_pop_def pr Let_def)
    next
      case False
      then have lt: "playoutExt jb < k" "playoutExt jb \<notin> omap_keys (buf jb)"
        using ok by (auto simp: Cons x)
      then have "map_of (buf jb) (playoutExt jb) = None" by (simp add: map_of_omap_iff)
      then show ?thesis using ready Cons x lt
        by (intro loss [of k p rest]) (auto simp: jb_ready_def jb_pop_def pr Let_def split: option.splits)
    qed
  qed
qed

lemma jb_pop_inv [inv_intro]:
  assumes "jb_inv jb"
  shows "jb_inv (fst (jb_pop jb))" "playoutExt jb \<le> playoutExt (fst (jb_pop jb))"
  by (rule jb_pop_cases [OF assms]; use assms in \<open>force simp: jb_inv_def jb_ready_def\<close>)+

lemma jb_reset_inv [inv_intro]: "jb_inv (jb_reset jb)"
  by (simp add: jb_inv_def jb_reset_def)

lemma jb_new_inv [inv_intro]: "jb_inv (jb_new c)"
  by (simp add: jb_inv_def jb_new_def)

section \<open>Runs\<close>

text \<open>A run interleaves the two threads' calls in any order; the outputs are the packets played.\<close>

datatype jb_op = JInsert rtp_packet | JPop

fun jb_step :: "jitter_buffer \<Rightarrow> jb_op \<Rightarrow> jitter_buffer" where
  "jb_step jb (JInsert p) = jb_insert jb p"
| "jb_step jb JPop = fst (jb_pop jb)"

fun jb_run :: "jitter_buffer \<Rightarrow> jb_op list \<Rightarrow> jitter_buffer \<times> rtp_packet list" where
  "jb_run jb [] = (jb, [])"
| "jb_run jb (JInsert p # es) = jb_run (jb_insert jb p) es"
| "jb_run jb (JPop # es) =
    (let (jb1, out, lost) = jb_pop jb; (jb2, outs) = jb_run jb1 es
     in (jb2, case out of None \<Rightarrow> outs | Some p \<Rightarrow> p # outs))"

definition is_insert :: "jb_op \<Rightarrow> bool" where
  "is_insert e = (case e of JInsert _ \<Rightarrow> True | JPop \<Rightarrow> False)"

interpretation jbm: machine jb_step jb_inv
proof
  fix s e assume "jb_inv s"
  then show "jb_inv (jb_step s e)" by (cases e) (simp_all add: inv_intro)
qed

lemma jb_run_pop: "jb_run jb (JPop # es) =
    (fst (jb_run (fst (jb_pop jb)) es),
     (case fst (snd (jb_pop jb)) of None \<Rightarrow> [] | Some p \<Rightarrow> [p]) @ snd (jb_run (fst (jb_pop jb)) es))"
  by (simp add: split_beta split: option.splits)

declare jb_run.simps(3) [simp del]
declare jb_run_pop [simp]

lemma jb_run_induct [case_names Nil Insert Pop]:
  assumes "\<And>jb. P jb []" "\<And>jb p es. P (jb_insert jb p) es \<Longrightarrow> P jb (JInsert p # es)"
    "\<And>jb jb1 out l es. jb_pop jb = (jb1, out, l) \<Longrightarrow> P jb1 es \<Longrightarrow> P jb (JPop # es)"
  shows "P jb es"
proof (induction es arbitrary: jb)
  case (Cons e es)
  then show ?case
    using assms(2) assms(3) [OF prod_cases3 [of "jb_pop jb"]] by (cases e) (metis assms(3) prod_cases3)+
qed (rule assms(1))

lemma jb_run_state: "fst (jb_run jb es) = foldl jb_step jb es"
  by (induction jb es rule: jb_run_induct) auto

lemma jb_run_inv: "jb_inv jb \<Longrightarrow> jb_inv (fst (jb_run jb es))"
  by (simp add: jb_run_state jbm.inv_run)

lemma jb_run_append:
  "jb_run jb (es @ fs) = (let (jb1, o1) = jb_run jb es; (jb2, o2) = jb_run jb1 fs in (jb2, o1 @ o2))"
  by (induction jb es rule: jb_run_induct) (auto simp: split_beta Let_def)

lemma jb_pop_output:
  assumes "jb_inv jb" "jb_pop jb = (jb1, Some p, l)"
  shows "word_of_int (playoutExt jb) = sequence p" "playoutExt jb1 = playoutExt jb + 1"
  by (rule jb_pop_cases [OF assms(1)]; use assms in \<open>auto simp: jb_inv_def\<close>)+

text \<open>Each output carries an index; the indices increase strictly from the cursor on.\<close>

lemma jb_run_indices:
  "jb_inv jb \<Longrightarrow> \<exists>idx. sorted_wrt (<) idx \<and> (\<forall>i \<in> set idx. playoutExt jb \<le> i)
     \<and> map word_of_int idx = map sequence (snd (jb_run jb es))"
proof (induction jb es rule: jb_run_induct)
  case (Insert jb p es)
  then show ?case using jb_insert_inv [OF Insert(2), of p] by fastforce
next
  case (Pop jb jb1 out l es)
  note pop = Pop(1)
  have inv: "jb_inv jb1" "playoutExt jb \<le> playoutExt jb1"
    using jb_pop_inv [OF Pop(3)] by (simp_all add: pop)
  obtain idx where idx: "sorted_wrt (<) idx" "\<forall>i \<in> set idx. playoutExt jb1 \<le> i"
    "map word_of_int idx = map sequence (snd (jb_run jb1 es))"
    using Pop(2) inv(1) by blast
  show ?case
  proof (cases out)
    case None
    then show ?thesis using idx inv(2) by (intro exI [of _ idx]) (auto simp: pop split_beta)
  next
    case (Some p)
    note o = jb_pop_output [OF Pop(3) pop [unfolded Some]]
    then show ?thesis using idx Some
      by (intro exI [of _ "playoutExt jb # idx"]) (auto simp: pop split_beta)
  qed
qed simp

section \<open>Accounting\<close>

lemma jb_insert_elim:
  obtains (discard) "jb_insert jb pkt = jb_discard (jb_begin jb pkt)"
  | (accept) "playoutExt (jb_begin jb pkt) \<le> jb_arrival jb pkt" "jb_arrival jb pkt \<notin> omap_keys (buf jb)"
      "jb_insert jb pkt = jb_overflow (jb_accept (jb_begin jb pkt) (jb_arrival jb pkt) pkt)"
  by (cases "jb_arrival jb pkt < playoutExt (jb_begin jb pkt) \<or> jb_arrival jb pkt \<in> omap_keys (buf jb)")
    (simp_all add: jb_insert_cases Let_def)

lemma jb_insert_account:
  assumes inv: "jb_inv jb"
  shows "st_received (stats (jb_insert jb pkt)) - st_overflowDropped (stats (jb_insert jb pkt))
        - of_nat (length (buf (jb_insert jb pkt)))
      = st_received (stats jb) - st_overflowDropped (stats jb) - of_nat (length (buf jb))"
    and "st_received (stats (jb_insert jb pkt)) + st_lateDiscarded (stats (jb_insert jb pkt))
      = st_received (stats jb) + st_lateDiscarded (stats jb) + 1"
    and "st_lost (stats (jb_insert jb pkt)) = st_lost (stats jb)"
proof -
  let ?b = "jb_begin jb pkt" and ?e = "jb_arrival jb pkt"
  let ?acc = "\<lambda>jb'. st_received (stats jb') - st_overflowDropped (stats jb') - of_nat (length (buf jb'))
        = st_received (stats jb) - st_overflowDropped (stats jb) - of_nat (length (buf jb))
      \<and> st_received (stats jb') + st_lateDiscarded (stats jb')
        = st_received (stats jb) + st_lateDiscarded (stats jb) + 1
      \<and> st_lost (stats jb') = st_lost (stats jb)"
  have b: "jb_inv ?b" "started ?b" using inv by (simp_all add: jb_inv_begin)
  have acc: "?acc (jb_overflow (jb_accept ?b ?e pkt))"
    if new: "playoutExt ?b \<le> ?e" "?e \<notin> omap_keys (buf jb)"
  proof -
    have "length (omap_emplace ?e pkt (buf jb)) = Suc (length (buf jb))"
      using new(2) by (simp add: length_omap_emplace)
    then show ?thesis
      by (rule_tac jb_accept_cases [where pkt = pkt, OF b new(1)]) (simp_all add: jb_accept_def new(2))
  qed
  have disc: "?acc (jb_discard ?b)" by (simp add: jb_discard_def)
  have "?acc (jb_insert jb pkt)"
  proof (rule jb_insert_elim [of jb pkt], goal_cases)
    case 1
    show ?case unfolding 1 by (rule disc)
  next
    case 2
    show ?case unfolding 2(3) by (rule acc [OF 2(1,2)])
  qed
  then show "st_received (stats (jb_insert jb pkt)) - st_overflowDropped (stats (jb_insert jb pkt))
        - of_nat (length (buf (jb_insert jb pkt)))
      = st_received (stats jb) - st_overflowDropped (stats jb) - of_nat (length (buf jb))"
    "st_received (stats (jb_insert jb pkt)) + st_lateDiscarded (stats (jb_insert jb pkt))
      = st_received (stats jb) + st_lateDiscarded (stats jb) + 1"
    "st_lost (stats (jb_insert jb pkt)) = st_lost (stats jb)" by blast+
qed

lemma jb_pop_account:
  assumes "jb_inv jb" "jb_pop jb = (jb1, out, l)"
  shows "st_received (stats jb1) = st_received (stats jb)"
    "st_overflowDropped (stats jb1) = st_overflowDropped (stats jb)"
    "st_lateDiscarded (stats jb1) = st_lateDiscarded (stats jb)"
    "length (buf jb) = length (buf jb1) + (case out of None \<Rightarrow> 0 | Some p \<Rightarrow> 1)"
    "st_lost (stats jb1) = st_lost (stats jb) + (if l then 1 else 0)"
  by (rule jb_pop_cases [OF assms(1)]; use assms in auto)+

lemma jb_run_account:
  "jb_inv jb \<Longrightarrow> st_received (stats (fst (jb_run jb es))) - st_overflowDropped (stats (fst (jb_run jb es)))
      - of_nat (length (buf (fst (jb_run jb es))))
    = st_received (stats jb) - st_overflowDropped (stats jb) - of_nat (length (buf jb))
      + of_nat (length (snd (jb_run jb es)))"
proof (induction jb es rule: jb_run_induct)
  case (Insert jb p es)
  then show ?case using jb_insert_inv(1) [OF Insert(2), of p] jb_insert_account(1) [OF Insert(2), of p] by simp
next
  case (Pop jb jb1 out l es)
  note pop = Pop(1)
  have "jb_inv jb1" using jb_pop_inv(1) [OF Pop(3)] by (simp add: pop)
  then show ?case
    using Pop(2) jb_pop_account [OF Pop(3) pop]
    by (cases out) (simp_all add: pop split_beta)
qed simp

lemma jb_run_arrivals:
  "jb_inv jb \<Longrightarrow> st_received (stats (fst (jb_run jb es))) + st_lateDiscarded (stats (fst (jb_run jb es)))
    = st_received (stats jb) + st_lateDiscarded (stats jb) + of_nat (length (filter is_insert es))"
proof (induction jb es rule: jb_run_induct)
  case (Insert jb p es)
  then show ?case
    using jb_insert_inv(1) [OF Insert(2), of p] jb_insert_account(2) [OF Insert(2), of p] by (simp add: is_insert_def)
next
  case (Pop jb jb1 out l es)
  note pop = Pop(1)
  have "jb_inv jb1" using jb_pop_inv(1) [OF Pop(3)] by (simp add: pop)
  then show ?case
    using Pop(2) jb_pop_account [OF Pop(3) pop]
    by (simp add: pop split_beta is_insert_def)
qed simp

section \<open>Playing a contiguous buffer, and crossing a gap\<close>

lemma jb_pop_head:
  assumes "jb_inv jb" "jb_ready jb" "buf jb = (playoutExt jb, p) # rest"
  shows "jb_pop jb = (jb\<lparr>primed := True, buf := rest, playoutExt := playoutExt jb + 1\<rparr>, Some p, False)"
  by (rule jb_pop_cases [OF assms(1)]; use assms in auto)

lemma jb_ready_primed: "jb_inv jb \<Longrightarrow> jb_ready jb \<Longrightarrow> jb_ready (fst (jb_pop jb)) \<and> primed (fst (jb_pop jb))"
  by (rule jb_pop_cases [of jb]) (auto simp: jb_ready_def)

definition consecutive :: "int \<Rightarrow> 'v omap \<Rightarrow> bool" where
  "consecutive k m \<longleftrightarrow> map fst m = map (\<lambda>i. k + int i) [0..<length m]"

lemma consecutive_Cons: "consecutive k ((j, v) # m) \<longleftrightarrow> j = k \<and> consecutive (k + 1) m"
proof -
  have "map (\<lambda>i. k + int i) [0..<Suc n] = k # map (\<lambda>i. k + 1 + int i) [0..<n]" for n
    by (simp add: upt_conv_Cons map_Suc_upt [symmetric] del: upt_Suc)
  then show ?thesis by (auto simp: consecutive_def simp del: upt_Suc)
qed

lemma jb_drain:
  assumes "jb_inv jb" "jb_ready jb" "consecutive (playoutExt jb) (buf jb)"
  shows "snd (jb_run jb (replicate (length (buf jb)) JPop)) = map snd (buf jb)
    \<and> stats (fst (jb_run jb (replicate (length (buf jb)) JPop))) = stats jb"
  using assms
proof (induction "buf jb" arbitrary: jb)
  case Nil
  then show ?case by simp
next
  case (Cons x rest)
  obtain p where x: "buf jb = (playoutExt jb, p) # rest"
    using Cons.hyps(2) Cons.prems(3) by (cases x) (auto simp: consecutive_Cons simp flip: Cons.hyps(2))
  note pop = jb_pop_head [OF Cons.prems(1,2) x]
  let ?jb1 = "jb\<lparr>primed := True, buf := rest, playoutExt := playoutExt jb + 1\<rparr>"
  have "jb_inv ?jb1" "jb_ready ?jb1"
    using jb_pop_inv(1) [OF Cons.prems(1)] jb_ready_primed [OF Cons.prems(1,2)] by (simp_all add: pop)
  moreover have "consecutive (playoutExt ?jb1) (buf ?jb1)"
    using Cons.prems(3) by (simp add: x consecutive_Cons)
  ultimately have "snd (jb_run ?jb1 (replicate (length rest) JPop)) = map snd rest"
    "stats (fst (jb_run ?jb1 (replicate (length rest) JPop))) = stats jb"
    using Cons.hyps(1) [of ?jb1] by simp_all
  then show ?case by (simp add: x pop)
qed

text \<open>A gap of \<open>k - playoutExt\<close> slots is declared lost one slot per pop, then the packet plays.\<close>

lemma jb_gap:
  assumes "jb_inv jb" "jb_ready jb" "buf jb = (k, p) # rest" "k = playoutExt jb + int n"
  shows "snd (jb_run jb (replicate (Suc n) JPop)) = [p]
    \<and> st_lost (stats (fst (jb_run jb (replicate (Suc n) JPop)))) = st_lost (stats jb) + of_nat n"
  using assms
proof (induction n arbitrary: jb)
  case 0
  then have "buf jb = (playoutExt jb, p) # rest" by simp
  then show ?case using jb_pop_head [OF 0(1,2)] by simp
next
  case (Suc n)
  let ?jb1 = "jb\<lparr>primed := True, playoutExt := playoutExt jb + 1,
         stats := (stats jb)\<lparr>st_lost := st_lost (stats jb) + 1\<rparr>\<rparr>"
  have pop: "jb_pop jb = (?jb1, None, True)"
    by (rule jb_pop_cases [OF Suc.prems(1)]; use Suc.prems in auto)
  have "jb_inv ?jb1" "jb_ready ?jb1"
    using jb_pop_inv(1) [OF Suc.prems(1)] jb_ready_primed [OF Suc.prems(1,2)] by (simp_all add: pop)
  then have "snd (jb_run ?jb1 (replicate (Suc n) JPop)) = [p]
    \<and> st_lost (stats (fst (jb_run ?jb1 (replicate (Suc n) JPop)))) = st_lost (stats ?jb1) + of_nat n"
    using Suc.prems(3,4) by (intro Suc.IH) simp_all
  then show ?case unfolding replicate_Suc [of "Suc n"] by (simp only: jb_run_pop pop) simp
qed

section \<open>Reordered arrivals\<close>

text \<open>
  \<open>loaded\<close> describes the buffer while packets of one stream, numbered from \<open>e\<close> on, arrive in any
  order after the first: exactly the arrived ones (the index set \<open>I\<close>) are queued.
\<close>

definition stream_of :: "rtp_packet list \<Rightarrow> bool" where
  "stream_of ps \<longleftrightarrow> ps \<noteq> [] \<and> length ps \<le> 32768
     \<and> (\<forall>i < length ps. sequence (ps ! i) = sequence (ps ! 0) + of_nat i)"

definition loaded :: "jitter_config \<Rightarrow> rtp_packet list \<Rightarrow> int \<Rightarrow> nat set \<Rightarrow> jitter_buffer \<Rightarrow> bool" where
  "loaded c ps e I jb \<longleftrightarrow> jb_inv jb \<and> started jb \<and> cfg jb = c \<and> playoutExt jb = e
     \<and> e \<le> highestExt jb \<and> highestExt jb < e + int (length ps)
     \<and> I \<subseteq> {..<length ps} \<and> set (buf jb) = (\<lambda>i. (e + int i, ps ! i)) ` I \<and> length (buf jb) = card I
     \<and> st_lost (stats jb) = 0 \<and> st_lateDiscarded (stats jb) = 0 \<and> st_overflowDropped (stats jb) = 0"

lemma loaded_first:
  assumes "stream_of ps" "1 \<le> capacity c"
  shows "loaded c ps (uint (sequence (ps ! 0))) {0} (jb_insert (jb_new c) (ps ! 0))"
proof -
  let ?p = "ps ! 0" and ?e = "uint (sequence (ps ! 0))"
  have pos: "0 < length ps" using assms by (simp add: stream_of_def)
  have beg: "jb_begin (jb_new c) ?p = (jb_new c)\<lparr>started := True, highestExt := ?e, playoutExt := ?e\<rparr>"
    "jb_arrival (jb_new c) ?p = ?e"
    by (simp_all only: jb_begin_def jb_arrival_def) (simp_all add: jb_new_def)
  have ins: "jb_insert (jb_new c) ?p
      = jb_accept ((jb_new c)\<lparr>started := True, highestExt := ?e, playoutExt := ?e\<rparr>) ?e ?p"
    unfolding jb_insert_cases beg Let_def using assms(2) by (simp add: jb_new_def jb_accept_def)
  show ?thesis
    using jb_insert_inv(1) [OF jb_new_inv, of c ?p] pos unfolding ins
    by (simp add: loaded_def jb_accept_def jb_new_def jitter_stats_init_def)
qed

lemma loaded_insert:
  assumes str: "stream_of ps" and ld: "loaded c ps (uint (sequence (ps ! 0))) I jb"
    and i: "i < length ps" "i \<notin> I" and cap: "length ps \<le> capacity c"
  shows "loaded c ps (uint (sequence (ps ! 0))) (insert i I) (jb_insert jb (ps ! i))"
proof -
  let ?e = "uint (sequence (ps ! 0))"
  have seq: "sequence (ps ! i) = word_of_int (?e + int i)"
  proof -
    have "sequence (ps ! i) = sequence (ps ! 0) + of_nat i" using str i(1) unfolding stream_of_def by blast
    then show ?thesis by simp
  qed
  have n: "length ps \<le> 32768" using str unfolding stream_of_def by blast
  have arr: "jb_arrival jb (ps ! i) = ?e + int i"
  proof -
    have "\<bar>?e + int i - highestExt jb\<bar> < 32768"
      using ld i(1) n by (auto simp: loaded_def)
    then have "jb_extend (word_of_int (?e + int i)) (highestExt jb) = ?e + int i" by (rule jb.ext_exact)
    moreover have "started jb" using ld by (simp add: loaded_def)
    ultimately show ?thesis by (simp only: jb_arrival_def seq if_True)
  qed
  have beg: "jb_begin jb (ps ! i) = jb" using ld by (simp add: jb_begin_def loaded_def)
  have fin: "finite I" using ld finite_subset by (auto simp: loaded_def)
  have new: "?e + int i \<notin> omap_keys (buf jb)" using ld i(2) by (auto simp: loaded_def)
  have "card (insert i I) \<le> length ps"
    using ld i(1) card_mono [of "{..<length ps}" "insert i I"] by (auto simp: loaded_def)
  then have len: "Suc (card I) \<le> capacity c" using fin i(2) cap by simp
  have ins: "jb_insert jb (ps ! i) = jb_accept jb (?e + int i) (ps ! i)"
    using ld new len unfolding jb_insert_cases beg arr Let_def
    by (auto simp: loaded_def jb_accept_def length_omap_emplace)
  have "jb_inv (jb_insert jb (ps ! i))" using ld by (simp add: loaded_def inv_intro)
  then show ?thesis
    using ld i fin new unfolding ins
    by (auto simp: loaded_def jb_accept_def length_omap_emplace set_omap_emplace)
qed

lemma loaded_inserts:
  "stream_of ps \<Longrightarrow> loaded c ps (uint (sequence (ps ! 0))) I jb \<Longrightarrow> length ps \<le> capacity c \<Longrightarrow>
   distinct is \<Longrightarrow> set is \<subseteq> {..<length ps} - I \<Longrightarrow>
   loaded c ps (uint (sequence (ps ! 0))) (I \<union> set is) (fst (jb_run jb (map (\<lambda>i. JInsert (ps ! i)) is)))
   \<and> snd (jb_run jb (map (\<lambda>i. JInsert (ps ! i)) is)) = []"
proof (induction "is" arbitrary: I jb)
  case (Cons i "is")
  have "loaded c ps (uint (sequence (ps ! 0))) (insert i I) (jb_insert jb (ps ! i))"
    using Cons.prems by (intro loaded_insert) auto
  then have "loaded c ps (uint (sequence (ps ! 0))) (insert i I \<union> set is)
      (fst (jb_run (jb_insert jb (ps ! i)) (map (\<lambda>i. JInsert (ps ! i)) is)))
   \<and> snd (jb_run (jb_insert jb (ps ! i)) (map (\<lambda>i. JInsert (ps ! i)) is)) = []"
    using Cons.prems by (intro Cons.IH) auto
  then show ?case by simp
qed simp

lemma loaded_complete:
  assumes "loaded c ps e {..<length ps} jb"
  shows "consecutive e (buf jb)" "map snd (buf jb) = ps" "length (buf jb) = length ps"
proof -
  let ?n = "length ps" and ?ks = "map (\<lambda>i. e + int i) [0..<length ps]"
  have len: "length (buf jb) = ?n" using assms by (simp add: loaded_def)
  have set: "set (buf jb) = (\<lambda>i. (e + int i, ps ! i)) ` {..<?n}" using assms by (simp add: loaded_def)
  have "sorted_wrt (<) (map fst (buf jb))" using assms by (simp add: loaded_def jb_inv_def omap_ok_def)
  moreover have "sorted_wrt (<) ?ks" by (simp add: sorted_wrt_map sorted_wrt_upt)
  moreover have "set (map fst (buf jb)) = set ?ks" using set by (auto simp: image_image)
  ultimately have keys: "map fst (buf jb) = ?ks" by (intro strict_sorted_equal)
  then show "consecutive e (buf jb)" by (simp add: consecutive_def len)
  show "map snd (buf jb) = ps"
  proof (rule nth_equalityI)
    fix i assume "i < length (map snd (buf jb))"
    then have i: "i < ?n" by (simp add: len)
    have "map fst (buf jb) ! i = ?ks ! i" by (simp only: keys)
    then have "fst (buf jb ! i) = e + int i" using i len by simp
    moreover have "buf jb ! i \<in> set (buf jb)" using i len by simp
    ultimately show "map snd (buf jb) ! i = ps ! i" using set i len by auto
  qed (simp add: len)
  show "length (buf jb) = ?n" by (rule len)
qed

lemma jb_reorder_restored:
  assumes "stream_of ps" "length ps \<le> capacity c" "targetDepth c \<le> length ps"
    and "distinct is" "set is = {1..<length ps}"
  shows "snd (jb_run (jb_new c) (JInsert (ps ! 0) # map (\<lambda>i. JInsert (ps ! i)) is
      @ replicate (length ps) JPop)) = ps"
    and "st_lost (stats (fst (jb_run (jb_new c) (JInsert (ps ! 0) # map (\<lambda>i. JInsert (ps ! i)) is
      @ replicate (length ps) JPop)))) = 0"
proof -
  let ?e = "uint (sequence (ps ! 0))" and ?ins = "map (\<lambda>i. JInsert (ps ! i)) is"
  let ?start = "jb_insert (jb_new c) (ps ! 0)"
  let ?jb = "fst (jb_run ?start ?ins)"
  have pos: "0 < length ps" using assms(1) by (simp add: stream_of_def)
  have "loaded c ps ?e {0} ?start" using assms(1,2) pos by (intro loaded_first) linarith+
  moreover have "set is \<subseteq> {..<length ps} - {0}" using assms(5) by auto
  ultimately have "loaded c ps ?e ({0} \<union> set is) ?jb" "snd (jb_run ?start ?ins) = []"
    using loaded_inserts [OF assms(1) _ assms(2,4), of "{0}" ?start] by blast+
  moreover have "{0} \<union> set is = {..<length ps}" using assms(5) pos by auto
  ultimately have ld: "loaded c ps ?e {..<length ps} ?jb" and out: "snd (jb_run ?start ?ins) = []" by simp_all
  note full = loaded_complete [OF ld]
  have "jb_inv ?jb" "jb_ready ?jb" "consecutive (playoutExt ?jb) (buf ?jb)"
    using ld full assms(3) by (simp_all add: loaded_def jb_ready_def)
  note dr = jb_drain [OF this]
  show "snd (jb_run (jb_new c) (JInsert (ps ! 0) # ?ins @ replicate (length ps) JPop)) = ps"
    using dr full out by (simp add: jb_run_append split_beta Let_def)
  show "st_lost (stats (fst (jb_run (jb_new c) (JInsert (ps ! 0) # ?ins @ replicate (length ps) JPop)))) = 0"
    using dr full ld by (simp add: jb_run_append split_beta Let_def loaded_def)
qed

section \<open>Bounds\<close>

lemma jb_insert_highest: "jb_inv jb \<Longrightarrow> highestExt (jb_insert jb pkt) \<le> max 65535 (highestExt jb + 32768)"
proof -
  assume inv: "jb_inv jb"
  let ?b = "jb_begin jb pkt" and ?e = "jb_arrival jb pkt"
  have b: "jb_inv ?b" using inv by (simp add: jb_inv_begin)
  have u: "uint (sequence pkt) \<le> 65535" using uint_lt2p [of "sequence pkt"] by simp
  have e: "?e \<le> max 65535 (highestExt jb + 32768)" "highestExt ?b \<le> max 65535 (highestExt jb + 32768)"
    using inv u jb.ext_upper [of "highestExt jb" "sequence pkt"]
    by (auto simp: jb_arrival_def jb_begin_def jb_inv_def)
  show ?thesis
  proof (rule jb_insert_elim [of jb pkt], goal_cases)
    case 1
    then show ?case using e by (simp add: jb_discard_def)
  next
    case 2
    show ?case unfolding 2(3)
      by (rule jb_accept_cases [where pkt = pkt, OF b _ 2(1)])
        (use 2 e in \<open>simp_all add: jb_accept_def\<close>)
  qed
qed

lemma jb_pop_highest: "jb_inv jb \<Longrightarrow> highestExt (fst (jb_pop jb)) = highestExt jb"
  by (rule jb_pop_cases [of jb]) auto

lemma jb_run_highest:
  "jb_inv jb \<Longrightarrow> highestExt jb \<le> 65535 + 32768 * int n \<Longrightarrow>
   highestExt (fst (jb_run jb es)) \<le> 65535 + 32768 * int (n + length (filter is_insert es))"
proof (induction jb es arbitrary: n rule: jb_run_induct)
  case (Insert jb p es)
  have "highestExt (jb_insert jb p) \<le> 65535 + 32768 * int (Suc n)"
    using jb_insert_highest [OF Insert.prems(1), of p] Insert.prems(2) by simp
  then show ?case using Insert.IH [of "Suc n"] Insert.prems by (simp add: inv_intro is_insert_def)
next
  case (Pop jb jb1 out l es)
  then show ?case using jb_pop_highest [OF Pop.prems(1)] jb_pop_inv(1) [OF Pop.prems(1)]
    by (simp add: is_insert_def)
qed (simp add: is_insert_def)

text \<open>A capacity below the target depth never lets the buffer prime.\<close>

definition never_primes :: "jitter_buffer \<Rightarrow> bool" where
  "never_primes jb \<longleftrightarrow> jb_inv jb \<and> \<not> primed jb \<and> capacity (cfg jb) < targetDepth (cfg jb)"

lemma jb_insert_frame: "cfg (jb_insert jb p) = cfg jb" "primed (jb_insert jb p) = primed jb" if "jb_inv jb"
proof -
  have b: "jb_inv (jb_begin jb p)" using that by (simp add: jb_inv_begin)
  show "cfg (jb_insert jb p) = cfg jb" "primed (jb_insert jb p) = primed jb"
    by (rule jb_insert_elim [of jb p]; (simp add: jb_discard_def; fail)?;
        rule jb_accept_cases [where pkt = p and ext = "jb_arrival jb p", OF b]; simp add: jb_accept_def)+
qed

lemma jb_starved_run: "never_primes jb \<Longrightarrow> snd (jb_run jb es) = []"
proof (induction jb es rule: jb_run_induct)
  case (Insert jb p es)
  then have "never_primes (jb_insert jb p)"
    by (simp add: never_primes_def inv_intro jb_insert_frame)
  then show ?case using Insert.IH by simp
next
  case (Pop jb jb1 out l es)
  have "\<not> jb_ready jb" using Pop.prems by (auto simp: never_primes_def jb_ready_def jb_inv_def)
  moreover have "jb_inv jb" using Pop.prems by (simp add: never_primes_def)
  ultimately have "jb_pop jb = (jb, None, False)" by (rule_tac jb_pop_cases [of jb]) auto
  then show ?case using Pop by simp
qed simp

section \<open>A stream within half the number space\<close>

lemma jb_insert_highest_mono:
  assumes inv: "jb_inv jb" "started jb"
  shows "highestExt jb \<le> highestExt (jb_insert jb pkt)"
    and "highestExt (jb_insert jb pkt) \<le> max (jb_arrival jb pkt) (highestExt jb)"
    and "started (jb_insert jb pkt)"
proof -
  have b: "jb_begin jb pkt = jb" using inv(2) by (simp add: jb_begin_def)
  let ?g = "\<lambda>jb'. highestExt jb \<le> highestExt jb' \<and> highestExt jb' \<le> max (jb_arrival jb pkt) (highestExt jb)
    \<and> started jb'"
  have "?g (jb_insert jb pkt)"
  proof (rule jb_insert_elim [of jb pkt], goal_cases)
    case 1
    then show ?case using b inv by (simp add: jb_discard_def)
  next
    case 2
    show ?case unfolding 2(3) b
      by (rule jb_accept_cases [where pkt = pkt, OF inv 2(1,2) [unfolded b]])
        (use inv in \<open>simp_all add: jb_accept_def\<close>)
  qed
  then show "highestExt jb \<le> highestExt (jb_insert jb pkt)"
    "highestExt (jb_insert jb pkt) \<le> max (jb_arrival jb pkt) (highestExt jb)"
    "started (jb_insert jb pkt)" by blast+
qed

lemma jb_pop_started: "jb_inv jb \<Longrightarrow> started (fst (jb_pop jb)) = started jb"
  by (rule jb_pop_cases [of jb]) (auto simp: jb_ready_def)

lemma jb_pop_played: "jb_inv jb \<Longrightarrow> jb_pop jb = (jb1, Some p, l) \<Longrightarrow> playoutExt jb \<le> highestExt jb"
  by (rule jb_pop_cases [of jb]) (auto simp: jb_inv_def)

definition window_op :: "int \<Rightarrow> jb_op \<Rightarrow> bool" where
  "window_op e0 e = (case e of JInsert p \<Rightarrow> uint (sequence p - word_of_int e0) < 32768 | JPop \<Rightarrow> True)"

definition in_window :: "int \<Rightarrow> jitter_buffer \<Rightarrow> bool" where
  "in_window e0 jb \<longleftrightarrow> jb_inv jb \<and> started jb \<and> e0 \<le> playoutExt jb \<and> e0 \<le> highestExt jb
     \<and> highestExt jb < e0 + 32768"

lemma in_window_arrival:
  assumes "in_window e0 jb" "window_op e0 (JInsert p)"
  shows "jb_arrival jb p = e0 + uint (sequence p - word_of_int e0)"
proof -
  let ?d = "uint (sequence p - word_of_int e0)"
  have d: "0 \<le> ?d" "?d < 32768" using assms(2) by (simp_all add: window_op_def)
  then have "\<bar>(e0 + ?d) - highestExt jb\<bar> < 32768" using assms(1) d unfolding in_window_def abs_less_iff by linarith
  then have "jb_extend (word_of_int (e0 + ?d)) (highestExt jb) = e0 + ?d" by (rule jb.ext_exact)
  then show ?thesis using assms(1) by (simp add: jb_arrival_def in_window_def)
qed

lemma in_window_insert:
  assumes "in_window e0 jb" "window_op e0 (JInsert p)"
  shows "in_window e0 (jb_insert jb p)"
  using assms jb_insert_highest_mono [of jb p] jb_insert_inv [of jb p] in_window_arrival [OF assms]
  by (auto simp: in_window_def window_op_def)

lemma in_window_pop: "in_window e0 jb \<Longrightarrow> in_window e0 (fst (jb_pop jb))"
  using jb_pop_inv [of jb] jb_pop_highest [of jb] jb_pop_started [of jb] by (auto simp: in_window_def)

lemma in_window_output:
  assumes "in_window e0 jb" "jb_pop jb = (jb1, Some p, l)"
  shows "uint (sequence p - word_of_int e0) = playoutExt jb - e0"
proof -
  have "0 \<le> playoutExt jb - e0" "playoutExt jb - e0 < 65536"
    using assms(1) jb_pop_played [OF _ assms(2)] by (auto simp: in_window_def)
  moreover have "sequence p - word_of_int e0 = word_of_int (playoutExt jb - e0)"
    using jb_pop_output(1) [OF _ assms(2)] assms(1) by (simp add: in_window_def)
  ultimately show ?thesis by (simp only: uint_word_of_int) simp
qed

lemma window_run:
  "in_window e0 jb \<Longrightarrow> list_all (window_op e0) es \<Longrightarrow>
   sorted_wrt (<) (map (\<lambda>p. uint (sequence p - word_of_int e0)) (snd (jb_run jb es)))
   \<and> (\<forall>p \<in> set (snd (jb_run jb es)). playoutExt jb - e0 \<le> uint (sequence p - word_of_int e0))"
proof (induction jb es rule: jb_run_induct)
  case (Insert jb p es)
  have "playoutExt jb \<le> playoutExt (jb_insert jb p)"
    using Insert.prems(1) by (intro jb_insert_inv) (simp add: in_window_def)
  then show ?case using Insert in_window_insert [of e0 jb p] by fastforce
next
  case (Pop jb jb1 out l es)
  note pop = Pop(1)
  have w: "in_window e0 jb1" using in_window_pop [OF Pop.prems(1)] by (simp add: pop)
  have inv: "jb_inv jb" using Pop.prems(1) by (simp add: in_window_def)
  then have mono: "playoutExt jb \<le> playoutExt jb1" using jb_pop_inv(2) by (metis fst_conv pop)
  show ?case
  proof (cases out)
    case None
    then show ?thesis using Pop.IH [OF w] Pop.prems(2) mono by (fastforce simp: pop)
  next
    case (Some p)
    have "uint (sequence p - word_of_int e0) = playoutExt jb - e0"
      using Pop.prems(1) pop Some by (intro in_window_output) simp_all
    moreover have "playoutExt jb1 = playoutExt jb + 1"
      using jb_pop_output(2) [OF inv] pop Some by blast
    ultimately show ?thesis using Pop.IH [OF w] Pop.prems(2) mono Some by (fastforce simp: pop)
  qed
qed simp

lemma in_window_first:
  assumes "1 \<le> capacity c"
  shows "in_window (uint (sequence p)) (jb_insert (jb_new c) p)"
proof -
  let ?e = "uint (sequence p)"
  have beg: "jb_begin (jb_new c) p = (jb_new c)\<lparr>started := True, highestExt := ?e, playoutExt := ?e\<rparr>"
    "jb_arrival (jb_new c) p = ?e"
    by (simp_all only: jb_begin_def jb_arrival_def) (simp_all add: jb_new_def)
  have ins: "jb_insert (jb_new c) p
      = jb_accept ((jb_new c)\<lparr>started := True, highestExt := ?e, playoutExt := ?e\<rparr>) ?e p"
    unfolding jb_insert_cases beg Let_def using assms by (simp add: jb_new_def jb_accept_def)
  show ?thesis
    using jb_insert_inv(1) [OF jb_new_inv, of c p] unfolding ins
    by (simp add: in_window_def jb_accept_def jb_new_def)
qed

section \<open>Properties\<close>

text \<open>C34. Every interleaving of insertions and pops keeps the class invariant: the buffered keys are
strictly sorted, lie between the playout cursor and the highest number seen, agree with the packets'
own sequence numbers modulo \<open>2^16\<close>, and there are never more than \<open>capacity\<close> of them.\<close>

theorem jitter_invariant: "jb_inv (fst (jb_run (jb_new c) es))"
  by (rule jb_run_inv [OF jb_new_inv])

text \<open>C4. Packets never leave the buffer out of order or twice: when all arrivals lie within half of
the number space after the first one, then, whatever the arrival order, losses, duplicates, capacity
and the times of the pops, the packets played are strictly increasing in sequence number.\<close>

theorem jitter_output_ordered:
  assumes "1 \<le> capacity c" and "list_all (window_op (uint (sequence p0))) es"
  shows "sorted_wrt (<) (map (\<lambda>p. uint (sequence p - sequence p0)) (snd (jb_run (jb_new c) (JInsert p0 # es))))"
  using window_run [OF in_window_first [OF assms(1), of p0] assms(2)] by simp

theorem jitter_output_ordered_witness:
  "sorted_wrt (<) (map (\<lambda>p. uint (sequence p - sequence (rtp_packet_init\<lparr>sequence := 65535\<rparr>)))
     (snd (jb_run (jb_new jitter_config_init) (JInsert (rtp_packet_init\<lparr>sequence := 65535\<rparr>)
       # [JInsert (rtp_packet_init\<lparr>sequence := 1\<rparr>), JInsert (rtp_packet_init\<lparr>sequence := 0\<rparr>), JPop, JPop]))))"
  by (rule jitter_output_ordered) (simp_all add: jitter_config_init_def window_op_def)

text \<open>Reordering is undone: when the packets of a consecutive stream arrive in any order after the
first one, and the buffer holds them all, then as many pops return exactly the stream in its order,
and nothing is declared lost.\<close>

theorem jitter_reorder_restored:
  assumes "stream_of ps" "length ps \<le> capacity c" "targetDepth c \<le> length ps"
    and "distinct is" "set is = {1..<length ps}"
  shows "snd (jb_run (jb_new c) (JInsert (ps ! 0) # map (\<lambda>i. JInsert (ps ! i)) is
      @ replicate (length ps) JPop)) = ps
    \<and> st_lost (stats (fst (jb_run (jb_new c) (JInsert (ps ! 0) # map (\<lambda>i. JInsert (ps ! i)) is
      @ replicate (length ps) JPop)))) = 0"
  using jb_reorder_restored [OF assms] by (rule conjI)

theorem jitter_reorder_restored_witness:
  "let ps = [rtp_packet_init\<lparr>sequence := 65535\<rparr>, rtp_packet_init\<lparr>sequence := 0\<rparr>, rtp_packet_init\<lparr>sequence := 1\<rparr>]
   in snd (jb_run (jb_new jitter_config_init) (JInsert (ps ! 0) # map (\<lambda>i. JInsert (ps ! i)) [2, 1]
        @ replicate (length ps) JPop)) = ps
    \<and> st_lost (stats (fst (jb_run (jb_new jitter_config_init) (JInsert (ps ! 0)
        # map (\<lambda>i. JInsert (ps ! i)) [2, 1] @ replicate (length ps) JPop)))) = 0"
  unfolding Let_def
  by (rule jitter_reorder_restored)
    (auto simp: stream_of_def jitter_config_init_def rtp_packet_init_def nth_Cons split: nat.splits)

text \<open>A gap is declared lost slot by slot: with the buffer ready and its oldest packet \<open>n\<close> slots
ahead of the cursor, \<open>n + 1\<close> pops return exactly that packet and add exactly \<open>n\<close> to \<open>lost\<close>.\<close>

theorem jitter_gap_lost:
  assumes "jb_inv jb" "jb_ready jb" "buf jb = (playoutExt jb + int n, p) # rest"
  shows "snd (jb_run jb (replicate (Suc n) JPop)) = [p]
    \<and> st_lost (stats (fst (jb_run jb (replicate (Suc n) JPop)))) = st_lost (stats jb) + of_nat n"
  by (rule jb_gap [OF assms(1,2,3) refl])

theorem jitter_gap_lost_witness:
  "let jb = (jb_new jitter_config_init)\<lparr>started := True, primed := True, highestExt := 9, playoutExt := 7,
       buf := [(9, rtp_packet_init\<lparr>sequence := 9\<rparr>)]\<rparr>
   in snd (jb_run jb (replicate (Suc 2) JPop)) = [rtp_packet_init\<lparr>sequence := 9\<rparr>]
    \<and> st_lost (stats (fst (jb_run jb (replicate (Suc 2) JPop)))) = st_lost (stats jb) + of_nat 2"
  unfolding Let_def
  by (rule jitter_gap_lost)
    (simp_all add: jb_inv_def jb_ready_def jb_new_def jitter_config_init_def omap_ok_def)

text \<open>No packet is unaccounted for: every arrival is either received or late-discarded, and every
received packet has been played, dropped by overflow, or is still buffered.\<close>

theorem jitter_conservation:
  "let (jb, outs) = jb_run (jb_new c) es in
     st_received (stats jb) + st_lateDiscarded (stats jb) = of_nat (length (filter is_insert es))
   \<and> st_received (stats jb)
       = of_nat (length outs) + st_overflowDropped (stats jb) + of_nat (st_currentDepth (jb_stats jb))"
proof -
  have "st_received (stats (fst (jb_run (jb_new c) es))) - st_overflowDropped (stats (fst (jb_run (jb_new c) es)))
      - of_nat (length (buf (fst (jb_run (jb_new c) es)))) = of_nat (length (snd (jb_run (jb_new c) es)))"
    using jb_run_account [OF jb_new_inv, of c es] by (simp add: jb_new_def jitter_stats_init_def)
  moreover have "st_received (stats (fst (jb_run (jb_new c) es))) + st_lateDiscarded (stats (fst (jb_run (jb_new c) es)))
      = of_nat (length (filter is_insert es))"
    using jb_run_arrivals [OF jb_new_inv, of c es] by (simp add: jb_new_def jitter_stats_init_def)
  ultimately show ?thesis by (simp add: split_beta jb_stats_def algebra_simps)
qed

text \<open>C39. The \<open>int64_t\<close> sequence arithmetic cannot overflow before \<open>2^47\<close> packets have arrived: the
highest extended number, above which the cursor never goes by more than one, stays below \<open>2^63\<close>.\<close>

theorem jb_int64_bound:
  assumes "length (filter is_insert es) < 2 ^ 47"
  shows "0 \<le> playoutExt (fst (jb_run (jb_new c) es))
    \<and> playoutExt (fst (jb_run (jb_new c) es)) \<le> highestExt (fst (jb_run (jb_new c) es)) + 1
    \<and> highestExt (fst (jb_run (jb_new c) es)) + 1 < 2 ^ 63"
proof -
  let ?jb = "fst (jb_run (jb_new c) es)"
  have "highestExt ?jb \<le> 65535 + 32768 * int (0 + length (filter is_insert es))"
    by (rule jb_run_highest [OF jb_new_inv]) (simp add: jb_new_def)
  moreover have "jb_inv ?jb" by (rule jb_run_inv [OF jb_new_inv])
  ultimately show ?thesis using assms by (simp add: jb_inv_def)
qed

theorem jb_int64_bound_witness:
  "0 \<le> playoutExt (fst (jb_run (jb_new jitter_config_init) [JInsert rtp_packet_init, JPop]))
    \<and> playoutExt (fst (jb_run (jb_new jitter_config_init) [JInsert rtp_packet_init, JPop]))
      \<le> highestExt (fst (jb_run (jb_new jitter_config_init) [JInsert rtp_packet_init, JPop])) + 1
    \<and> highestExt (fst (jb_run (jb_new jitter_config_init) [JInsert rtp_packet_init, JPop])) + 1 < 2 ^ 63"
  by (rule jb_int64_bound) (simp add: is_insert_def)

text \<open>A configuration whose capacity is below the target depth is dead: the buffer drops its
oldest packet on every further arrival and never plays anything.\<close>

theorem jitter_starved:
  assumes "capacity c < targetDepth c"
  shows "snd (jb_run (jb_new c) es) = []"
  by (rule jb_starved_run) (simp add: never_primes_def jb_new_inv assms, simp add: jb_new_def assms)

theorem jitter_starved_witness:
  "snd (jb_run (jb_new \<lparr>targetDepth = 3, capacity = 2\<rparr>)
     [JInsert rtp_packet_init, JInsert (rtp_packet_init\<lparr>sequence := 1\<rparr>), JPop]) = []"
  by (rule jitter_starved) simp

end
