(* ===== verification/Jitter_Stream.thy ===== *)
theory Jitter_Stream
  imports Jitter_Buffer "HOL-Library.Sublist"
begin

text \<open>
  The jitter buffer in continuous operation: a stream of any length, of which the buffer holds only a few
  packets at a time while packets go on arriving, some of them out of turn, and the playout thread goes on
  popping. (The theory Jitter_Buffer shows what happens when a whole stream is buffered before the first pop.)

  The specification is a clock that only counts: whether playout has begun, how many packets have arrived
  and how many have been played. \<open>paced\<close> says of a schedule of insertions and pops, by this clock alone, that
  no pop comes when the next packet may still be under way, and no insertion when the buffer is full. For
  such schedules the buffer of the code refines the clock: it plays the stream in its order, exactly as far
  as the clock counts, and neither loses nor discards anything.
\<close>

section \<open>Arrival orders\<close>

text \<open>The order of arrival of the packets \<open>0, \<dots>, n - 1\<close>: each arrives once, at most \<open>d\<close> places off its own.\<close>

definition displaced :: "nat \<Rightarrow> nat list \<Rightarrow> bool" where
  "displaced d is \<longleftrightarrow> distinct is \<and> set is = {..<length is}
     \<and> (\<forall>t < length is. is ! t \<le> t + d \<and> t \<le> is ! t + d)"

lemma displaced_prefix:
  assumes "displaced d is" "k \<le> length is" "i < length is" "i + d < k \<or> k = length is"
  shows "i \<in> set (take k is)"
proof -
  obtain t where t: "t < length is" "is ! t = i" using assms(1,3) by (metis displaced_def in_set_conv_nth lessThan_iff)
  then have "t \<le> i + d" using assms(1) by (auto simp: displaced_def)
  then have "t < k" using assms(4) t(1) by auto
  then show ?thesis using t by (auto simp: in_set_conv_nth intro!: exI [of _ t])
qed

lemma displaced_next:
  assumes "displaced d is" "k < length is"
  shows "is ! k < length is" "is ! k \<notin> set (take k is)" "is ! k \<le> k + d" "k \<le> is ! k + d"
proof -
  show "is ! k < length is" using assms by (metis displaced_def lessThan_iff nth_mem)
  have "distinct (take (Suc k) is)" using assms(1) by (simp add: displaced_def)
  then show "is ! k \<notin> set (take k is)" using assms(2) by (simp add: take_Suc_conv_app_nth)
qed (use assms in \<open>auto simp: displaced_def\<close>)

lemma displaced_compose:
  assumes "displaced d is" "displaced e js" "length js = length is"
  shows "displaced (d + e) (map ((!) is) js)"
proof -
  have js: "t < length js \<Longrightarrow> js ! t < length is" for t using assms(2,3) by (metis displaced_def lessThan_iff nth_mem)
  have inj: "inj_on ((!) is) (set js)"
    using assms by (auto simp: displaced_def inj_on_def nth_eq_iff_index_eq)
  have "set (map ((!) is) js) = (!) is ` {..<length is}" using assms(2,3) by (simp add: displaced_def)
  also have "\<dots> = set is" by (auto simp: in_set_conv_nth)
  finally have "set (map ((!) is) js) = {..<length is}" using assms(1) by (simp add: displaced_def)
  moreover have "is ! (js ! t) \<le> t + (d + e) \<and> t \<le> is ! (js ! t) + (d + e)" if "t < length js" for t
  proof -
    have "is ! (js ! t) \<le> js ! t + d" "js ! t \<le> is ! (js ! t) + d" using assms(1) js [OF that] by (simp_all add: displaced_def)
    moreover have "js ! t \<le> t + e" "t \<le> js ! t + e" using assms(2) that by (simp_all add: displaced_def)
    ultimately show ?thesis by linarith
  qed
  ultimately show ?thesis using assms inj by (simp add: displaced_def distinct_map)
qed

lemma count_below: "distinct (is :: nat list) \<Longrightarrow> \<forall>i \<in> set is. i < h \<Longrightarrow> length is \<le> h"
  using card_mono [of "{..<h}" "set is"] by (auto simp: distinct_card)

section \<open>The clock\<close>

text \<open>Playout has begun; packets arrived; packets played.\<close>

type_synonym playout_clock = "bool \<times> nat \<times> nat"

fun clock_step :: "jitter_config \<Rightarrow> playout_clock \<Rightarrow> jb_op \<Rightarrow> playout_clock" where
  "clock_step c (pr, k, j) (JInsert p) = (pr, k + 1, j)"
| "clock_step c (pr, k, j) JPop =
    (if k = 0 \<or> \<not> pr \<and> k < targetDepth c then (pr, k, j)
     else if k = j then (True, k, j)
     else (True, k, j + 1))"

text \<open>An insertion finds room; a pop that takes a packet comes when more than \<open>d\<close> are there, or all have arrived.\<close>

fun clock_ok :: "jitter_config \<Rightarrow> nat \<Rightarrow> nat \<Rightarrow> playout_clock \<Rightarrow> jb_op \<Rightarrow> bool" where
  "clock_ok c d n (pr, k, j) (JInsert p) = (k < n \<and> k - j < capacity c)"
| "clock_ok c d n (pr, k, j) JPop = (k = 0 \<or> \<not> pr \<and> k < targetDepth c \<or> k = j \<or> j + d < k \<or> k = n)"

fun paced :: "jitter_config \<Rightarrow> nat \<Rightarrow> nat \<Rightarrow> playout_clock \<Rightarrow> jb_op list \<Rightarrow> bool" where
  "paced c d n s [] = True"
| "paced c d n s (e # es) = (clock_ok c d n s e \<and> paced c d n (clock_step c s e) es)"

definition clock_start :: playout_clock where
  "clock_start = (False, 0, 0)"

definition clock_played :: "jitter_config \<Rightarrow> playout_clock \<Rightarrow> jb_op list \<Rightarrow> nat" where
  "clock_played c s es = snd (snd (foldl (clock_step c) s es))"

section \<open>The refinement\<close>

text \<open>The buffer holds what has arrived and has not been played; \<open>e\<close> is the extended number of the first packet.\<close>

definition streaming :: "jitter_config \<Rightarrow> rtp_packet list \<Rightarrow> nat list \<Rightarrow> nat \<Rightarrow> playout_clock \<Rightarrow> jitter_buffer \<Rightarrow> bool" where
  "streaming c ps is d s jb \<longleftrightarrow> (case s of (pr, k, j) \<Rightarrow>
     let e = uint (sequence (ps ! 0)); A = set (take k is) in
     k \<le> length is \<and> j \<le> k \<and> {..<j} \<subseteq> A \<and> jb_inv jb \<and> cfg jb = c \<and> primed jb = pr \<and> (\<not> pr \<longrightarrow> j = 0)
     \<and> (if k = 0 then jb = jb_new c
        else started jb \<and> playoutExt jb = e + int j \<and> (\<forall>i \<in> A. e + int i \<le> highestExt jb) \<and> highestExt jb < e + int (k + d)
          \<and> set (buf jb) = (\<lambda>i. (e + int i, ps ! i)) ` (A - {..<j}) \<and> length (buf jb) = k - j
          \<and> st_lost (stats jb) = 0 \<and> st_lateDiscarded (stats jb) = 0 \<and> st_overflowDropped (stats jb) = 0))"

text \<open>A stream of any length: consecutive sequence numbers, modulo \<open>2^16\<close>.\<close>

definition numbered :: "rtp_packet list \<Rightarrow> bool" where
  "numbered ps \<longleftrightarrow> (\<forall>i < length ps. sequence (ps ! i) = sequence (ps ! 0) + of_nat i)"

lemma streaming_start: "streaming c ps is d clock_start (jb_new c)"
  by (simp add: streaming_def clock_start_def jb_new_inv) (simp add: jb_new_def)

lemma streaming_first:
  assumes "is \<noteq> []" "is ! 0 = 0" "1 \<le> capacity c" "streaming c ps is d (pr, 0, j) jb"
  shows "streaming c ps is d (pr, 1, j) (jb_insert jb (ps ! 0))"
proof -
  let ?p = "ps ! 0" and ?e = "uint (sequence (ps ! 0))"
  have b: "jb = jb_new c" "primed jb = pr" "j = 0" using assms(4) by (auto simp: streaming_def)
  then have j: "jb = jb_new c" "j = 0" "\<not> pr" by (simp_all add: jb_new_def)
  have beg: "jb_begin (jb_new c) ?p = (jb_new c)\<lparr>started := True, highestExt := ?e, playoutExt := ?e\<rparr>"
    "jb_arrival (jb_new c) ?p = ?e"
    by (simp_all only: jb_begin_def jb_arrival_def) (simp_all add: jb_new_def)
  have ins: "jb_insert (jb_new c) ?p
      = jb_accept ((jb_new c)\<lparr>started := True, highestExt := ?e, playoutExt := ?e\<rparr>) ?e ?p"
    unfolding jb_insert_cases beg Let_def using assms(3) by (simp add: jb_new_def jb_accept_def)
  have t: "take (Suc 0) is = [0]" using assms(1,2) by (cases "is") auto
  show ?thesis
    using jb_insert_inv(1) [OF jb_new_inv, of c ?p] assms(1) j unfolding j(1) ins
    by (simp add: streaming_def jb_accept_def jb_new_def jitter_stats_init_def t Suc_le_eq)
qed

lemma streaming_insert:
  assumes "numbered ps" "displaced d is" "length is = length ps" "d < 16384" "is ! 0 = 0"
    and st: "streaming c ps is d (pr, k, j) jb" and ok: "clock_ok c d (length ps) (pr, k, j) (JInsert p)"
  shows "streaming c ps is d (pr, Suc k, j) (jb_insert jb (ps ! (is ! k)))"
proof (cases "k = 0")
  case True
  moreover have "is \<noteq> []" "1 \<le> capacity c" using ok assms(3) by auto
  ultimately show ?thesis using streaming_first [OF _ assms(5), of c ps d pr j jb] st assms(5) by simp
next
  case False
  let ?e = "uint (sequence (ps ! 0))" and ?i = "is ! k" and ?A = "set (take k is)"
  note S = st [unfolded streaming_def prod.case Let_def]
  have k: "k < length is" "k - j < capacity c" using ok assms(3) by simp_all
  note i = displaced_next [OF assms(2) k(1)]
  have seq: "sequence (ps ! ?i) = word_of_int (?e + int ?i)"
  proof -
    have "sequence (ps ! ?i) = sequence (ps ! 0) + of_nat ?i" using assms(1,3) i(1) unfolding numbered_def by simp
    then show ?thesis by simp
  qed
  have low: "int k \<le> highestExt jb - ?e + 1"
  proof -
    have "\<forall>i \<in> ?A. i < nat (highestExt jb - ?e + 1)" using S False by force
    then have "length (take k is) \<le> nat (highestExt jb - ?e + 1)"
      using assms(2) by (intro count_below) (simp_all add: displaced_def)
    then show ?thesis using k(1) False by simp
  qed
  have arr: "jb_arrival jb (ps ! ?i) = ?e + int ?i"
  proof -
    have "\<bar>?e + int ?i - highestExt jb\<bar> < 32768" using low S i(3,4) assms(4) False by (auto simp: abs_less_iff)
    then have "jb_extend (word_of_int (?e + int ?i)) (highestExt jb) = ?e + int ?i" by (rule jb.ext_exact)
    moreover have "started jb" using S False by simp
    ultimately show ?thesis by (simp only: jb_arrival_def seq if_True)
  qed
  have beg: "jb_begin jb (ps ! ?i) = jb" using S False by (simp add: jb_begin_def)
  have nj: "j \<le> ?i" using S i(2) by (meson lessThan_iff not_le subsetD)
  have new: "?e + int ?i \<notin> omap_keys (buf jb)" using S i(2) False by auto
  have ins: "jb_insert jb (ps ! ?i) = jb_accept jb (?e + int ?i) (ps ! ?i)"
    using S new k False nj unfolding jb_insert_cases beg arr Let_def
    by (auto simp: jb_accept_def length_omap_emplace)
  have A: "set (take (Suc k) is) = insert ?i ?A" using k(1) by (simp add: take_Suc_conv_app_nth)
  have "insert ?i ?A - {..<j} = insert ?i (?A - {..<j})" using nj by auto
  moreover have "jb_inv (jb_insert jb (ps ! ?i))" using S by (simp add: inv_intro)
  ultimately show ?thesis using S False k i(3) new unfolding ins
    by (auto simp: streaming_def Let_def A jb_accept_def length_omap_emplace set_omap_emplace Suc_diff_le le_max_iff_disj)
qed

lemma streaming_pop:
  assumes "displaced d is" "length is = length ps"
    and st: "streaming c ps is d (pr, k, j) jb" and ok: "clock_ok c d (length ps) (pr, k, j) JPop"
  shows "streaming c ps is d (clock_step c (pr, k, j) JPop) (fst (jb_pop jb))
    \<and> fst (snd (jb_pop jb)) = (if snd (snd (clock_step c (pr, k, j) JPop)) = j then None else Some (ps ! j))"
proof (cases "k = 0")
  case True
  then have "jb_pop jb = (jb, None, False)" using st by (simp add: streaming_def jb_pop_def jb_new_def)
  then show ?thesis using True st by simp
next
  case False
  let ?e = "uint (sequence (ps ! 0))" and ?A = "set (take k is)"
  note S = st [unfolded streaming_def prod.case Let_def]
  have inv: "jb_inv jb" using S by simp
  have ready: "jb_ready jb \<longleftrightarrow> \<not> (\<not> pr \<and> k < targetDepth c)" using S False by (auto simp: jb_ready_def)
  consider (wait) "\<not> pr" "k < targetDepth c" | (empty) "\<not> (\<not> pr \<and> k < targetDepth c)" "k = j"
    | (play) "\<not> (\<not> pr \<and> k < targetDepth c)" "j < k" using S by linarith
  then show ?thesis
  proof cases
    case wait
    then have "jb_pop jb = (jb, None, False)" using ready by (rule_tac jb_pop_cases [OF inv]) auto
    then show ?thesis using wait st by simp
  next
    case empty
    then have "jb_pop jb = (jb\<lparr>primed := True\<rparr>, None, False)" using ready S False by (rule_tac jb_pop_cases [OF inv]) auto
    moreover have "jb_inv (jb\<lparr>primed := True\<rparr>)" using S False by (auto simp: jb_inv_def)
    ultimately show ?thesis using empty S False by (auto simp: streaming_def)
  next
    case play
    have jA: "j \<in> ?A" using play ok S by (intro displaced_prefix [OF assms(1)]) (auto simp: assms(2))
    then have mem: "(?e + int j, ps ! j) \<in> set (buf jb)" using S False by simp
    have om: "omap_ok (buf jb)" using inv by (simp add: jb_inv_def)
    obtain rest where b: "buf jb = (playoutExt jb, ps ! j) # rest"
      "jb_pop jb = (jb\<lparr>primed := True, buf := rest, playoutExt := playoutExt jb + 1\<rparr>, Some (ps ! j), False)"
    proof (rule jb_pop_cases [OF inv], goal_cases)
      case (3 p rest)
      have "p = ps ! j" using mem om S False unfolding 3(3) by auto
      then show ?thesis using 3 by blast
    next
      case (4 k p rest)
      then show ?thesis using mem om S False by auto
    qed (use ready play mem in auto)
    have at: "playoutExt jb = ?e + int j" using S False by simp
    have "?e + int j \<notin> omap_keys rest" using om unfolding b(1) at by auto
    then have "(?e + int j, ps ! j) \<notin> set rest" by force
    then have "set rest = set (buf jb) - {(?e + int j, ps ! j)}" unfolding b(1) at by simp
    also have "\<dots> = (\<lambda>i. (?e + int i, ps ! i)) ` (?A - {..<Suc j})" using S False by (auto simp: less_Suc_eq)
    finally have rest: "set rest = (\<lambda>i. (?e + int i, ps ! i)) ` (?A - {..<Suc j})" .
    have "jb_inv (fst (jb_pop jb))" using inv by (simp add: inv_intro)
    then show ?thesis using S False play rest b jA unfolding b(2)
      by (auto simp: streaming_def lessThan_Suc)
  qed
qed

text \<open>Along a schedule: the buffer follows the clock, and what it plays are the packets the clock passes.\<close>

lemma clock_mono: "snd (snd s) \<le> snd (snd (clock_step c s e))"
  by (cases s; cases e) auto

lemma clock_played_mono: "snd (snd s) \<le> clock_played c s es"
proof (induction es arbitrary: s)
  case (Cons e es)
  from le_trans [OF clock_mono Cons.IH] show ?case by (simp add: clock_played_def)
qed (simp add: clock_played_def)

lemma is_insert_simps [simp]: "is_insert (JInsert p)" "\<not> is_insert JPop"
  by (simp_all add: is_insert_def)

lemma streaming_run:
  assumes "numbered ps" "displaced d is" "length is = length ps" "d < 16384" "is ! 0 = 0"
  shows "streaming c ps is d s jb \<Longrightarrow> paced c d (length ps) s es \<Longrightarrow>
      prefix (filter is_insert es) (map (\<lambda>i. JInsert (ps ! i)) (drop (fst (snd s)) is)) \<Longrightarrow>
    streaming c ps is d (foldl (clock_step c) s es) (fst (jb_run jb es))
    \<and> snd (jb_run jb es) = map ((!) ps) [snd (snd s)..<clock_played c s es]"
proof (induction es arbitrary: s jb)
  case (Cons e es)
  obtain pr k j where s: "s = (pr, k, j)" by (cases s)
  let ?s = "clock_step c s e"
  have cp: "clock_played c s (e # es) = clock_played c ?s es" by (simp add: clock_played_def)
  show ?case
  proof (cases e)
    case (JInsert p)
    have k: "k < length is" using Cons.prems(2) assms(3) by (simp add: s JInsert)
    then have d: "drop k is = is ! k # drop (Suc k) is" by (simp add: Cons_nth_drop_Suc)
    then have p: "p = ps ! (is ! k)" "prefix (filter is_insert es) (map (\<lambda>i. JInsert (ps ! i)) (drop (Suc k) is))"
      using Cons.prems(3) by (simp_all add: s JInsert)
    have "streaming c ps is d ?s (jb_insert jb p)"
      using streaming_insert [OF assms, of c pr k j jb p] Cons.prems(1,2) by (simp add: s JInsert p(1))
    then show ?thesis using Cons.IH [of ?s "jb_insert jb p"] Cons.prems(2) p(2) cp by (simp add: s JInsert)
  next
    case JPop
    note r = streaming_pop [OF assms(2,3), of c pr k j jb]
    have st: "streaming c ps is d ?s (fst (jb_pop jb))"
      and out: "fst (snd (jb_pop jb)) = (if snd (snd ?s) = j then None else Some (ps ! j))"
      using r Cons.prems(1,2) by (simp_all add: s JPop)
    have ks: "fst (snd ?s) = k" "snd (snd ?s) = j \<or> snd (snd ?s) = Suc j" by (simp_all add: s JPop)
    have pre: "prefix (filter is_insert es) (map (\<lambda>i. JInsert (ps ! i)) (drop (fst (snd ?s)) is))"
      using Cons.prems(3) by (simp only: ks) (simp add: s JPop)
    have "paced c d (length ps) ?s es" using Cons.prems(2) by simp
    from Cons.IH [OF st this pre]
    have IH: "streaming c ps is d (foldl (clock_step c) ?s es) (fst (jb_run (fst (jb_pop jb)) es))"
      "snd (jb_run (fst (jb_pop jb)) es) = map ((!) ps) [snd (snd ?s)..<clock_played c ?s es]" by blast+
    have "snd (snd ?s) \<le> clock_played c ?s es" by (rule clock_played_mono)
    then show ?thesis using IH out ks(2) cp by (auto simp: JPop s upt_conv_Cons)
  qed
qed (simp add: clock_played_def)

section \<open>A schedule in step\<close>

text \<open>Playout starts when \<open>q\<close> packets are there and goes in step with the arrivals, then plays the rest.\<close>

definition in_step :: "nat \<Rightarrow> rtp_packet list \<Rightarrow> jb_op list" where
  "in_step q xs = map JInsert (take q xs) @ concat (map (\<lambda>p. [JPop, JInsert p]) (drop q xs)) @ replicate q JPop"

lemma paced_append: "paced c d n s (es @ fs) \<longleftrightarrow> paced c d n s es \<and> paced c d n (foldl (clock_step c) s es) fs"
  by (induction es arbitrary: s) auto

lemma paced_inserts:
  "k - j + length xs \<le> capacity c \<Longrightarrow> j \<le> k \<Longrightarrow> k + length xs \<le> n \<Longrightarrow>
    paced c d n (pr, k, j) (map JInsert xs) \<and> foldl (clock_step c) (pr, k, j) (map JInsert xs) = (pr, k + length xs, j)"
  by (induction xs arbitrary: k) auto

lemma paced_alternate:
  assumes "d < q" "targetDepth c \<le> q" "q \<le> capacity c"
  shows "j + q + length xs \<le> n \<Longrightarrow>
    paced c d n (pr, j + q, j) (concat (map (\<lambda>p. [JPop, JInsert p]) xs))
    \<and> (\<exists>pr'. foldl (clock_step c) (pr, j + q, j) (concat (map (\<lambda>p. [JPop, JInsert p]) xs)) = (pr', j + length xs + q, j + length xs))"
proof (induction xs arbitrary: j pr)
  case (Cons x xs)
  have "clock_step c (pr, j + q, j) JPop = (True, j + q, Suc j)" using assms by auto
  moreover have "clock_ok c d n (pr, j + q, j) JPop" "clock_ok c d n (True, j + q, Suc j) (JInsert x)"
    using assms Cons.prems by auto
  ultimately show ?case using Cons.IH [of "Suc j" True] Cons.prems by (simp add: add.commute add.left_commute)
qed simp

lemma paced_drain:
  assumes "targetDepth c \<le> n"
  shows "j + m = n \<Longrightarrow> paced c d n (pr, n, j) (replicate m JPop)
    \<and> snd (snd (foldl (clock_step c) (pr, n, j) (replicate m JPop))) = n"
proof (induction m arbitrary: j pr)
  case (Suc m)
  then have "clock_step c (pr, n, j) JPop = (True, n, Suc j)" using assms by auto
  then show ?case using Suc.IH [of "Suc j" True] Suc.prems by simp
qed simp

lemma in_step_paced:
  assumes "d < q" "targetDepth c \<le> q" "q \<le> capacity c" "q \<le> length xs"
  shows "paced c d (length xs) clock_start (in_step q xs)" "clock_played c clock_start (in_step q xs) = length xs"
    "filter is_insert (in_step q xs) = map JInsert xs"
proof -
  let ?n = "length xs"
  have a: "paced c d ?n (False, 0, 0) (map JInsert (take q xs))"
    "foldl (clock_step c) (False, 0, 0) (map JInsert (take q xs)) = (False, q, 0)"
    using paced_inserts [of 0 0 "take q xs" c ?n d False] assms by simp_all
  obtain pr where b: "paced c d ?n (False, q, 0) (concat (map (\<lambda>p. [JPop, JInsert p]) (drop q xs)))"
    "foldl (clock_step c) (False, q, 0) (concat (map (\<lambda>p. [JPop, JInsert p]) (drop q xs))) = (pr, ?n, ?n - q)"
    using paced_alternate [OF assms(1-3), of 0 "drop q xs" ?n False] assms(4) by auto
  have "paced c d ?n (pr, ?n, ?n - q) (replicate q JPop)"
    "snd (snd (foldl (clock_step c) (pr, ?n, ?n - q) (replicate q JPop))) = ?n"
    using paced_drain [of c ?n "?n - q" q d pr] assms by simp_all
  then show "paced c d (length xs) clock_start (in_step q xs)" "clock_played c clock_start (in_step q xs) = length xs"
    using a b by (simp_all add: in_step_def clock_start_def clock_played_def paced_append)
  have "filter is_insert (concat (map (\<lambda>p. [JPop, JInsert p]) ys)) = map JInsert ys" for ys
    by (induction ys) simp_all
  moreover have "filter is_insert (map JInsert ys) = map JInsert ys" for ys by (induction ys) simp_all
  ultimately show "filter is_insert (in_step q xs) = map JInsert xs"
    by (simp add: in_step_def map_append [symmetric] del: map_append)
qed

section \<open>What is played\<close>

lemma clock_arrived: "fst (snd (foldl (clock_step c) s es)) = fst (snd s) + length (filter is_insert es)"
proof (induction es arbitrary: s)
  case (Cons e es)
  then show ?case by (cases s; cases e) auto
qed simp

lemma streaming_facts:
  assumes "streaming c ps is d (pr, k, j) jb"
  shows "jb_size jb = k - j" "j \<le> length is" "st_lost (stats jb) = 0" "st_lateDiscarded (stats jb) = 0" "st_overflowDropped (stats jb) = 0"
  using assms by (auto simp: streaming_def Let_def jb_size_def jb_new_def jitter_stats_init_def split: if_splits)

lemma stream_played:
  assumes "numbered ps" "displaced d is" "length is = length ps" "d < 16384" "is ! 0 = 0"
    and "prefix (filter is_insert es) (map (\<lambda>i. JInsert (ps ! i)) is)" "paced c d (length ps) clock_start es"
  shows "snd (jb_run (jb_new c) es) = map ((!) ps) [0..<clock_played c clock_start es]"
    "clock_played c clock_start es \<le> length ps"
    "\<exists>pr. streaming c ps is d (pr, length (filter is_insert es), clock_played c clock_start es) (fst (jb_run (jb_new c) es))"
proof -
  obtain pr k j where s: "foldl (clock_step c) clock_start es = (pr, k, j)" by (metis surj_pair)
  have j: "clock_played c clock_start es = j" by (simp add: clock_played_def s)
  have k: "k = length (filter is_insert es)" using clock_arrived [of c clock_start es] unfolding s by (simp add: clock_start_def)
  note r = streaming_run [OF assms(1-5) streaming_start assms(7), unfolded s j]
  then have st: "streaming c ps is d (pr, k, j) (fst (jb_run (jb_new c) es))"
    and "snd (jb_run (jb_new c) es) = map ((!) ps) [0..<j]"
    using assms(6) by (simp_all add: clock_start_def)
  then show "snd (jb_run (jb_new c) es) = map ((!) ps) [0..<clock_played c clock_start es]"
    "clock_played c clock_start es \<le> length ps"
    "\<exists>pr. streaming c ps is d (pr, length (filter is_insert es), clock_played c clock_start es) (fst (jb_run (jb_new c) es))"
    using streaming_facts(2) [OF st] assms(3) k j by auto
qed

section \<open>Properties\<close>

text \<open>C11. Continuous operation: however long the stream (the 16-bit numbers may wrap any number of times), when
its packets arrive each at most \<open>d < 2^14\<close> places off their order, the first one first, then under any
schedule that is paced (no pop while only \<open>d\<close> or fewer packets are buffered and more are to come, no
insertion into a full buffer), at every moment the packets played are exactly the first ones of the stream, in
order, as many as the clock counts, the others that have arrived are buffered, and none was declared lost,
discarded as late or dropped.\<close>

theorem jitter_stream_restored:
  assumes "numbered ps" "displaced d is" "length is = length ps" "d < 16384" "is ! 0 = 0"
    and "prefix (filter is_insert es) (map (\<lambda>i. JInsert (ps ! i)) is)" "paced c d (length ps) clock_start es"
  shows "snd (jb_run (jb_new c) es) = take (clock_played c clock_start es) ps
    \<and> jb_size (fst (jb_run (jb_new c) es)) = length (filter is_insert es) - clock_played c clock_start es
    \<and> (let st = stats (fst (jb_run (jb_new c) es)) in
        st_lost st = 0 \<and> st_lateDiscarded st = 0 \<and> st_overflowDropped st = 0)"
proof -
  note p = stream_played [OF assms]
  obtain pr where "streaming c ps is d (pr, length (filter is_insert es), clock_played c clock_start es) (fst (jb_run (jb_new c) es))"
    using p(3) by blast
  note f = streaming_facts [OF this]
  have "map ((!) ps) [0..<clock_played c clock_start es] = take (clock_played c clock_start es) ps"
    using p(2) by (intro nth_equalityI) simp_all
  then show ?thesis using f p(1) by (simp add: Let_def)
qed

text \<open>The first packet must come first: the buffer takes the first arrival for the start of the stream, so a packet
that its successor overtakes there is discarded as late, although playout has not begun.\<close>

theorem jitter_first_overtaken:
  assumes "sequence q = sequence p + 1" "1 \<le> capacity c"
  shows "let jb = jb_insert (jb_insert (jb_new c) q) p in
    st_lateDiscarded (stats jb) = 1 \<and> map snd (buf jb) = [q] \<and> \<not> primed jb"
proof -
  let ?e = "uint (sequence q)" and ?jb = "jb_insert (jb_new c) q"
  have beg: "jb_begin (jb_new c) q = (jb_new c)\<lparr>started := True, highestExt := ?e, playoutExt := ?e\<rparr>"
    "jb_arrival (jb_new c) q = ?e"
    by (simp_all only: jb_begin_def jb_arrival_def) (simp_all add: jb_new_def)
  have jb: "?jb = jb_accept ((jb_new c)\<lparr>started := True, highestExt := ?e, playoutExt := ?e\<rparr>) ?e q"
    unfolding jb_insert_cases beg Let_def using assms(2) by (simp add: jb_new_def jb_accept_def)
  have s: "started ?jb" "highestExt ?jb = ?e" "playoutExt ?jb = ?e" "buf ?jb = [(?e, q)]" "\<not> primed ?jb"
    "st_lateDiscarded (stats ?jb) = 0"
    unfolding jb by (simp_all add: jb_accept_def jb_new_def jitter_stats_init_def)
  have "sequence p = sequence q - 1" using assms(1) by simp
  then have p: "sequence p = word_of_int (?e - 1)" by simp
  have "jb_arrival ?jb p = jb_extend (word_of_int (?e - 1)) ?e" unfolding p [symmetric] by (simp add: jb_arrival_def s)
  also have "\<dots> = ?e - 1" by (rule jb.ext_exact) simp
  finally have "jb_arrival ?jb p = ?e - 1" .
  then show ?thesis using s by (simp add: jb_insert_cases [of ?jb] jb_begin_def jb_discard_def Let_def)
qed

theorem jitter_first_overtaken_witness:
  "let jb = jb_insert (jb_insert (jb_new jitter_config_init) rtp_packet_init) (rtp_packet_init\<lparr>sequence := 0xFFFF\<rparr>) in
    st_lateDiscarded (stats jb) = 1 \<and> map snd (buf jb) = [rtp_packet_init] \<and> \<not> primed jb"
  by (rule jitter_first_overtaken) (simp_all add: rtp_packet_init_def jitter_config_init_def)

section \<open>Witnesses\<close>

text \<open>A stream longer than the number space, in which every second packet overtakes the one before it.\<close>

definition demo_place :: "nat \<Rightarrow> nat" where
  "demo_place i = (if i = 0 then 0 else if odd i then i + 1 else i - 1)"

definition demo_stream :: "nat \<Rightarrow> rtp_packet list" where
  "demo_stream n = map (\<lambda>i. rtp_packet_init\<lparr>sequence := 65000 + of_nat i\<rparr>) [0..<n]"

lemma demo_place_facts: "demo_place (demo_place i) = i" "demo_place i \<le> i + 1" "i \<le> demo_place i + 1"
    "i < 2 * m + 1 \<Longrightarrow> demo_place i < 2 * m + 1"
  by (auto simp: demo_place_def elim!: oddE evenE)

lemma demo_order_displaced: "displaced 1 (map demo_place [0..<2 * m + 1])"
proof -
  have inj: "inj_on demo_place A" for A by (rule inj_on_inverseI [of _ demo_place]) (simp add: demo_place_facts)
  have "demo_place ` {..<2 * m + 1} = {..<2 * m + 1}"
    by (rule endo_inj_surj [OF _ _ inj]) (use demo_place_facts(4) in auto)
  then show ?thesis using inj demo_place_facts(2,3)
    by (simp add: displaced_def distinct_map lessThan_atLeast0 del: upt_Suc)
qed

lemma demo_stream_facts: "length (demo_stream n) = n" "numbered (demo_stream n)"
  by (simp_all add: demo_stream_def numbered_def)

lemma demo_in_step:
  assumes "4 \<le> 2 * m + 1"
  shows "let es = in_step 4 (map ((!) (demo_stream (2 * m + 1))) (map demo_place [0..<2 * m + 1])) in
    prefix (filter is_insert es) (map (\<lambda>i. JInsert (demo_stream (2 * m + 1) ! i)) (map demo_place [0..<2 * m + 1]))
    \<and> paced jitter_config_init 1 (length (demo_stream (2 * m + 1))) clock_start es
    \<and> clock_played jitter_config_init clock_start es = length (demo_stream (2 * m + 1))"
proof -
  let ?xs = "map ((!) (demo_stream (2 * m + 1))) (map demo_place [0..<2 * m + 1])"
  have "length ?xs = 2 * m + 1" by simp
  moreover have "1 < (4::nat)" "targetDepth jitter_config_init \<le> 4" "4 \<le> capacity jitter_config_init"
    by (simp_all add: jitter_config_init_def)
  ultimately show ?thesis using in_step_paced [of 1 4 jitter_config_init ?xs] assms
    by (simp add: demo_stream_facts comp_def del: upt_Suc)
qed

theorem jitter_stream_restored_witness:
  "\<exists>es. snd (jb_run (jb_new jitter_config_init) es) = demo_stream (2 * 35000 + 1)
    \<and> st_lost (stats (fst (jb_run (jb_new jitter_config_init) es))) = 0"
proof -
  define m :: nat where "m = 35000"
  let ?es = "in_step 4 (map ((!) (demo_stream (2 * m + 1))) (map demo_place [0..<2 * m + 1]))"
  have "4 \<le> 2 * m + 1" by (simp add: m_def)
  note p = demo_in_step [OF this, unfolded Let_def]
  have first: "map demo_place [0..<2 * m + 1] ! 0 = 0" by (simp add: demo_place_def del: upt_Suc)
  have len: "length (map demo_place [0..<2 * m + 1]) = length (demo_stream (2 * m + 1))" by (simp add: demo_stream_facts)
  note r = jitter_stream_restored [OF demo_stream_facts(2) demo_order_displaced len _ first, of ?es jitter_config_init]
  have "snd (jb_run (jb_new jitter_config_init) ?es) = demo_stream (2 * m + 1)
    \<and> st_lost (stats (fst (jb_run (jb_new jitter_config_init) ?es))) = 0"
    using p r by (simp add: Let_def del: upt_Suc)
  then show ?thesis unfolding m_def by blast
qed

end
