(* ===== verification/Rtp_Stats.thy ===== *)
theory Rtp_Stats
  imports Complex_Main Seq_Unwrap
begin

text \<open>
  Receiver statistics: src/src/stats/RtpStats.cpp and src/include/sipdemo/RtpStats.h. The record has
  the fields of the class. \<open>double\<close> is idealised as \<open>real\<close> (no rounding); the counters are
  \<open>uint64_t\<close>, with the casts of \<open>expected\<close> and \<open>lost\<close> written out; extended numbers are integers.
\<close>

section \<open>Definitions\<close>

record rtp_stats =
  clockRate :: u32
  rs_started :: bool
  baseExt :: int
  maxExt :: int
  rs_received :: u64
  rs_reordered :: u64
  lastTransit :: real
  haveTransit :: bool
  rs_jitter :: real

definition rs_new :: "u32 \<Rightarrow> rtp_stats" where
  "rs_new rate = \<lparr>clockRate = rate, rs_started = False, baseExt = 0, maxExt = 0, rs_received = 0,
     rs_reordered = 0, lastTransit = 0, haveTransit = False, rs_jitter = 0\<rparr>"

definition rs_extend :: "u16 \<Rightarrow> int \<Rightarrow> int" where
  "rs_extend seq reference =
    (let base = reference - (reference smod 65536);
         candidate = base + uint seq;
         candidate = ext_down reference candidate
     in ext_up reference candidate)"

definition rs_update :: "rtp_stats \<Rightarrow> u16 \<Rightarrow> u32 \<Rightarrow> real \<Rightarrow> rtp_stats" where
  "rs_update st seq rtpTimestamp arrivalSec =
    (let st =
       (if \<not> rs_started st then
          (let ext = uint seq in st\<lparr>rs_started := True, baseExt := ext, maxExt := ext\<rparr>)
        else
          (let ext = rs_extend seq (maxExt st);
               st = (if ext < maxExt st then st\<lparr>rs_reordered := rs_reordered st + 1\<rparr> else st)
           in if ext > maxExt st then st\<lparr>maxExt := ext\<rparr> else st));
       st = st\<lparr>rs_received := rs_received st + 1\<rparr>;
       transit = arrivalSec * real (unat (clockRate st)) - real (unat rtpTimestamp);
       st = (if haveTransit st then
               (let d = \<bar>transit - lastTransit st\<bar>
                in st\<lparr>rs_jitter := rs_jitter st + (d - rs_jitter st) / 16\<rparr>)
             else st)
     in st\<lparr>lastTransit := transit, haveTransit := True\<rparr>)"

definition rs_expected :: "rtp_stats \<Rightarrow> u64" where
  "rs_expected st = (if \<not> rs_started st then 0 else word_of_int (maxExt st - baseExt st + 1))"

definition rs_lost :: "rtp_stats \<Rightarrow> int" where
  "rs_lost st = (let l = sint (rs_expected st) - sint (rs_received st) in if l > 0 then l else 0)"

definition rs_lossFraction :: "rtp_stats \<Rightarrow> real" where
  "rs_lossFraction st = (if rs_expected st = 0 then 0
     else real_of_int (rs_lost st) / real_of_int (uint (rs_expected st)))"

definition rs_jitterMs :: "rtp_stats \<Rightarrow> real" where
  "rs_jitterMs st = rs_jitter st / real (unat (clockRate st)) * 1000"

definition rs_reset :: "rtp_stats \<Rightarrow> rtp_stats" where
  "rs_reset st = st\<lparr>rs_started := False, baseExt := 0, maxExt := 0, rs_received := 0,
     rs_reordered := 0, lastTransit := 0, haveTransit := False, rs_jitter := 0\<rparr>"

text \<open>A packet as the statistics see it, and a sequence of them.\<close>

record stat_packet =
  sp_seq :: u16
  sp_ts :: u32
  sp_arrival :: real

definition rs_step :: "rtp_stats \<Rightarrow> stat_packet \<Rightarrow> rtp_stats" where
  "rs_step st p = rs_update st (sp_seq p) (sp_ts p) (sp_arrival p)"

definition rs_run :: "rtp_stats \<Rightarrow> stat_packet list \<Rightarrow> rtp_stats" where
  "rs_run st ps = foldl rs_step st ps"

section \<open>The counters\<close>

interpretation rs: unwrap rs_extend
  using extend_unwrap by (simp add: rs_extend_def [abs_def] Let_def)

lemma rs_update_fields:
  "rs_started (rs_update st s t a)"
  "clockRate (rs_update st s t a) = clockRate st"
  "rs_received (rs_update st s t a) = rs_received st + 1"
  "baseExt (rs_update st s t a) = (if rs_started st then baseExt st else uint s)"
  "maxExt (rs_update st s t a) = (if rs_started st then max (maxExt st) (rs_extend s (maxExt st)) else uint s)"
  "haveTransit (rs_update st s t a)"
  "lastTransit (rs_update st s t a) = a * real (unat (clockRate st)) - real (unat t)"
  by (auto simp: rs_update_def Let_def max_def)

lemma rs_update_jitter:
  "rs_jitter (rs_update st s t a) = (if haveTransit st
     then rs_jitter st + (\<bar>a * real (unat (clockRate st)) - real (unat t) - lastTransit st\<bar> - rs_jitter st) / 16
     else rs_jitter st)"
  by (auto simp: rs_update_def Let_def)

lemma rs_run_received: "rs_received (rs_run st ps) = rs_received st + of_nat (length ps)"
  by (induction ps arbitrary: st) (simp_all add: rs_run_def rs_step_def rs_update_fields)

definition rs_inv :: "rtp_stats \<Rightarrow> bool" where
  "rs_inv st \<longleftrightarrow> 0 \<le> baseExt st \<and> baseExt st \<le> 65535 \<and> baseExt st \<le> maxExt st \<and> 0 \<le> rs_jitter st
     \<and> (\<not> rs_started st \<longrightarrow> maxExt st = 0 \<and> baseExt st = 0)"

interpretation rsm: machine rs_step rs_inv
proof
  fix st and p :: stat_packet assume "rs_inv st"
  moreover have "0 \<le> uint (sp_seq p)" "uint (sp_seq p) \<le> 65535" using uint_lt2p [of "sp_seq p"] by simp_all
  ultimately show "rs_inv (rs_step st p)"
    by (auto simp: rs_inv_def rs_step_def rs_update_fields rs_update_jitter field_simps)
qed

lemma rs_new_inv: "rs_inv (rs_new rate)"
  by (simp add: rs_inv_def rs_new_def)

lemma rs_run_max:
  "rs_inv st \<Longrightarrow> maxExt st \<le> 65535 + 32768 * int n \<Longrightarrow>
   maxExt (rs_run st ps) \<le> 65535 + 32768 * int (n + length ps)"
proof (induction ps arbitrary: st n)
  case (Cons p ps)
  have "uint (sp_seq p) \<le> 65535" using uint_lt2p [of "sp_seq p"] by simp
  then have "maxExt (rs_step st p) \<le> 65535 + 32768 * int (Suc n)"
    using Cons.prems rs.ext_upper [of "maxExt st" "sp_seq p"]
    by (auto simp: rs_step_def rs_update_fields rs_inv_def)
  then have "maxExt (rs_run (rs_step st p) ps) \<le> 65535 + 32768 * int (Suc n + length ps)"
    using Cons.prems by (intro Cons.IH rsm.inv_step)
  then show ?case by (simp add: rs_run_def)
qed (simp add: rs_run_def)

text \<open>Below \<open>2^47\<close> packets no counter and no cast wraps.\<close>

definition rs_small :: "rtp_stats \<Rightarrow> bool" where
  "rs_small st \<longleftrightarrow> 0 \<le> maxExt st - baseExt st \<and> maxExt st - baseExt st < 2 ^ 63 - 1 \<and> rs_received st < 2 ^ 63"

lemma rs_run_small:
  assumes "length ps < 2 ^ 47"
  shows "rs_small (rs_run (rs_new rate) ps)"
proof -
  let ?st = "rs_run (rs_new rate) ps"
  have inv: "rs_inv ?st" unfolding rs_run_def by (rule rsm.inv_run [OF rs_new_inv])
  have "maxExt ?st \<le> 65535 + 32768 * int (0 + length ps)"
    by (rule rs_run_max [OF rs_new_inv]) (simp add: rs_new_def)
  moreover have "rs_received ?st < 2 ^ 63"
  proof -
    have "rs_received ?st = of_nat (length ps)" by (simp add: rs_run_received rs_new_def)
    moreover have "length ps mod 18446744073709551616 = length ps" using assms by simp
    ultimately show ?thesis using assms by (simp add: word_less_nat_alt unat_of_nat)
  qed
  ultimately show ?thesis using inv assms by (simp add: rs_small_def rs_inv_def)
qed

lemma uint_small_count: "n < 2 ^ 47 \<Longrightarrow> uint (of_nat n :: u64) = int n"
  by (simp add: uint_nat unat_of_nat)

lemma sint_small: "(x :: u64) < 2 ^ 63 \<Longrightarrow> sint x = uint x"
proof -
  assume "x < 2 ^ 63"
  then have "uint x < 2 ^ 63" by (simp add: word_less_def)
  moreover have "sint x = (uint x + 2 ^ 63) mod 2 ^ 64 - 2 ^ 63" using int_word_sint [where 'a = 64, of "uint x"] by simp
  ultimately show ?thesis using int_mod_pos_eq [of "uint x + 2 ^ 63" "2 ^ 64" 0] by simp
qed

lemma rs_small_casts:
  assumes "rs_small st" "rs_started st"
  shows "uint (rs_expected st) = maxExt st - baseExt st + 1" "sint (rs_expected st) = maxExt st - baseExt st + 1"
    "sint (rs_received st) = uint (rs_received st)" "rs_expected st \<noteq> 0"
proof -
  let ?d = "maxExt st - baseExt st + 1"
  have d: "0 < ?d" "?d < 2 ^ 63" using assms by (simp_all add: rs_small_def)
  have e: "rs_expected st = word_of_int ?d" using assms(2) by (simp add: rs_expected_def)
  show u: "uint (rs_expected st) = ?d"
    unfolding e using d by (simp only: uint_word_of_int) simp
  then have "rs_expected st < 2 ^ 63" using d by (simp add: word_less_def)
  then show "sint (rs_expected st) = ?d" using u by (simp add: sint_small)
  show "sint (rs_received st) = uint (rs_received st)" using assms(1) by (simp add: rs_small_def sint_small)
  show "rs_expected st \<noteq> 0"
  proof
    assume "rs_expected st = 0"
    then show False using u d(1) by simp
  qed
qed

section \<open>Loss over a stream of true indices\<close>

text \<open>
  The sender numbers its packets by integers; the header carries the low 16 bits. A stream is
  trackable when each packet is less than half the number space from the highest one so far.
\<close>

fun trackable :: "int \<Rightarrow> int list \<Rightarrow> bool" where
  "trackable m [] = True"
| "trackable m (x # xs) = (\<bar>x - m\<bar> < 32768 \<and> trackable (max m x) xs)"

definition carries :: "int list \<Rightarrow> stat_packet list \<Rightarrow> bool" where
  "carries xs ps \<longleftrightarrow> map sp_seq ps = map word_of_int xs"

lemma rs_run_Cons: "rs_run st (p # ps) = rs_run (rs_step st p) ps"
  by (simp add: rs_run_def)

lemma rs_run_track:
  "trackable (maxExt st) xs \<Longrightarrow> carries xs ps \<Longrightarrow> rs_started st \<Longrightarrow>
   maxExt (rs_run st ps) = Max (insert (maxExt st) (set xs)) \<and> baseExt (rs_run st ps) = baseExt st
   \<and> rs_started (rs_run st ps)"
proof (induction xs arbitrary: st ps)
  case Nil
  then show ?case by (simp add: carries_def rs_run_def)
next
  case (Cons x xs)
  then obtain p ps' where ps: "ps = p # ps'" "sp_seq p = word_of_int x" "carries xs ps'"
    by (auto simp: carries_def Cons_eq_map_conv map_eq_Cons_conv)
  have m: "maxExt (rs_step st p) = max (maxExt st) x"
    using Cons.prems ps rs.ext_exact [of x "maxExt st"] by (simp add: rs_step_def rs_update_fields)
  have "maxExt (rs_run (rs_step st p) ps') = Max (insert (maxExt (rs_step st p)) (set xs))
    \<and> baseExt (rs_run (rs_step st p) ps') = baseExt (rs_step st p) \<and> rs_started (rs_run (rs_step st p) ps')"
    using Cons.prems ps m by (intro Cons.IH) (simp_all add: rs_step_def rs_update_fields)
  moreover have "Max (insert (max (maxExt st) x) (set xs)) = Max (insert (maxExt st) (insert x (set xs)))"
    by (cases "xs = []") (simp_all add: max.assoc)
  moreover have "baseExt (rs_step st p) = baseExt st" using Cons.prems(3) by (simp add: rs_step_def rs_update_fields)
  ultimately show ?case by (simp add: ps(1) rs_run_Cons m)
qed

lemma rs_run_stream:
  assumes "0 \<le> x" "x \<le> 65535" "trackable x xs" "carries (x # xs) ps"
  shows "maxExt (rs_run (rs_new rate) ps) = Max (insert x (set xs))"
    "baseExt (rs_run (rs_new rate) ps) = x" "rs_started (rs_run (rs_new rate) ps)"
proof -
  obtain p ps' where ps: "ps = p # ps'" "sp_seq p = word_of_int x" "carries xs ps'"
    using assms(4) by (auto simp: carries_def Cons_eq_map_conv map_eq_Cons_conv)
  have "uint (sp_seq p) = x" unfolding ps(2) uint_word_of_int using assms(1,2) by simp
  then have s: "maxExt (rs_step (rs_new rate) p) = x" "baseExt (rs_step (rs_new rate) p) = x"
    "rs_started (rs_step (rs_new rate) p)"
    by (simp_all add: rs_step_def rs_update_fields rs_new_def)
  show "maxExt (rs_run (rs_new rate) ps) = Max (insert x (set xs))"
    "baseExt (rs_run (rs_new rate) ps) = x" "rs_started (rs_run (rs_new rate) ps)"
    using rs_run_track [of "rs_step (rs_new rate) p" xs ps'] s assms(3) ps by (simp_all add: rs_run_def)
qed

lemma missing_count:
  assumes "finite A" "A \<subseteq> {lo..hi :: int}"
  shows "int (card ({lo..hi} - A)) = max 0 (hi - lo + 1) - int (card A)"
proof -
  have "card A \<le> card {lo..hi}" using assms by (intro card_mono) auto
  then show ?thesis using assms by (simp add: card_Diff_subset of_nat_diff max_def)
qed

section \<open>Jitter\<close>

lemma rs_run_jitter:
  "0 \<le> rs_jitter st \<Longrightarrow> rs_jitter st \<le> B \<Longrightarrow> haveTransit st \<Longrightarrow>
   (\<And>p. p \<in> set ps \<Longrightarrow> c - B / 2 \<le> sp_arrival p * real (unat (clockRate st)) - real (unat (sp_ts p))
     \<and> sp_arrival p * real (unat (clockRate st)) - real (unat (sp_ts p)) \<le> c + B / 2) \<Longrightarrow>
   c - B / 2 \<le> lastTransit st \<Longrightarrow> lastTransit st \<le> c + B / 2 \<Longrightarrow>
   0 \<le> rs_jitter (rs_run st ps) \<and> rs_jitter (rs_run st ps) \<le> B"
proof (induction ps arbitrary: st)
  case (Cons p ps)
  let ?t = "sp_arrival p * real (unat (clockRate st)) - real (unat (sp_ts p))"
  have t: "c - B / 2 \<le> ?t" "?t \<le> c + B / 2" using Cons.prems(4) [of p] by simp_all
  then have d: "\<bar>?t - lastTransit st\<bar> \<le> B" using Cons.prems(5,6) by (simp add: abs_le_iff field_simps)
  have j: "rs_jitter (rs_step st p) = rs_jitter st + (\<bar>?t - lastTransit st\<bar> - rs_jitter st) / 16"
    using Cons.prems(3) by (simp add: rs_step_def rs_update_jitter)
  have "0 \<le> rs_jitter (rs_step st p) \<and> rs_jitter (rs_step st p) \<le> B"
    using d Cons.prems(1,2) unfolding j by (simp add: field_simps)
  moreover have "haveTransit (rs_step st p)" "lastTransit (rs_step st p) = ?t" "clockRate (rs_step st p) = clockRate st"
    by (simp_all add: rs_step_def rs_update_fields)
  ultimately show ?case using Cons.IH [of "rs_step st p"] Cons.prems(4) t by (simp add: rs_run_def)
qed (simp add: rs_run_def)

section \<open>Properties\<close>

text \<open>C13. The loss count is exact: for a stream whose packets arrive once each, in any order such that
each is less than half the number space from the highest so far and none precedes the first, over any
number of wrap-arounds of the 16-bit counter, \<open>lost\<close> is exactly the number of sequence indices up
to the highest one that never arrived, and \<open>expected\<close> is the length of that range.\<close>

theorem rtp_loss_exact:
  assumes "carries (x # xs) ps" "trackable x xs" "0 \<le> x" "x \<le> 65535"
    and "distinct (x # xs)" "\<forall>y \<in> set xs. x \<le> y" "length ps < 2 ^ 47"
  shows "rs_lost (rs_run (rs_new rate) ps) = int (card ({x..Max (set (x # xs))} - set (x # xs)))
    \<and> uint (rs_expected (rs_run (rs_new rate) ps)) = Max (set (x # xs)) - x + 1"
proof -
  let ?st = "rs_run (rs_new rate) ps" and ?M = "Max (set (x # xs))"
  note st = rs_run_stream [OF assms(3,4,2,1), of rate]
  note c = rs_small_casts [OF rs_run_small [OF assms(7)] st(3)]
  have len: "length ps = length (x # xs)" using assms(1) by (metis carries_def length_map)
  have "uint (rs_received ?st) = int (length (x # xs))"
    using uint_small_count [OF assms(7)] rs_run_received [of "rs_new rate" ps] by (simp add: rs_new_def len)
  moreover have "int (card ({x..?M} - set (x # xs))) = max 0 (?M - x + 1) - int (length (x # xs))"
    using missing_count [of "set (x # xs)" x ?M] assms(5,6) distinct_card [OF assms(5)] by force
  moreover have "x \<le> ?M" by simp
  ultimately have "sint (rs_expected ?st) - sint (rs_received ?st) = int (card ({x..?M} - set (x # xs)))"
    using c st by simp
  then show ?thesis using c st unfolding rs_lost_def by simp
qed

theorem rtp_loss_exact_witness:
  "rs_lost (rs_run (rs_new 8000) (map (\<lambda>s. \<lparr>sp_seq = s, sp_ts = 0, sp_arrival = 0\<rparr>) [65534, 2, 65535]))
      = int (card ({65534..Max (set [65534, 65538, 65535 :: int])} - set [65534, 65538, 65535]))
    \<and> uint (rs_expected (rs_run (rs_new 8000) (map (\<lambda>s. \<lparr>sp_seq = s, sp_ts = 0, sp_arrival = 0\<rparr>) [65534, 2, 65535])))
      = Max (set [65534, 65538, 65535]) - 65534 + 1"
  by (rule rtp_loss_exact) (simp_all add: carries_def)

text \<open>Whatever the network sends (duplicates, reordering, arbitrary jumps), the reported loss
fraction is a fraction: for fewer than \<open>2^47\<close> packets it lies between 0 and 1, and \<open>lost\<close> between 0
and \<open>expected\<close>.\<close>

theorem rtp_loss_fraction:
  assumes "length ps < 2 ^ 47"
  shows "0 \<le> rs_lossFraction (rs_run (rs_new rate) ps) \<and> rs_lossFraction (rs_run (rs_new rate) ps) \<le> 1
    \<and> 0 \<le> rs_lost (rs_run (rs_new rate) ps)
    \<and> rs_lost (rs_run (rs_new rate) ps) \<le> uint (rs_expected (rs_run (rs_new rate) ps))"
proof -
  let ?st = "rs_run (rs_new rate) ps"
  have small: "rs_small ?st" by (rule rs_run_small [OF assms])
  have l: "0 \<le> rs_lost ?st \<and> rs_lost ?st \<le> uint (rs_expected ?st)"
  proof (cases "rs_started ?st")
    case True
    note c = rs_small_casts [OF small True]
    have "0 \<le> uint (rs_received ?st)" by simp
    then show ?thesis using c(1,2,3) small unfolding rs_lost_def rs_small_def Let_def by simp
  next
    case False
    have "0 \<le> sint (rs_received ?st)" using small by (simp add: rs_small_def sint_small)
    then show ?thesis using False by (simp add: rs_lost_def rs_expected_def)
  qed
  moreover have "0 \<le> real_of_int a / real_of_int b \<and> real_of_int a / real_of_int b \<le> 1"
    if "0 \<le> a" "a \<le> b" for a b :: int
    using that by (cases "b = 0") (simp_all add: divide_le_eq_1)
  ultimately have "0 \<le> real_of_int (rs_lost ?st) / real_of_int (uint (rs_expected ?st))
    \<and> real_of_int (rs_lost ?st) / real_of_int (uint (rs_expected ?st)) \<le> 1" by blast
  then show ?thesis using l by (cases "rs_expected ?st = 0") (simp_all add: rs_lossFraction_def)
qed

theorem rtp_loss_fraction_witness:
  "let ps = map (\<lambda>s. \<lparr>sp_seq = s, sp_ts = 0, sp_arrival = 0\<rparr>) [7, 7, 9, 40000] in
    0 \<le> rs_lossFraction (rs_run (rs_new 8000) ps) \<and> rs_lossFraction (rs_run (rs_new 8000) ps) \<le> 1
    \<and> 0 \<le> rs_lost (rs_run (rs_new 8000) ps)
    \<and> rs_lost (rs_run (rs_new 8000) ps) \<le> uint (rs_expected (rs_run (rs_new 8000) ps))"
  unfolding Let_def by (rule rtp_loss_fraction) simp

text \<open>C40. The jitter estimate is stable: if the transit times of all packets lie in a band of width
\<open>B\<close> (in timestamp units), the estimate stays between 0 and \<open>B\<close>; a perfectly paced stream (\<open>B = 0\<close>)
reports no jitter.\<close>

theorem rtp_jitter_bounded:
  assumes "\<forall>p \<in> set ps. c - B / 2 \<le> sp_arrival p * real (unat rate) - real (unat (sp_ts p))
      \<and> sp_arrival p * real (unat rate) - real (unat (sp_ts p)) \<le> c + B / 2" and "0 \<le> B"
  shows "0 \<le> rs_jitter (rs_run (rs_new rate) ps) \<and> rs_jitter (rs_run (rs_new rate) ps) \<le> B"
proof (cases ps)
  case Nil
  then show ?thesis using assms(2) by (simp add: rs_run_def rs_new_def)
next
  case (Cons p ps')
  let ?s = "rs_step (rs_new rate) p"
  have s: "rs_jitter ?s = 0" "haveTransit ?s" "clockRate ?s = rate"
    "lastTransit ?s = sp_arrival p * real (unat rate) - real (unat (sp_ts p))"
    by (simp_all add: rs_step_def rs_update_fields rs_update_jitter rs_new_def)
  have "0 \<le> rs_jitter (rs_run ?s ps') \<and> rs_jitter (rs_run ?s ps') \<le> B"
    by (rule rs_run_jitter [where c = c]) (use assms Cons s in auto)
  then show ?thesis by (simp add: Cons rs_run_Cons)
qed

theorem rtp_jitter_bounded_witness:
  "0 \<le> rs_jitter (rs_run (rs_new 8000) [\<lparr>sp_seq = 1, sp_ts = 0, sp_arrival = 1\<rparr>, \<lparr>sp_seq = 2, sp_ts = 160, sp_arrival = 1.021\<rparr>])
   \<and> rs_jitter (rs_run (rs_new 8000) [\<lparr>sp_seq = 1, sp_ts = 0, sp_arrival = 1\<rparr>, \<lparr>sp_seq = 2, sp_ts = 160, sp_arrival = 1.021\<rparr>]) \<le> 16"
  by (rule rtp_jitter_bounded [of _ 8000 16 8000]) simp_all

end
