(* ===== verification/Rfc4733.thy ===== *)
theory Rfc4733
  imports Prelude
begin

text \<open>
  Telephone events: src/src/dtmf/Rfc4733.cpp and src/include/sipdemo/Rfc4733.h. The payload
  parser, the table of key characters and the stateful decoder, whose record has the fields of the
  class. The main result is that a sequence of key presses comes out as its characters, once each.
\<close>

section \<open>Definitions\<close>

record dtmf_event =
  ev_event :: u8
  ev_end :: bool
  ev_volume :: u8
  ev_duration :: u16

definition parseDtmfPayload :: "bytes \<Rightarrow> dtmf_event option option" where
  "parseDtmfPayload data =
    (if length data < 4 then Some None
     else do {
       b0 \<leftarrow> rd8 data 0; b1 \<leftarrow> rd8 data 1; b2 \<leftarrow> rd8 data 2; b3 \<leftarrow> rd8 data 3;
       Some (Some \<lparr>ev_event = b0, ev_end = (b1 AND 0x80 \<noteq> 0), ev_volume = b1 AND 0x3F,
         ev_duration = push_bit 8 (ucast b2) OR ucast b3\<rparr>)
     })"

definition dtmfEventToChar :: "u8 \<Rightarrow> char option" where
  "dtmfEventToChar event =
    (if event \<le> 9 then Some (char_of (of_char (CHR ''0'') + unat event))
     else if event = 10 then Some (CHR ''*'')
     else if event = 11 then Some (CHR ''#'')
     else if 12 \<le> event \<and> event \<le> 15 then Some (char_of (of_char (CHR ''A'') + (unat event - 12)))
     else None)"

record dtmf_decoder =
  lastEvent :: int
  emittedForCurrent :: bool
  lastDuration :: u16

definition dtmf_decoder_init :: dtmf_decoder where
  "dtmf_decoder_init = \<lparr>lastEvent = - 1, emittedForCurrent = False, lastDuration = 0\<rparr>"

definition dtmf_reset :: "dtmf_decoder \<Rightarrow> dtmf_decoder" where
  "dtmf_reset d = d\<lparr>lastEvent := - 1, emittedForCurrent := False, lastDuration := 0\<rparr>"

text \<open>The decoder after the parser: the switch to a new event, then the two kinds of packet.\<close>

definition dtmf_feed_event :: "dtmf_decoder \<Rightarrow> dtmf_event \<Rightarrow> dtmf_decoder \<times> char option" where
  "dtmf_feed_event d ev =
    (let d = (if uint (ev_event ev) \<noteq> lastEvent d
              then d\<lparr>lastEvent := uint (ev_event ev), emittedForCurrent := False, lastDuration := 0\<rparr>
              else d)
     in if \<not> ev_end ev then
          (d\<lparr>emittedForCurrent := False, lastDuration := ev_duration ev\<rparr>, None)
        else
          (let d = (if lastDuration d > 0 \<and> ev_duration ev < lastDuration d
                    then d\<lparr>emittedForCurrent := False\<rparr> else d);
               d = d\<lparr>lastDuration := ev_duration ev\<rparr>
           in if emittedForCurrent d then (d, None)
              else (case dtmfEventToChar (ev_event ev) of
                      None \<Rightarrow> (d, None)
                    | Some ch \<Rightarrow> (d\<lparr>emittedForCurrent := True\<rparr>, Some ch))))"

definition dtmf_feed :: "dtmf_decoder \<Rightarrow> bytes \<Rightarrow> (dtmf_decoder \<times> char option) option" where
  "dtmf_feed d payload =
    (case parseDtmfPayload payload of
       None \<Rightarrow> None
     | Some None \<Rightarrow> Some (d, None)
     | Some (Some ev) \<Rightarrow> Some (dtmf_feed_event d ev))"

text \<open>A decoder over a stream of payloads: its final state and the digits it emitted.\<close>

fun dtmf_run :: "dtmf_decoder \<Rightarrow> bytes list \<Rightarrow> (dtmf_decoder \<times> string) option" where
  "dtmf_run d [] = Some (d, [])"
| "dtmf_run d (p # ps) = do {
     (d1, out) \<leftarrow> dtmf_feed d p;
     (d2, outs) \<leftarrow> dtmf_run d1 ps;
     Some (d2, case out of None \<Rightarrow> outs | Some c \<Rightarrow> c # outs)
   }"

section \<open>Parsing and the state invariant\<close>

lemma parseDtmfPayload_safe: "parseDtmfPayload p \<noteq> None"
proof (cases "length p < 4")
  case False
  then have "0 < length p" by linarith
  then show ?thesis using False by (simp add: parseDtmfPayload_def rd8_def)
qed (simp add: parseDtmfPayload_def)

lemma dtmf_feed_safe: "\<exists>d' out. dtmf_feed d p = Some (d', out)"
  using parseDtmfPayload_safe [of p] by (auto simp: dtmf_feed_def split: option.splits)

lemma dtmf_run_safe: "\<exists>d' outs. dtmf_run d ps = Some (d', outs)"
proof (induction ps arbitrary: d)
  case (Cons p ps)
  obtain d1 out where "dtmf_feed d p = Some (d1, out)" using dtmf_feed_safe by blast
  moreover obtain d2 outs where "dtmf_run d1 ps = Some (d2, outs)" using Cons.IH by blast
  ultimately show ?case by simp
qed simp

lemma dtmfEventToChar_iff: "dtmfEventToChar e \<noteq> None \<longleftrightarrow> e \<le> 15"
proof -
  have "e = 10 \<or> e = 11 \<or> e \<le> 9 \<or> 12 \<le> e" by unat_arith
  then show ?thesis by (auto simp: dtmfEventToChar_def intro: order_trans)
qed

definition dtmf_inv :: "dtmf_decoder \<Rightarrow> bool" where
  "dtmf_inv d \<longleftrightarrow> - 1 \<le> lastEvent d \<and> lastEvent d < 256
     \<and> (emittedForCurrent d \<longrightarrow> 0 \<le> lastEvent d \<and> lastEvent d \<le> 15)"

lemma dtmf_feed_event_inv: "dtmf_inv d \<Longrightarrow> dtmf_inv (fst (dtmf_feed_event d ev))"
proof -
  obtain n where n: "uint (ev_event ev) = n" "0 \<le> n" "n < 256"
    using uint_lt2p [of "ev_event ev"] by simp
  have c: "dtmfEventToChar (ev_event ev) = Some c \<Longrightarrow> n \<le> 15" for c
    using dtmfEventToChar_iff [of "ev_event ev"] by (simp add: word_le_def n)
  show "dtmf_inv d \<Longrightarrow> dtmf_inv (fst (dtmf_feed_event d ev))"
    using n c by (auto simp: dtmf_inv_def dtmf_feed_event_def Let_def split: option.splits)
qed

definition dtmf_step :: "dtmf_decoder \<Rightarrow> bytes \<Rightarrow> dtmf_decoder" where
  "dtmf_step d p = (case dtmf_feed d p of None \<Rightarrow> d | Some (d', _) \<Rightarrow> d')"

interpretation dtm: machine dtmf_step dtmf_inv
proof
  fix s e assume "dtmf_inv s"
  then show "dtmf_inv (dtmf_step s e)"
    using dtmf_feed_event_inv by (auto simp: dtmf_step_def dtmf_feed_def split: option.splits prod.splits)
      (metis fst_conv)
qed

lemma dtmf_run_state: "dtmf_run d ps = Some (d', outs) \<Longrightarrow> d' = foldl dtmf_step d ps"
  by (induction ps arbitrary: d d' outs)
    (auto simp: dtmf_step_def bind_eq_Some_conv split: prod.splits)

section \<open>Key presses\<close>

text \<open>
  One press of key \<open>e\<close>: packets sent while it is held (durations up to \<open>D\<close>), then at least one end
  packet with the final duration \<open>D\<close>.
\<close>

definition held_packet :: "u8 \<Rightarrow> u16 \<Rightarrow> bytes \<Rightarrow> bool" where
  "held_packet e D p = (case parseDtmfPayload p of
     Some (Some ev) \<Rightarrow> ev_event ev = e \<and> \<not> ev_end ev \<and> ev_duration ev \<le> D | _ \<Rightarrow> False)"

definition end_packet :: "u8 \<Rightarrow> u16 \<Rightarrow> bytes \<Rightarrow> bool" where
  "end_packet e D p = (case parseDtmfPayload p of
     Some (Some ev) \<Rightarrow> ev_event ev = e \<and> ev_end ev \<and> ev_duration ev = D | _ \<Rightarrow> False)"

record key_press =
  kp_event :: u8
  kp_duration :: u16
  kp_held :: "bytes list"
  kp_ends :: "bytes list"

definition press_ok :: "key_press \<Rightarrow> bool" where
  "press_ok k \<longleftrightarrow> kp_event k \<le> 15 \<and> list_all (held_packet (kp_event k) (kp_duration k)) (kp_held k)
     \<and> list_all (end_packet (kp_event k) (kp_duration k)) (kp_ends k) \<and> kp_ends k \<noteq> []"

definition press_packets :: "key_press \<Rightarrow> bytes list" where
  "press_packets k = kp_held k @ kp_ends k"

text \<open>Two presses in a row are told apart by the key, by a held packet, or by a shorter duration.\<close>

fun presses_apart :: "key_press list \<Rightarrow> bool" where
  "presses_apart (k # k' # ks) = ((kp_event k' \<noteq> kp_event k \<or> kp_held k' \<noteq> []
      \<or> kp_duration k' < kp_duration k) \<and> presses_apart (k' # ks))"
| "presses_apart _ = True"

definition released :: "u8 \<Rightarrow> u16 \<Rightarrow> dtmf_decoder \<Rightarrow> bool" where
  "released e D d \<longleftrightarrow> lastEvent d = uint e \<and> emittedForCurrent d \<and> lastDuration d = D"

definition armed :: "u8 \<Rightarrow> u16 \<Rightarrow> dtmf_decoder \<Rightarrow> bool" where
  "armed e D d \<longleftrightarrow> lastEvent d \<noteq> uint e \<or> \<not> emittedForCurrent d \<or> D < lastDuration d"

lemma dtmf_run_append:
  "dtmf_run d ps = Some (d1, o1) \<Longrightarrow> dtmf_run d1 qs = Some (d2, o2) \<Longrightarrow>
   dtmf_run d (ps @ qs) = Some (d2, o1 @ o2)"
proof (induction ps arbitrary: d o1)
  case (Cons p ps)
  obtain d' out where f: "dtmf_feed d p = Some (d', out)" using dtmf_feed_safe by blast
  obtain d'' o' where r: "dtmf_run d' ps = Some (d'', o')" using dtmf_run_safe by blast
  have "dtmf_run d' (ps @ qs) = Some (d2, o' @ o2)"
    using Cons.IH [of d' o'] Cons.prems f r by (simp split: option.splits)
  then show ?case using Cons.prems(1) f r by (auto split: option.splits)
qed simp

lemma feed_held:
  assumes "held_packet e D p"
  shows "\<exists>d'. dtmf_feed d p = Some (d', None) \<and> armed e D d'"
  using assms by (auto simp: held_packet_def dtmf_feed_def dtmf_feed_event_def armed_def Let_def
      split: option.splits)

lemma feed_first_end:
  assumes "end_packet e D p" "armed e D d" "e \<le> 15"
  shows "\<exists>d'. dtmf_feed d p = Some (d', dtmfEventToChar e) \<and> released e D d'"
proof -
  obtain c where "dtmfEventToChar e = Some c" using dtmfEventToChar_iff [of e] assms(3) by auto
  then show ?thesis using assms(1,2) word_greater_zero_iff [of D]
    by (auto simp: end_packet_def dtmf_feed_def dtmf_feed_event_def armed_def released_def Let_def
        split: option.splits)
qed

lemma feed_more_end:
  assumes "end_packet e D p" "released e D d"
  shows "\<exists>d'. dtmf_feed d p = Some (d', None) \<and> released e D d'"
  using assms by (auto simp: end_packet_def dtmf_feed_def dtmf_feed_event_def released_def Let_def
      split: option.splits)

lemma run_held: "list_all (held_packet e D) ps \<Longrightarrow> armed e D d \<or> ps \<noteq> [] \<Longrightarrow>
    \<exists>d'. dtmf_run d ps = Some (d', []) \<and> armed e D d'"
proof (induction ps arbitrary: d)
  case (Cons p ps)
  then obtain d1 where d1: "dtmf_feed d p = Some (d1, None)" "armed e D d1"
    using feed_held [of e D p d] by auto
  then obtain d2 where "dtmf_run d1 ps = Some (d2, [])" "armed e D d2"
    using Cons.IH [of d1] Cons.prems by auto
  then show ?case using d1 by simp
qed simp

lemma run_ends: "list_all (end_packet e D) ps \<Longrightarrow> released e D d \<Longrightarrow>
    \<exists>d'. dtmf_run d ps = Some (d', []) \<and> released e D d'"
proof (induction ps arbitrary: d)
  case (Cons p ps)
  then obtain d1 where d1: "dtmf_feed d p = Some (d1, None)" "released e D d1"
    using feed_more_end [of e D p d] by auto
  then obtain d2 where "dtmf_run d1 ps = Some (d2, [])" "released e D d2"
    using Cons.IH [of d1] Cons.prems by auto
  then show ?case using d1 by simp
qed simp

definition key_char :: "key_press \<Rightarrow> char" where
  "key_char k = the (dtmfEventToChar (kp_event k))"

lemma run_press:
  assumes "press_ok k" "armed (kp_event k) (kp_duration k) d \<or> kp_held k \<noteq> []"
  shows "\<exists>d'. dtmf_run d (press_packets k) = Some (d', [key_char k])
    \<and> released (kp_event k) (kp_duration k) d'"
proof -
  let ?e = "kp_event k" and ?D = "kp_duration k"
  note ok = assms(1) [unfolded press_ok_def]
  obtain q qs where ends: "kp_ends k = q # qs" using ok by (cases "kp_ends k") auto
  obtain d1 where d1: "dtmf_run d (kp_held k) = Some (d1, [])" "armed ?e ?D d1"
    using run_held [of ?e ?D "kp_held k" d] ok assms(2) by blast
  obtain d2 where d2: "dtmf_feed d1 q = Some (d2, dtmfEventToChar ?e)" "released ?e ?D d2"
    using feed_first_end [of ?e ?D q d1] ok d1(2) ends by auto
  obtain d3 where d3: "dtmf_run d2 qs = Some (d3, [])" "released ?e ?D d3"
    using run_ends [of ?e ?D qs d2] ok d2(2) ends by auto
  obtain c where "dtmfEventToChar ?e = Some c" using dtmfEventToChar_iff [of ?e] ok by auto
  then show ?thesis
    using d1 d2 d3 dtmf_run_append [OF d1(1), of "q # qs"]
    by (simp add: press_packets_def ends key_char_def)
qed

lemma released_armed:
  "released (kp_event k) (kp_duration k) d \<Longrightarrow> presses_apart (k # k' # ks) \<Longrightarrow>
   armed (kp_event k') (kp_duration k') d \<or> kp_held k' \<noteq> []"
  by (auto simp: released_def armed_def dest: word_uint_eqI)

lemma run_presses:
  "list_all press_ok (k # ks) \<Longrightarrow> presses_apart (k # ks) \<Longrightarrow>
   armed (kp_event k) (kp_duration k) d \<or> kp_held k \<noteq> [] \<Longrightarrow>
   \<exists>d'. dtmf_run d (concat (map press_packets (k # ks))) = Some (d', map key_char (k # ks))"
proof (induction ks arbitrary: k d)
  case Nil
  then show ?case using run_press [of k d] by auto
next
  case (Cons k' ks)
  obtain d1 where d1: "dtmf_run d (press_packets k) = Some (d1, [key_char k])"
    "released (kp_event k) (kp_duration k) d1"
    using run_press [of k d] Cons.prems by auto
  obtain d2 where "dtmf_run d1 (concat (map press_packets (k' # ks))) = Some (d2, map key_char (k' # ks))"
    using Cons.IH [of k' d1] Cons.prems released_armed [OF d1(2) Cons.prems(2)] by auto
  then show ?case using dtmf_run_append [OF d1(1)] by simp
qed

section \<open>Properties\<close>

text \<open>C16. Every key press gives its character exactly once: for any sequence of well-formed presses,
each with any number of held packets and at least one (re)transmitted end packet, and each told
apart from the one before by its key, by a held packet or by a shorter duration, a fresh decoder
emits exactly the characters of the presses, in order.\<close>

theorem dtmf_once_per_press:
  assumes "list_all press_ok ks" "presses_apart ks"
  shows "\<exists>d. dtmf_run dtmf_decoder_init (concat (map press_packets ks)) = Some (d, map key_char ks)"
proof (cases ks)
  case (Cons k ks')
  have "uint (kp_event k) \<noteq> - 1" using uint_ge_0 [of "kp_event k"] by linarith
  then have "armed (kp_event k) (kp_duration k) dtmf_decoder_init"
    by (simp add: armed_def dtmf_decoder_init_def)
  then show ?thesis using run_presses [of k ks'] assms unfolding Cons by blast
qed simp

theorem dtmf_once_per_press_witness:
  "let ks = [\<lparr>kp_event = 5, kp_duration = 160, kp_held = [[5, 10, 0, 80]], kp_ends = [[5, 0x8A, 0, 160], [5, 0x8A, 0, 160]]\<rparr>,
             \<lparr>kp_event = 5, kp_duration = 160, kp_held = [[5, 10, 0, 80]], kp_ends = [[5, 0x8A, 0, 160]]\<rparr>,
             \<lparr>kp_event = 11, kp_duration = 80, kp_held = [], kp_ends = [[11, 0x8A, 0, 80], [11, 0x8A, 0, 80]]\<rparr>]
   in \<exists>d. dtmf_run dtmf_decoder_init (concat (map press_packets ks)) = Some (d, map key_char ks)"
  unfolding Let_def
  by (rule dtmf_once_per_press)
    (simp_all add: press_ok_def held_packet_def end_packet_def parseDtmfPayload_def)

text \<open>The decoder is total and never reads outside a payload, keeps its invariant on any packets
from the network, and whatever it emits is the character of an end packet of at least four bytes.\<close>

theorem dtmf_feed_sound:
  "\<exists>d' out. dtmf_feed (foldl dtmf_step dtmf_decoder_init ps) p = Some (d', out) \<and> dtmf_inv d'
     \<and> (\<forall>c. out = Some c \<longrightarrow> 4 \<le> length p \<and> bit (p ! 1) 7 \<and> dtmfEventToChar (p ! 0) = Some c)"
proof -
  let ?d = "foldl dtmf_step dtmf_decoder_init ps"
  obtain d' out where f: "dtmf_feed ?d p = Some (d', out)" using dtmf_feed_safe by blast
  have "dtmf_inv ?d" by (rule dtm.inv_run) (simp add: dtmf_inv_def dtmf_decoder_init_def)
  then have "dtmf_inv (dtmf_step ?d p)" by (rule dtm.inv_step)
  then have inv: "dtmf_inv d'" by (simp add: dtmf_step_def f)
  have "4 \<le> length p \<and> bit (p ! 1) 7 \<and> dtmfEventToChar (p ! 0) = Some c" if out: "out = Some c" for c
  proof -
    from f out obtain ev where ev: "parseDtmfPayload p = Some (Some ev)"
      "dtmf_feed_event ?d ev = (d', Some c)" by (auto simp: dtmf_feed_def split: option.splits)
    from ev(1) have "4 \<le> length p" "ev_event ev = p ! 0" "ev_end ev = (p ! 1 AND 128 \<noteq> 0)"
      by (auto simp: parseDtmfPayload_def bind_eq_Some_conv rd8_def split: if_splits)
    moreover have "(p ! 1 AND 128 \<noteq> 0) = bit (p ! 1) 7"
      using and_exp_eq_0_iff_not_bit [of "p ! 1" 7] by simp
    moreover have "ev_end ev" "dtmfEventToChar (ev_event ev) = Some c"
      using ev(2) by (auto simp: dtmf_feed_event_def Let_def split: if_splits option.splits)
    ultimately show ?thesis by simp
  qed
  then show ?thesis using f inv by blast
qed

theorem dtmf_feed_sound_witness:
  "map_option snd (dtmf_feed (foldl dtmf_step dtmf_decoder_init [[5, 10, 0, 80]]) [5, 0x8A, 0, 160]) = Some (Some CHR ''5'')
   \<and> 4 \<le> length [5, 0x8A, 0, 160 :: u8] \<and> bit ([5, 0x8A, 0, 160 :: u8] ! 1) 7
   \<and> dtmfEventToChar ([5, 0x8A, 0, 160] ! 0) = Some CHR ''5''"
proof -
  have e: "map_option snd (dtmf_feed (foldl dtmf_step dtmf_decoder_init [[5, 10, 0, 80]]) [5, 0x8A, 0, 160])
    = Some (Some CHR ''5'')" by code_simp
  obtain d out where f: "dtmf_feed (foldl dtmf_step dtmf_decoder_init [[5, 10, 0, 80]]) [5, 0x8A, 0, 160] = Some (d, out)"
    and c: "\<forall>c. out = Some c \<longrightarrow> 4 \<le> length [5, 0x8A, 0, 160 :: u8] \<and> bit ([5, 0x8A, 0, 160 :: u8] ! 1) 7
      \<and> dtmfEventToChar ([5, 0x8A, 0, 160] ! 0) = Some c"
    using dtmf_feed_sound [of "[[5, 10, 0, 80]]" "[5, 0x8A, 0, 160]"] by blast
  have "out = Some CHR ''5''" using e unfolding f by simp
  then show ?thesis using e c by blast
qed

text \<open>Reordering defeats the suppression: one press whose held packet arrives between its two end
packets is emitted twice.\<close>

theorem dtmf_reordered_twice:
  "\<exists>d. dtmf_run dtmf_decoder_init [[5, 0x8A, 0, 160], [5, 10, 0, 80], [5, 0x8A, 0, 160]] = Some (d, ''55'')"
  by (simp add: dtmf_feed_def dtmf_feed_event_def parseDtmfPayload_def dtmf_decoder_init_def
      dtmfEventToChar_def Let_def char_of_def bit_0)

end
