(* ===== verification/Bounded_Queue.thy ===== *)
theory Bounded_Queue
  imports Prelude
begin

text \<open>
  The bounded queue of src/include/sipdemo/BoundedQueue.h, in two layers. The first is the class as
  an object: each method as a function on the state that the mutex protects, a blocking method as
  \<open>None\<close> while its wait predicate is false. The second is the class under threads: a labelled step
  relation in which a critical section is one step, \<open>wait\<close> releases the lock and goes to sleep in
  that same step, the notifications that the code sends after unlocking are steps of their own, and
  sleepers may wake spuriously. Its invariant shows that no wake-up is lost.
\<close>

section \<open>The methods\<close>

record 'a bounded_queue =
  bq_items :: "'a list"
  bq_capacity :: nat
  bq_closed :: bool

definition bq_new :: "nat \<Rightarrow> 'a bounded_queue" where
  "bq_new capacity = \<lparr>bq_items = [], bq_capacity = (if capacity = 0 then 1 else capacity), bq_closed = False\<rparr>"

definition bq_size :: "'a bounded_queue \<Rightarrow> nat" where
  "bq_size q = length (bq_items q)"

definition bq_push :: "'a bounded_queue \<Rightarrow> 'a \<Rightarrow> (bool \<times> 'a bounded_queue) option" where
  "bq_push q item =
    (if \<not> (bq_size q < bq_capacity q \<or> bq_closed q) then None
     else if bq_closed q then Some (False, q)
     else Some (True, q\<lparr>bq_items := bq_items q @ [item]\<rparr>))"

definition bq_tryPush :: "'a bounded_queue \<Rightarrow> 'a \<Rightarrow> bool \<times> 'a bounded_queue" where
  "bq_tryPush q item =
    (if bq_closed q \<or> bq_size q \<ge> bq_capacity q then (False, q)
     else (True, q\<lparr>bq_items := bq_items q @ [item]\<rparr>))"

definition bq_pop :: "'a bounded_queue \<Rightarrow> ('a option \<times> 'a bounded_queue) option" where
  "bq_pop q =
    (if \<not> (bq_items q \<noteq> [] \<or> bq_closed q) then None
     else if bq_items q = [] then Some (None, q)
     else Some (Some (hd (bq_items q)), q\<lparr>bq_items := tl (bq_items q)\<rparr>))"

definition bq_tryPop :: "'a bounded_queue \<Rightarrow> 'a option \<times> 'a bounded_queue" where
  "bq_tryPop q =
    (if bq_items q = [] then (None, q)
     else (Some (hd (bq_items q)), q\<lparr>bq_items := tl (bq_items q)\<rparr>))"

definition bq_close :: "'a bounded_queue \<Rightarrow> 'a bounded_queue" where
  "bq_close q = q\<lparr>bq_closed := True\<rparr>"

section \<open>The contract of a bounded queue that can be shut\<close>

datatype 'a queue_op = QPush 'a | QPop | QClose

locale closable_queue =
  fixes push :: "'q \<Rightarrow> 'a \<Rightarrow> bool \<times> 'q"
    and pop :: "'q \<Rightarrow> 'a option \<times> 'q"
    and shut :: "'q \<Rightarrow> 'q"
    and contents :: "'q \<Rightarrow> 'a list"
    and room :: "'q \<Rightarrow> nat"
    and is_shut :: "'q \<Rightarrow> bool"
  assumes push_ok: "push q x = (True, q') \<Longrightarrow> contents q' = contents q @ [x]"
    and push_no: "push q x = (False, q') \<Longrightarrow> contents q' = contents q"
    and push_iff: "fst (push q x) \<longleftrightarrow> \<not> is_shut q \<and> length (contents q) < room q"
    and pop_item: "pop q = (Some x, q') \<Longrightarrow> contents q = x # contents q'"
    and pop_none: "pop q = (None, q') \<Longrightarrow> contents q = [] \<and> contents q' = []"
    and shut_contents: "contents (shut q) = contents q" "is_shut (shut q)" "room (shut q) = room q"
    and push_frame: "is_shut (snd (push q x)) = is_shut q" "room (snd (push q x)) = room q"
    and pop_frame: "is_shut (snd (pop q)) = is_shut q" "room (snd (pop q)) = room q"
begin

text \<open>A run returns the final queue, the items accepted and the items handed out.\<close>

fun run :: "'q \<Rightarrow> 'a queue_op list \<Rightarrow> 'q \<times> 'a list \<times> 'a list" where
  "run q [] = (q, [], [])"
| "run q (QPush x # es) = (let (ok, q1) = push q x; (q2, ins, outs) = run q1 es
     in (q2, (if ok then x # ins else ins), outs))"
| "run q (QPop # es) = (let (r, q1) = pop q; (q2, ins, outs) = run q1 es
     in (q2, ins, (case r of None \<Rightarrow> outs | Some x \<Rightarrow> x # outs)))"
| "run q (QClose # es) = run (shut q) es"

lemma fifo: "run q es = (q', ins, outs) \<Longrightarrow> contents q @ ins = outs @ contents q'"
proof (induction q es arbitrary: q' ins outs rule: run.induct)
  case (2 q x es)
  obtain ok q1 where p: "push q x = (ok, q1)" by (cases "push q x")
  obtain i o' where r: "run q1 es = (q', i, o')" using 2(2) by (auto simp: p split: prod.splits)
  have "contents q1 @ i = o' @ contents q'" using 2(1) [OF p [symmetric] refl r] .
  moreover have "contents q1 = (if ok then contents q @ [x] else contents q)"
    using push_ok [of q x q1] push_no [of q x q1] by (cases ok) (simp_all add: p)
  moreover have "ins = (if ok then x # i else i)" "outs = o'" using 2(2) by (simp_all add: p r)
  ultimately show ?case by (simp split: if_splits)
next
  case (3 q es)
  obtain a q1 where p: "pop q = (a, q1)" by (cases "pop q")
  obtain i o' where r: "run q1 es = (q', i, o')" using 3(2) by (auto simp: p split: prod.splits)
  have "contents q1 @ i = o' @ contents q'" using 3(1) [OF p [symmetric] refl r] .
  moreover have "ins = i" "outs = (case a of None \<Rightarrow> o' | Some x \<Rightarrow> x # o')" using 3(2) by (simp_all add: p r)
  ultimately show ?case using pop_item [of q _ q1] pop_none [of q q1] by (cases a) (simp_all add: p)
next
  case (4 q es)
  then show ?case by (simp add: shut_contents)
qed simp

lemma capacity: "length (contents q) \<le> room q \<Longrightarrow> run q es = (q', ins, outs) \<Longrightarrow>
    length (contents q') \<le> room q' \<and> room q' = room q"
proof (induction q es arbitrary: q' ins outs rule: run.induct)
  case (2 q x es)
  obtain ok q1 where p: "push q x = (ok, q1)" by (cases "push q x")
  obtain i o' where r: "run q1 es = (q', i, o')" using 2(3) by (auto simp: p split: prod.splits)
  have "contents q1 = (if ok then contents q @ [x] else contents q)" "room q1 = room q"
    using push_ok [of q x q1] push_no [of q x q1] push_frame(2) [of q x] by (cases ok; simp add: p)+
  moreover have "ok \<Longrightarrow> length (contents q) < room q" using push_iff [of q x] by (simp add: p)
  ultimately show ?case using 2(1) [OF p [symmetric] refl _ r] 2(2) by (cases ok) simp_all
next
  case (3 q es)
  obtain a q1 where p: "pop q = (a, q1)" by (cases "pop q")
  obtain i o' where r: "run q1 es = (q', i, o')" using 3(3) by (auto simp: p split: prod.splits)
  have "length (contents q1) \<le> length (contents q)" "room q1 = room q"
    using pop_item [of q _ q1] pop_none [of q q1] pop_frame(2) [of q] by (cases a; simp add: p)+
  then show ?case using 3(1) [OF p [symmetric] refl _ r] 3(2) by simp
next
  case (4 q es)
  then show ?case by (simp add: shut_contents)
qed simp

lemma shut_accepts_nothing: "is_shut q \<Longrightarrow> run q es = (q', ins, outs) \<Longrightarrow> ins = []"
proof (induction q es arbitrary: q' ins outs rule: run.induct)
  case (2 q x es)
  obtain ok q1 where p: "push q x = (ok, q1)" by (cases "push q x")
  obtain i o' where r: "run q1 es = (q', i, o')" using 2(3) by (auto simp: p split: prod.splits)
  have "\<not> ok" "is_shut q1" using push_iff [of q x] push_frame(1) [of q x] 2(2) by (simp_all add: p)
  then show ?case using 2(1) [OF p [symmetric] refl _ r] 2(3) by (simp add: p r)
next
  case (3 q es)
  obtain a q1 where p: "pop q = (a, q1)" by (cases "pop q")
  obtain i o' where r: "run q1 es = (q', i, o')" using 3(3) by (auto simp: p split: prod.splits)
  have "is_shut q1" using pop_frame(1) [of q] 3(2) by (simp add: p)
  then show ?case using 3(1) [OF p [symmetric] refl _ r] 3(3) by (simp add: p r)
next
  case (4 q es)
  then show ?case by (simp add: shut_contents)
qed simp

end

interpretation bq: closable_queue bq_tryPush bq_tryPop bq_close bq_items bq_capacity bq_closed
  by unfold_locales
    (auto simp: bq_tryPush_def bq_tryPop_def bq_close_def bq_size_def split: if_splits)

text \<open>Where the blocking methods return, they do what the non-blocking ones do.\<close>

lemma bq_push_tryPush: "bq_push q x = Some r \<Longrightarrow> bq_tryPush q x = r"
  by (auto simp: bq_push_def bq_tryPush_def split: if_splits)

lemma bq_pop_tryPop: "bq_pop q = Some r \<Longrightarrow> bq_tryPop q = r"
  by (auto simp: bq_pop_def bq_tryPop_def split: if_splits)

section \<open>The queue under threads\<close>

text \<open>
  Where a thread is: between calls, before or asleep in the critical section of a blocking call,
  between its unlock and its notification, or in the two broadcasts of \<open>close\<close>.
\<close>

datatype 'a bq_pc =
    Idle
  | Pushing 'a | PushAsleep 'a | PushNotify
  | Popping | PopAsleep | PopNotify 'a
  | Closing | ClosingFull

text \<open>The shared state; \<open>sys_in\<close> and \<open>sys_out\<close> record the items accepted and handed out so far.\<close>

record 'a bq_system =
  sys_q :: "'a bounded_queue"
  sys_pc :: "'a bq_pc list"
  sys_in :: "'a list"
  sys_out :: "'a list"

definition bq_start :: "nat \<Rightarrow> nat \<Rightarrow> 'a bq_system" where
  "bq_start threads capacity =
    \<lparr>sys_q = bq_new capacity, sys_pc = replicate threads Idle, sys_in = [], sys_out = []\<rparr>"

definition at_pc :: "'a bq_system \<Rightarrow> nat \<Rightarrow> 'a bq_pc \<Rightarrow> bool" where
  "at_pc s t pc \<longleftrightarrow> t < length (sys_pc s) \<and> sys_pc s ! t = pc"

definition goto :: "nat \<Rightarrow> 'a bq_pc \<Rightarrow> 'a bq_system \<Rightarrow> 'a bq_system" where
  "goto t pc s = s\<lparr>sys_pc := (sys_pc s)[t := pc]\<rparr>"

text \<open>\<open>notify_one\<close> wakes some sleeper, if there is one; \<open>notify_all\<close> wakes them all.\<close>

inductive wake_pop :: "'a bq_system \<Rightarrow> 'a bq_system \<Rightarrow> bool" where
  "at_pc s t PopAsleep \<Longrightarrow> wake_pop s (goto t Popping s)"
| "PopAsleep \<notin> set (sys_pc s) \<Longrightarrow> wake_pop s s"

inductive wake_push :: "'a bq_system \<Rightarrow> 'a bq_system \<Rightarrow> bool" where
  "at_pc s t (PushAsleep x) \<Longrightarrow> wake_push s (goto t (Pushing x) s)"
| "\<forall>x. PushAsleep x \<notin> set (sys_pc s) \<Longrightarrow> wake_push s s"

definition wake_all_pop :: "'a bq_system \<Rightarrow> 'a bq_system" where
  "wake_all_pop s = s\<lparr>sys_pc := map (\<lambda>pc. case pc of PopAsleep \<Rightarrow> Popping | _ \<Rightarrow> pc) (sys_pc s)\<rparr>"

definition wake_all_push :: "'a bq_system \<Rightarrow> 'a bq_system" where
  "wake_all_push s = s\<lparr>sys_pc := map (\<lambda>pc. case pc of PushAsleep x \<Rightarrow> Pushing x | _ \<Rightarrow> pc) (sys_pc s)\<rparr>"

inductive bq_step :: "'a bq_system \<Rightarrow> 'a bq_system \<Rightarrow> bool" where
  call_push: "at_pc s t Idle \<Longrightarrow> bq_step s (goto t (Pushing x) s)"
| push_wait: "at_pc s t (Pushing x) \<Longrightarrow> bq_push (sys_q s) x = None \<Longrightarrow> bq_step s (goto t (PushAsleep x) s)"
| push_shut: "at_pc s t (Pushing x) \<Longrightarrow> bq_push (sys_q s) x = Some (False, q) \<Longrightarrow>
    bq_step s (goto t Idle (s\<lparr>sys_q := q\<rparr>))"
| push_done: "at_pc s t (Pushing x) \<Longrightarrow> bq_push (sys_q s) x = Some (True, q) \<Longrightarrow>
    bq_step s (goto t PushNotify (s\<lparr>sys_q := q, sys_in := sys_in s @ [x]\<rparr>))"
| push_notify: "at_pc s t PushNotify \<Longrightarrow> wake_pop (goto t Idle s) s' \<Longrightarrow> bq_step s s'"
| try_push_ok: "at_pc s t Idle \<Longrightarrow> bq_tryPush (sys_q s) x = (True, q) \<Longrightarrow>
    wake_pop (s\<lparr>sys_q := q, sys_in := sys_in s @ [x]\<rparr>) s' \<Longrightarrow> bq_step s s'"
| try_push_no: "at_pc s t Idle \<Longrightarrow> bq_tryPush (sys_q s) x = (False, q) \<Longrightarrow> bq_step s (s\<lparr>sys_q := q\<rparr>)"
| call_pop: "at_pc s t Idle \<Longrightarrow> bq_step s (goto t Popping s)"
| pop_wait: "at_pc s t Popping \<Longrightarrow> bq_pop (sys_q s) = None \<Longrightarrow> bq_step s (goto t PopAsleep s)"
| pop_shut: "at_pc s t Popping \<Longrightarrow> bq_pop (sys_q s) = Some (None, q) \<Longrightarrow>
    bq_step s (goto t Idle (s\<lparr>sys_q := q\<rparr>))"
| pop_done: "at_pc s t Popping \<Longrightarrow> bq_pop (sys_q s) = Some (Some x, q) \<Longrightarrow>
    bq_step s (goto t (PopNotify x) (s\<lparr>sys_q := q, sys_out := sys_out s @ [x]\<rparr>))"
| pop_notify: "at_pc s t (PopNotify x) \<Longrightarrow> wake_push (goto t Idle s) s' \<Longrightarrow> bq_step s s'"
| try_pop_ok: "at_pc s t Idle \<Longrightarrow> bq_tryPop (sys_q s) = (Some x, q) \<Longrightarrow>
    wake_push (s\<lparr>sys_q := q, sys_out := sys_out s @ [x]\<rparr>) s' \<Longrightarrow> bq_step s s'"
| try_pop_no: "at_pc s t Idle \<Longrightarrow> bq_tryPop (sys_q s) = (None, q) \<Longrightarrow> bq_step s (s\<lparr>sys_q := q\<rparr>)"
| close_set: "at_pc s t Idle \<Longrightarrow> bq_step s (goto t Closing (s\<lparr>sys_q := bq_close (sys_q s)\<rparr>))"
| close_notEmpty: "at_pc s t Closing \<Longrightarrow> bq_step s (goto t ClosingFull (wake_all_pop s))"
| close_notFull: "at_pc s t ClosingFull \<Longrightarrow> bq_step s (goto t Idle (wake_all_push s))"
| spurious_pop: "at_pc s t PopAsleep \<Longrightarrow> bq_step s (goto t Popping s)"
| spurious_push: "at_pc s t (PushAsleep x) \<Longrightarrow> bq_step s (goto t (Pushing x) s)"

inductive_cases wake_popE: "wake_pop s s'"
inductive_cases wake_pushE: "wake_push s s'"

section \<open>Counting threads\<close>

definition cnt :: "('a bq_pc \<Rightarrow> bool) \<Rightarrow> 'a bq_system \<Rightarrow> nat" where
  "cnt P s = length (filter P (sys_pc s))"

fun pushing :: "'a bq_pc \<Rightarrow> bool" where "pushing (Pushing x) = True" | "pushing _ = False"
fun push_asleep :: "'a bq_pc \<Rightarrow> bool" where "push_asleep (PushAsleep x) = True" | "push_asleep _ = False"
fun pop_notify :: "'a bq_pc \<Rightarrow> bool" where "pop_notify (PopNotify x) = True" | "pop_notify _ = False"
fun popping :: "'a bq_pc \<Rightarrow> bool" where "popping Popping = True" | "popping _ = False"
fun pop_asleep :: "'a bq_pc \<Rightarrow> bool" where "pop_asleep PopAsleep = True" | "pop_asleep _ = False"
fun push_notify :: "'a bq_pc \<Rightarrow> bool" where "push_notify PushNotify = True" | "push_notify _ = False"
fun closing :: "'a bq_pc \<Rightarrow> bool" where "closing Closing = True" | "closing _ = False"
fun closing_full :: "'a bq_pc \<Rightarrow> bool" where "closing_full ClosingFull = True" | "closing_full _ = False"

lemma length_filter_update:
  "t < length xs \<Longrightarrow> length (filter P (xs[t := y])) + of_bool (P (xs ! t)) = length (filter P xs) + of_bool (P y)"
proof (induction xs arbitrary: t)
  case (Cons x xs)
  then show ?case using Cons.IH [of "t - 1"] by (cases t) auto
qed simp

lemma cnt_goto: "at_pc s t pc \<Longrightarrow> cnt P (goto t pc' s) + of_bool (P pc) = cnt P s + of_bool (P pc')"
  using length_filter_update [of t "sys_pc s" P pc'] by (auto simp: at_pc_def goto_def cnt_def)

lemma cnt_frame [simp]: "cnt P (s\<lparr>sys_q := q\<rparr>) = cnt P s" "cnt P (s\<lparr>sys_in := i\<rparr>) = cnt P s"
  "cnt P (s\<lparr>sys_out := i\<rparr>) = cnt P s"
  by (simp_all add: cnt_def)

lemma at_pc_frame [simp]: "at_pc (s\<lparr>sys_q := q\<rparr>) t pc = at_pc s t pc"
  "at_pc (s\<lparr>sys_in := i\<rparr>) t pc = at_pc s t pc" "at_pc (s\<lparr>sys_out := i\<rparr>) t pc = at_pc s t pc"
  by (simp_all add: at_pc_def)

lemma goto_frame [simp]: "sys_q (goto t pc s) = sys_q s" "sys_in (goto t pc s) = sys_in s"
  "sys_out (goto t pc s) = sys_out s" "goto t pc (s\<lparr>sys_q := q\<rparr>) = (goto t pc s)\<lparr>sys_q := q\<rparr>"
  "goto t pc (s\<lparr>sys_in := i\<rparr>) = (goto t pc s)\<lparr>sys_in := i\<rparr>"
  "goto t pc (s\<lparr>sys_out := i\<rparr>) = (goto t pc s)\<lparr>sys_out := i\<rparr>"
  by (simp_all add: goto_def)

lemma cnt_0: "cnt P s = 0 \<longleftrightarrow> (\<forall>pc \<in> set (sys_pc s). \<not> P pc)"
  by (auto simp: cnt_def filter_empty_conv)

lemma push_asleep_iff: "push_asleep pc \<longleftrightarrow> (\<exists>x. pc = PushAsleep x)"
  by (cases pc) auto

lemma pop_asleep_iff: "pop_asleep pc \<longleftrightarrow> pc = PopAsleep"
  by (cases pc) auto

lemma cnt_wake_all:
  "cnt P (wake_all_pop s) = length (filter (\<lambda>pc. P (case pc of PopAsleep \<Rightarrow> Popping | _ \<Rightarrow> pc)) (sys_pc s))"
  "cnt P (wake_all_push s) = length (filter (\<lambda>pc. P (case pc of PushAsleep x \<Rightarrow> Pushing x | _ \<Rightarrow> pc)) (sys_pc s))"
  by (simp_all add: cnt_def wake_all_pop_def wake_all_push_def filter_map comp_def)

text \<open>The effect of one thread's move on all the counts the invariant needs.\<close>

lemma cnt_move:
  assumes "at_pc s t pc"
  shows "cnt pop_asleep (goto t pc' s) + of_bool (pop_asleep pc) = cnt pop_asleep s + of_bool (pop_asleep pc')"
    "cnt popping (goto t pc' s) + of_bool (popping pc) = cnt popping s + of_bool (popping pc')"
    "cnt push_notify (goto t pc' s) + of_bool (push_notify pc) = cnt push_notify s + of_bool (push_notify pc')"
    "cnt push_asleep (goto t pc' s) + of_bool (push_asleep pc) = cnt push_asleep s + of_bool (push_asleep pc')"
    "cnt pushing (goto t pc' s) + of_bool (pushing pc) = cnt pushing s + of_bool (pushing pc')"
    "cnt pop_notify (goto t pc' s) + of_bool (pop_notify pc) = cnt pop_notify s + of_bool (pop_notify pc')"
    "cnt closing (goto t pc' s) + of_bool (closing pc) = cnt closing s + of_bool (closing pc')"
    "cnt closing_full (goto t pc' s) + of_bool (closing_full pc) = cnt closing_full s + of_bool (closing_full pc')"
  by (rule cnt_goto [OF assms])+

section \<open>The invariant\<close>

definition pop_wakeups :: "'a bq_system \<Rightarrow> bool" where
  "pop_wakeups s \<longleftrightarrow> cnt pop_asleep s = 0
     \<or> (if bq_closed (sys_q s) then 0 < cnt closing s
        else bq_size (sys_q s) \<le> cnt push_notify s + cnt popping s)"

definition push_wakeups :: "'a bq_system \<Rightarrow> bool" where
  "push_wakeups s \<longleftrightarrow> cnt push_asleep s = 0
     \<or> (if bq_closed (sys_q s) then 0 < cnt closing s + cnt closing_full s
        else bq_capacity (sys_q s) \<le> bq_size (sys_q s) + cnt pop_notify s + cnt pushing s)"

definition sys_inv :: "'a bq_system \<Rightarrow> bool" where
  "sys_inv s \<longleftrightarrow> 1 \<le> bq_capacity (sys_q s) \<and> bq_size (sys_q s) \<le> bq_capacity (sys_q s)
     \<and> sys_in s = sys_out s @ bq_items (sys_q s) \<and> pop_wakeups s \<and> push_wakeups s"

lemma wake_pop_counts:
  assumes "wake_pop s s'"
  shows "sys_q s' = sys_q s" "sys_in s' = sys_in s" "sys_out s' = sys_out s"
    "cnt push_asleep s' = cnt push_asleep s" "cnt pushing s' = cnt pushing s"
    "cnt pop_notify s' = cnt pop_notify s" "cnt closing s' = cnt closing s"
    "cnt closing_full s' = cnt closing_full s" "cnt push_notify s' = cnt push_notify s"
    "cnt pop_asleep s = 0 \<and> cnt pop_asleep s' = 0 \<and> cnt popping s' = cnt popping s
     \<or> cnt pop_asleep s = Suc (cnt pop_asleep s') \<and> cnt popping s' = Suc (cnt popping s)"
  using assms by (cases; use cnt_move [of s _ PopAsleep Popping] in
      \<open>auto simp: cnt_0 pop_asleep_iff\<close>)+

lemma wake_push_counts:
  assumes "wake_push s s'"
  shows "sys_q s' = sys_q s" "sys_in s' = sys_in s" "sys_out s' = sys_out s"
    "cnt pop_asleep s' = cnt pop_asleep s" "cnt popping s' = cnt popping s"
    "cnt pop_notify s' = cnt pop_notify s" "cnt closing s' = cnt closing s"
    "cnt closing_full s' = cnt closing_full s" "cnt push_notify s' = cnt push_notify s"
    "cnt push_asleep s = 0 \<and> cnt push_asleep s' = 0 \<and> cnt pushing s' = cnt pushing s
     \<or> cnt push_asleep s = Suc (cnt push_asleep s') \<and> cnt pushing s' = Suc (cnt pushing s)"
  using assms by (cases; use cnt_move [of s _ "PushAsleep x" "Pushing x" for x] in
      \<open>auto simp: cnt_0 push_asleep_iff\<close>)+

lemma wake_pc:
  "pop_asleep (case pc of PopAsleep \<Rightarrow> Popping | _ \<Rightarrow> pc) = False"
  "push_asleep (case pc of PopAsleep \<Rightarrow> Popping | _ \<Rightarrow> pc) = push_asleep pc"
  "pushing (case pc of PopAsleep \<Rightarrow> Popping | _ \<Rightarrow> pc) = pushing pc"
  "closing (case pc of PopAsleep \<Rightarrow> Popping | _ \<Rightarrow> pc) = closing pc"
  "closing_full (case pc of PopAsleep \<Rightarrow> Popping | _ \<Rightarrow> pc) = closing_full pc"
  "push_notify (case pc of PopAsleep \<Rightarrow> Popping | _ \<Rightarrow> pc) = push_notify pc"
  "pop_notify (case pc of PopAsleep \<Rightarrow> Popping | _ \<Rightarrow> pc) = pop_notify pc"
  "push_asleep (case pc of PushAsleep x \<Rightarrow> Pushing x | _ \<Rightarrow> pc) = False"
  "pop_asleep (case pc of PushAsleep x \<Rightarrow> Pushing x | _ \<Rightarrow> pc) = pop_asleep pc"
  "popping (case pc of PushAsleep x \<Rightarrow> Pushing x | _ \<Rightarrow> pc) = popping pc"
  "closing (case pc of PushAsleep x \<Rightarrow> Pushing x | _ \<Rightarrow> pc) = closing pc"
  "closing_full (case pc of PushAsleep x \<Rightarrow> Pushing x | _ \<Rightarrow> pc) = closing_full pc"
  "push_notify (case pc of PushAsleep x \<Rightarrow> Pushing x | _ \<Rightarrow> pc) = push_notify pc"
  "pop_notify (case pc of PushAsleep x \<Rightarrow> Pushing x | _ \<Rightarrow> pc) = pop_notify pc"
  by (cases pc; simp)+

lemma wake_all_counts:
  "cnt pop_asleep (wake_all_pop s) = 0" "cnt push_asleep (wake_all_pop s) = cnt push_asleep s"
  "cnt closing (wake_all_pop s) = cnt closing s" "cnt closing_full (wake_all_pop s) = cnt closing_full s"
  "cnt push_notify (wake_all_pop s) = cnt push_notify s" "cnt pop_notify (wake_all_pop s) = cnt pop_notify s"
  "cnt pushing (wake_all_pop s) = cnt pushing s"
  "cnt push_asleep (wake_all_push s) = 0" "cnt pop_asleep (wake_all_push s) = cnt pop_asleep s"
  "cnt closing (wake_all_push s) = cnt closing s" "cnt closing_full (wake_all_push s) = cnt closing_full s"
  "cnt push_notify (wake_all_push s) = cnt push_notify s" "cnt pop_notify (wake_all_push s) = cnt pop_notify s"
  "cnt popping (wake_all_push s) = cnt popping s"
  by (simp_all add: cnt_wake_all wake_pc) (simp_all add: cnt_def)

lemma wake_all_frame [simp]:
  "sys_q (wake_all_pop s) = sys_q s" "sys_in (wake_all_pop s) = sys_in s" "sys_out (wake_all_pop s) = sys_out s"
  "sys_q (wake_all_push s) = sys_q s" "sys_in (wake_all_push s) = sys_in s" "sys_out (wake_all_push s) = sys_out s"
  by (simp_all add: wake_all_pop_def wake_all_push_def)

lemma at_pc_wake_all: "at_pc s t Closing \<Longrightarrow> at_pc (wake_all_pop s) t Closing"
  "at_pc s t ClosingFull \<Longrightarrow> at_pc (wake_all_push s) t ClosingFull"
  by (simp_all add: at_pc_def wake_all_pop_def wake_all_push_def)

lemmas queue_defs = bq_push_def bq_tryPush_def bq_pop_def bq_tryPop_def bq_close_def bq_size_def

lemmas inv_defs = sys_inv_def pop_wakeups_def push_wakeups_def

lemma tryPush_effect:
  assumes "bq_tryPush q x = (True, q')"
  shows "bq_items q' = bq_items q @ [x]" "bq_capacity q' = bq_capacity q" "bq_closed q' = bq_closed q"
    "length (bq_items q) < bq_capacity q" "\<not> bq_closed q"
  using assms by (auto simp: queue_defs split: if_splits)

lemma tryPop_effect:
  assumes "bq_tryPop q = (Some x, q')"
  shows "bq_items q = x # bq_items q'" "bq_capacity q' = bq_capacity q" "bq_closed q' = bq_closed q"
  using assms by (auto simp: queue_defs split: if_splits)

lemma bq_step_inv: "bq_step s s' \<Longrightarrow> sys_inv s \<Longrightarrow> sys_inv s'"
proof (induction rule: bq_step.induct)
  case (call_push s t x)
  then show ?case using cnt_move [OF call_push(1), of "Pushing x"] by (auto simp: inv_defs)
next
  case (push_wait s t x)
  then show ?case using cnt_move [OF push_wait(1), of "PushAsleep x"]
    by (auto simp: inv_defs queue_defs split: if_splits)
next
  case (push_shut s t x q)
  then show ?case using cnt_move [OF push_shut(1), of Idle]
    by (auto simp: inv_defs queue_defs split: if_splits)
next
  case (push_done s t x q)
  then show ?case using cnt_move [OF push_done(1), of PushNotify]
    by (auto simp: inv_defs queue_defs split: if_splits)
next
  case (push_notify s t s')
  then show ?case using cnt_move [OF push_notify(1), of Idle] wake_pop_counts [OF push_notify(2)]
    by (auto simp: inv_defs)
next
  case (try_push_ok s t x q s')
  then show ?case using wake_pop_counts [OF try_push_ok(3)] tryPush_effect [OF try_push_ok(2)]
    by (auto simp: inv_defs bq_size_def)
next
  case (try_push_no s t x q)
  then show ?case by (auto simp: inv_defs queue_defs split: if_splits)
next
  case (call_pop s t)
  then show ?case using cnt_move [OF call_pop(1), of Popping] by (auto simp: inv_defs)
next
  case (pop_wait s t)
  then show ?case using cnt_move [OF pop_wait(1), of PopAsleep]
    by (auto simp: inv_defs queue_defs split: if_splits)
next
  case (pop_shut s t q)
  then show ?case using cnt_move [OF pop_shut(1), of Idle]
    by (auto simp: inv_defs queue_defs split: if_splits)
next
  case (pop_done s t x q)
  then show ?case using cnt_move [OF pop_done(1), of "PopNotify x"]
    by (auto simp: inv_defs queue_defs split: if_splits)
next
  case (pop_notify s t x s')
  then show ?case using cnt_move [OF pop_notify(1), of Idle] wake_push_counts [OF pop_notify(2)]
    by (auto simp: inv_defs)
next
  case (try_pop_ok s t x q s')
  then show ?case using wake_push_counts [OF try_pop_ok(3)] tryPop_effect [OF try_pop_ok(2)]
    by (auto simp: inv_defs bq_size_def)
next
  case (try_pop_no s t q)
  then show ?case by (auto simp: inv_defs queue_defs split: if_splits)
next
  case (close_set s t)
  then show ?case using cnt_move [OF close_set(1), of Closing]
    by (auto simp: inv_defs queue_defs split: if_splits)
next
  case (close_notEmpty s t)
  then show ?case using cnt_move [OF at_pc_wake_all(1) [OF close_notEmpty(1)], of ClosingFull]
    by (auto simp: inv_defs wake_all_counts split: if_splits)
next
  case (close_notFull s t)
  then show ?case using cnt_move [OF at_pc_wake_all(2) [OF close_notFull(1)], of Idle]
    by (auto simp: inv_defs wake_all_counts split: if_splits)
next
  case (spurious_pop s t)
  then show ?case using cnt_move [OF spurious_pop(1), of Popping] by (auto simp: inv_defs split: if_splits)
next
  case (spurious_push s t x)
  then show ?case using cnt_move [OF spurious_push(1), of "Pushing x"] by (auto simp: inv_defs split: if_splits)
qed

lemma bq_start_inv: "sys_inv (bq_start threads capacity)"
  by (simp add: inv_defs bq_start_def bq_new_def bq_size_def cnt_0)

lemma bq_reachable_inv: "bq_step\<^sup>*\<^sup>* (bq_start threads capacity) s \<Longrightarrow> sys_inv s"
  by (induction rule: rtranclp_induct) (auto intro: bq_start_inv bq_step_inv)

text \<open>No thread can run except by starting a new call or by a spurious wake-up.\<close>

definition quiescent :: "'a bq_system \<Rightarrow> bool" where
  "quiescent s \<longleftrightarrow> (\<forall>pc \<in> set (sys_pc s). pc = Idle \<or> pc = PopAsleep \<or> push_asleep pc)"

lemma quiescent_counts:
  "quiescent s \<Longrightarrow> cnt closing s = 0 \<and> cnt closing_full s = 0 \<and> cnt push_notify s = 0
     \<and> cnt pop_notify s = 0 \<and> cnt popping s = 0 \<and> cnt pushing s = 0"
  by (auto simp: quiescent_def cnt_0 push_asleep_iff)

section \<open>Properties\<close>

text \<open>Seen through its methods the queue is first-in first-out and bounded: over any sequence of
pushes, pops and closes of a fresh queue, what was handed out followed by what is left is exactly
what was accepted, in order, and never more than the capacity is left.\<close>

theorem bq_fifo:
  assumes "bq.run (bq_new c) es = (q, ins, outs)"
  shows "ins = outs @ bq_items q \<and> bq_size q \<le> max 1 c"
  using bq.fifo [OF assms] bq.capacity [OF _ assms]
  by (simp add: bq_new_def bq_size_def split: if_splits)

theorem bq_fifo_witness:
  "[7, 8] = [7] @ bq_items \<lparr>bq_items = [8 :: nat], bq_capacity = 2, bq_closed = True\<rparr>
   \<and> bq_size \<lparr>bq_items = [8 :: nat], bq_capacity = 2, bq_closed = True\<rparr> \<le> max 1 2"
  by (rule bq_fifo [of 2 "[QPop, QPush 7, QPush 8, QPush 9, QPop, QClose, QPush 1]"])
    (simp add: bq_new_def queue_defs)

text \<open>C26. Under any interleaving of any number of threads (spurious wake-ups included) the queue stays
within its capacity and first-in first-out: the items handed out, in order, are a prefix of the items
accepted, and the rest is still in the queue.\<close>

theorem bq_threads_fifo:
  assumes "bq_step\<^sup>*\<^sup>* (bq_start threads capacity) s"
  shows "sys_in s = sys_out s @ bq_items (sys_q s) \<and> bq_size (sys_q s) \<le> bq_capacity (sys_q s)"
  using bq_reachable_inv [OF assms] by (simp add: sys_inv_def)

theorem bq_threads_fifo_witness:
  "let s = \<lparr>sys_q = \<lparr>bq_items = [5 :: nat], bq_capacity = 1, bq_closed = False\<rparr>, sys_pc = [Idle], sys_in = [5], sys_out = []\<rparr>
   in sys_in s = sys_out s @ bq_items (sys_q s) \<and> bq_size (sys_q s) \<le> bq_capacity (sys_q s)"
  unfolding Let_def
proof (rule bq_threads_fifo [of 1 1], rule r_into_rtranclp, rule try_push_ok [of _ 0 5])
  show "wake_pop (bq_start 1 1\<lparr>sys_q := \<lparr>bq_items = [5 :: nat], bq_capacity = 1, bq_closed = False\<rparr>,
      sys_in := sys_in (bq_start 1 1) @ [5]\<rparr>)
    \<lparr>sys_q = \<lparr>bq_items = [5], bq_capacity = 1, bq_closed = False\<rparr>, sys_pc = [Idle], sys_in = [5], sys_out = []\<rparr>"
    using wake_pop.intros(2) [of "bq_start 1 1\<lparr>sys_q := \<lparr>bq_items = [5 :: nat], bq_capacity = 1, bq_closed = False\<rparr>,
      sys_in := [5]\<rparr>"] by (simp add: bq_start_def)
qed (simp_all add: bq_start_def at_pc_def bq_new_def queue_defs)

text \<open>C9. No wake-up is lost: in every reachable state where no thread can move by itself, a consumer
sleeps only on an empty open queue and a producer only on a full open one; so no item waits beside a
sleeping consumer, producers and consumers are never both asleep, and after \<open>close\<close> nobody is.\<close>

theorem bq_no_lost_wakeup:
  assumes "bq_step\<^sup>*\<^sup>* (bq_start threads capacity) s" and "quiescent s"
  shows "(PopAsleep \<in> set (sys_pc s) \<longrightarrow> bq_items (sys_q s) = [] \<and> \<not> bq_closed (sys_q s))
    \<and> (PushAsleep x \<in> set (sys_pc s) \<longrightarrow>
        bq_size (sys_q s) = bq_capacity (sys_q s) \<and> \<not> bq_closed (sys_q s) \<and> PopAsleep \<notin> set (sys_pc s))"
proof -
  note inv = bq_reachable_inv [OF assms(1)]
  have "PopAsleep \<in> set (sys_pc s) \<Longrightarrow> cnt pop_asleep s \<noteq> 0" by (auto simp: cnt_0 intro!: bexI [of _ PopAsleep])
  moreover have "PushAsleep x \<in> set (sys_pc s) \<Longrightarrow> cnt push_asleep s \<noteq> 0"
    by (auto simp: cnt_0 intro!: bexI [of _ "PushAsleep x"])
  ultimately show ?thesis
    using inv quiescent_counts [OF assms(2)] by (auto simp: inv_defs bq_size_def split: if_splits)
qed

theorem bq_no_lost_wakeup_witness:
  "let s = \<lparr>sys_q = \<lparr>bq_items = [] :: nat list, bq_capacity = 1, bq_closed = False\<rparr>, sys_pc = [PopAsleep], sys_in = [], sys_out = []\<rparr>
   in quiescent s \<and> bq_items (sys_q s) = [] \<and> \<not> bq_closed (sys_q s)"
proof -
  let ?s = "\<lparr>sys_q = \<lparr>bq_items = [] :: nat list, bq_capacity = 1, bq_closed = False\<rparr>, sys_pc = [PopAsleep], sys_in = [], sys_out = []\<rparr>"
  have "bq_step (bq_start 1 1) (goto 0 Popping (bq_start 1 1))"
    by (rule call_pop [of _ 0]) (simp add: bq_start_def at_pc_def)
  moreover have "bq_step (goto 0 Popping (bq_start 1 1)) ?s"
    using pop_wait [of "goto 0 Popping (bq_start 1 1)" 0]
    by (simp add: bq_start_def goto_def at_pc_def bq_new_def queue_defs)
  ultimately have r: "bq_step\<^sup>*\<^sup>* (bq_start 1 1) ?s" by (meson converse_rtranclp_into_rtranclp r_into_rtranclp)
  have q: "quiescent ?s" by (simp add: quiescent_def)
  have "PopAsleep \<in> set (sys_pc ?s)" by simp
  then show ?thesis using bq_no_lost_wakeup [OF r q] q unfolding Let_def by blast
qed

end
