(* ===== verification/Cxx_Strings.thy ===== *)
theory Cxx_Strings
  imports Prelude "HOL-Library.Sublist"
begin

text \<open>
  The part of the C and C++ standard libraries that the SIP, SDP and WebSocket code uses on text:
  \<open>std::string::find\<close>, \<open>rfind\<close>, \<open>substr\<close>, \<open>std::to_string\<close>, \<open>strtol\<close>, \<open>strtoull\<close>, \<open>atoi\<close>,
  \<open>std::getline\<close>, \<open>operator>>\<close>, the classifications of \<open><cctype>\<close> in the C locale, and the
  \<open>trim\<close> and \<open>toLower\<close> helpers that src/src/sip/SipParser.cpp and src/src/sip/Sdp.cpp each define.

  A string is a list of characters (bytes); \<open>npos\<close> is \<open>None\<close>. \<open>substr\<close> is only called with a
  position inside the string in this code, so its exception has no model. \<open>long\<close> is 64 bits wide
  (LP64), and no proof uses more of \<open>long_max\<close> than that it is at least \<open>2^31 - 1\<close>. \<open>atoi\<close> is
  \<open>strtol\<close> cast to \<open>int\<close>, as the C libraries implement it.
\<close>

section \<open>Characters\<close>

definition is_space :: "char \<Rightarrow> bool" where
  "is_space c \<longleftrightarrow> c \<in> {CHR '' '', CHR 0x09, CHR 0x0A, CHR 0x0B, CHR 0x0C, CHR 0x0D}"

definition is_ws :: "char \<Rightarrow> bool" where
  "is_ws c \<longleftrightarrow> c = CHR '' '' \<or> c = CHR 0x09 \<or> c = CHR 0x0D \<or> c = CHR 0x0A"

definition is_digit :: "char \<Rightarrow> bool" where
  "is_digit c \<longleftrightarrow> 48 \<le> (of_char c :: nat) \<and> (of_char c :: nat) \<le> 57"

definition lower :: "char \<Rightarrow> char" where
  "lower c = (if 65 \<le> (of_char c :: nat) \<and> (of_char c :: nat) \<le> 90 then char_of ((of_char c :: nat) + 32) else c)"

definition toLower :: "string \<Rightarrow> string" where
  "toLower s = map lower s"

definition trim :: "string \<Rightarrow> string" where
  "trim s = rev (dropWhile is_ws (rev (dropWhile is_ws s)))"

section \<open>Searching\<close>

fun find_in :: "string \<Rightarrow> string \<Rightarrow> nat option" where
  "find_in pat [] = (if pat = [] then Some 0 else None)"
| "find_in pat (c # cs) = (if prefix pat (c # cs) then Some 0 else map_option Suc (find_in pat cs))"

definition find_str :: "string \<Rightarrow> string \<Rightarrow> nat \<Rightarrow> nat option" where
  "find_str pat s pos = (if pos \<le> length s then map_option ((+) pos) (find_in pat (drop pos s)) else None)"

definition find_char :: "char \<Rightarrow> string \<Rightarrow> nat \<Rightarrow> nat option" where
  "find_char c s pos = find_str [c] s pos"

definition rfind_char :: "char \<Rightarrow> string \<Rightarrow> nat option" where
  "rfind_char c s = map_option (\<lambda>k. length s - Suc k) (find_in [c] (rev s))"

definition substr :: "string \<Rightarrow> nat \<Rightarrow> nat \<Rightarrow> string" where
  "substr s pos n = take n (drop pos s)"

definition starts_with :: "string \<Rightarrow> string \<Rightarrow> bool" where
  "starts_with pat s = prefix pat s"

section \<open>Numbers\<close>

definition digit_char :: "nat \<Rightarrow> char" where
  "digit_char d = char_of (48 + d)"

definition digit_value :: "char \<Rightarrow> nat" where
  "digit_value c = of_char c - 48"

fun to_dec :: "nat \<Rightarrow> string" where
  "to_dec n = (if n < 10 then [digit_char n] else to_dec (n div 10) @ [digit_char (n mod 10)])"

declare to_dec.simps [simp del]

definition to_string :: "int \<Rightarrow> string" where
  "to_string i = (if i < 0 then CHR ''-'' # to_dec (nat (- i)) else to_dec (nat i))"

definition dec_value :: "string \<Rightarrow> nat" where
  "dec_value ds = foldl (\<lambda>v c. 10 * v + digit_value c) 0 ds"

definition long_max :: int where
  "long_max = 2 ^ 63 - 1"

definition sign_split :: "string \<Rightarrow> bool \<times> string" where
  "sign_split s = (case s of [] \<Rightarrow> (False, [])
     | c # r \<Rightarrow> if c = CHR ''-'' then (True, r) else if c = CHR ''+'' then (False, r) else (False, s))"

text \<open>The value, and whether any digit was read (\<open>end\<close> moved).\<close>

definition strtol :: "string \<Rightarrow> int \<times> bool" where
  "strtol s =
    (let (neg, r) = sign_split (dropWhile is_space s);
         ds = takeWhile is_digit r;
         v = (if neg then - int (dec_value ds) else int (dec_value ds))
     in if ds = [] then (0, False)
        else (max (- long_max - 1) (min long_max v), True))"

definition int32 :: "int \<Rightarrow> int" where
  "int32 x = sint (word_of_int x :: u32)"

definition atoi :: "string \<Rightarrow> int" where
  "atoi s = int32 (fst (strtol s))"

definition strtoull :: "string \<Rightarrow> u64" where
  "strtoull s =
    (let (neg, r) = sign_split (dropWhile is_space s);
         ds = takeWhile is_digit r;
         v = int (dec_value ds)
     in if v > 2 ^ 64 - 1 then - 1 else if neg then - word_of_int v else word_of_int v)"

section \<open>Streams\<close>

text \<open>\<open>std::getline\<close> until the stream fails: a last line without newline counts, an empty one does not.\<close>

fun getlines :: "string \<Rightarrow> string \<Rightarrow> string list" where
  "getlines acc [] = (if acc = [] then [] else [acc])"
| "getlines acc (c # cs) = (if c = CHR 0x0A then acc # getlines [] cs else getlines (acc @ [c]) cs)"

text \<open>\<open>iss >> tok\<close> until the stream fails.\<close>

function tokenize :: "string \<Rightarrow> string list" where
  "tokenize s =
    (let r = dropWhile is_space s
     in if r = [] then []
        else takeWhile (\<lambda>c. \<not> is_space c) r # tokenize (dropWhile (\<lambda>c. \<not> is_space c) r))"
  by pat_completeness auto
termination
proof (relation "measure length")
  fix s :: string and r assume "r = dropWhile is_space s" "r \<noteq> []"
  then have "\<not> is_space (hd r)" "length r \<le> length s"
    by (simp_all add: hd_dropWhile length_dropWhile_le)
  moreover from this \<open>r \<noteq> []\<close> have "length (dropWhile (\<lambda>c. \<not> is_space c) r) < length r"
    by (cases r) (simp_all add: length_dropWhile_le less_Suc_eq_le)
  ultimately show "(dropWhile (\<lambda>c. \<not> is_space c) r, s) \<in> measure length" by simp
qed simp

declare tokenize.simps [simp del]

section \<open>Characters and trimming\<close>

lemma is_ws_space: "is_ws c \<Longrightarrow> is_space c"
  by (auto simp: is_ws_def is_space_def)

lemma digit_char_simps [simp]:
  assumes "d < 10"
  shows "is_digit (digit_char d)" "digit_value (digit_char d) = d"
  using assms by (simp_all add: is_digit_def digit_value_def digit_char_def)

lemma digit_not_space: "is_digit c \<Longrightarrow> \<not> is_space c \<and> \<not> is_ws c \<and> c \<noteq> CHR ''-'' \<and> c \<noteq> CHR ''+''"
  by (auto simp: is_digit_def is_space_def is_ws_def)

lemma lower_lower [simp]: "lower (lower c) = lower c"
  by (simp add: lower_def)

definition trimmed :: "string \<Rightarrow> bool" where
  "trimmed s \<longleftrightarrow> s = [] \<or> (\<not> is_ws (hd s) \<and> \<not> is_ws (last s))"

lemma dropWhile_stop: "s = [] \<or> \<not> P (hd s) \<Longrightarrow> dropWhile P s = s"
  by (cases s) simp_all

lemma takeWhile_stop [simp]: "c \<notin> set m \<Longrightarrow> takeWhile (\<lambda>x. x \<noteq> c) (m @ c # r) = m"
  by (induction m) auto

lemma trim_trimmed [simp]: "trimmed s \<Longrightarrow> trim s = s"
  using dropWhile_stop [of s is_ws] dropWhile_stop [of "rev s" is_ws]
  by (auto simp: trim_def trimmed_def hd_rev)

lemma trimmed_trim [simp]: "trimmed (trim s)"
proof (cases "trim s = []")
  case False
  let ?a = "dropWhile is_ws s"
  let ?b = "dropWhile is_ws (rev ?a)"
  have b: "?b \<noteq> []" "trim s = rev ?b" using False by (simp_all add: trim_def)
  then have "\<not> is_ws (hd ?b)" by (simp add: hd_dropWhile)
  then have l: "\<not> is_ws (last (trim s))" using b by (simp add: last_rev)
  have "?a \<noteq> []" using b(1) by (metis dropWhile.simps(1) rev.simps(1))
  then have "\<not> is_ws (hd ?a)" by (simp add: hd_dropWhile)
  moreover obtain u where "rev ?a = u @ ?b" by (metis takeWhile_dropWhile_id)
  then have "?a = trim s @ rev u" using b by (metis rev_append rev_rev_ident)
  ultimately have "\<not> is_ws (hd (trim s))" using False by simp
  then show ?thesis using l by (simp add: trimmed_def)
qed (simp add: trimmed_def)

lemma trim_idem [simp]: "trim (trim s) = trim s"
  by simp

lemma trim_pad: "trimmed s \<Longrightarrow> trim (CHR '' '' # s) = s"
  using trim_trimmed [of s] by (simp add: trim_def is_ws_def)

lemma trim_cr: "trimmed s \<Longrightarrow> trim (s @ [CHR 0x0D]) = s"
proof (cases "s = []")
  case False
  assume "trimmed s"
  then have "dropWhile is_ws (s @ [CHR 0x0D]) = s @ [CHR 0x0D]" "dropWhile is_ws (rev s) = rev s"
    using False by (simp_all add: trimmed_def dropWhile_stop hd_rev)
  then show ?thesis by (simp add: trim_def is_ws_def)
qed (simp add: trim_def is_ws_def)

section \<open>Searching\<close>

lemma find_in_Some: "find_in pat s = Some i \<Longrightarrow> prefix pat (drop i s) \<and> i \<le> length s"
  by (induction pat s arbitrary: i rule: find_in.induct) (auto split: if_splits)

lemma find_in_char: "find_in [c] s = (if c \<in> set s then Some (length (takeWhile (\<lambda>x. x \<noteq> c) s)) else None)"
  by (induction s) auto

lemma find_in_char_None [simp]: "find_in [c] s = None \<longleftrightarrow> c \<notin> set s"
  by (simp add: find_in_char)

lemma find_char_at:
  assumes "c \<notin> set mid"
  shows "find_char c (pre @ mid @ c # rest) (length pre) = Some (length pre + length mid)"
  using assms by (simp add: find_char_def find_str_def find_in_char)

lemma find_char_first: "c \<notin> set s \<Longrightarrow> find_char c (s @ c # rest) 0 = Some (length s)"
  using find_char_at [of c s "[]" rest] by simp

lemma find_char_none: "c \<notin> set (drop pos s) \<Longrightarrow> find_char c s pos = None"
  by (simp add: find_char_def find_str_def)

lemma find_char_bound: "find_char c s pos = Some i \<Longrightarrow> pos \<le> i \<and> i < length s \<and> s ! i = c"
  using find_in_Some [of "[c]" "drop pos s" "i - pos"]
  by (auto simp: find_char_def find_str_def prefix_def split: if_splits dest!: find_in_Some)
    (metis Cons_nth_drop_Suc drop_all linorder_not_le list.discI list.inject add.commute)+

lemma rfind_char_last: "c \<notin> set t \<Longrightarrow> rfind_char c (s @ c # t) = Some (length s)"
  by (simp add: rfind_char_def find_in_char)

lemma substr_mid [simp]: "substr (pre @ mid @ rest) (length pre) (length mid) = mid"
  by (simp add: substr_def)

section \<open>Numbers\<close>

lemma to_dec_not_Nil [simp]: "to_dec n \<noteq> []"
  by (subst to_dec.simps) simp

lemma to_dec_digits: "c \<in> set (to_dec n) \<Longrightarrow> is_digit c"
  by (induction n rule: to_dec.induct) (subst (asm) to_dec.simps, auto split: if_splits)

lemma dec_value_snoc [simp]: "dec_value (ds @ [c]) = 10 * dec_value ds + digit_value c"
  by (simp add: dec_value_def)

lemma dec_value_to_dec [simp]: "dec_value (to_dec n) = n"
proof (induction n rule: to_dec.induct)
  case (1 n)
  then show ?case
    by (subst to_dec.simps) (auto simp: dec_value_def [of "[_]"])
qed

lemma long_max_ge: "2 ^ 31 - 1 \<le> long_max"
  by (simp add: long_max_def)

lemma number_prefix:
  assumes "rest = [] \<or> \<not> is_digit (hd rest)"
  shows "takeWhile is_digit (to_dec n @ rest) = to_dec n" "dropWhile is_space (to_dec n @ rest) = to_dec n @ rest"
    "sign_split (to_dec n @ rest) = (False, to_dec n @ rest)"
proof -
  show "takeWhile is_digit (to_dec n @ rest) = to_dec n"
    using assms by (cases rest) (simp_all add: to_dec_digits takeWhile_append2 takeWhile_tail)
  obtain c cs where c: "to_dec n = c # cs" by (cases "to_dec n") simp_all
  then have "is_digit c" using to_dec_digits [of c n] by simp
  then show "dropWhile is_space (to_dec n @ rest) = to_dec n @ rest"
    "sign_split (to_dec n @ rest) = (False, to_dec n @ rest)"
    using digit_not_space [of c] by (simp_all add: c sign_split_def)
qed

lemma strtol_to_dec:
  assumes "int n \<le> long_max" "rest = [] \<or> \<not> is_digit (hd rest)"
  shows "strtol (to_dec n @ rest) = (int n, True)"
  using assms(1) long_max_ge by (simp add: strtol_def number_prefix [OF assms(2)])

lemma strtol_to_string:
  assumes "- long_max - 1 \<le> i" "i \<le> long_max" "rest = [] \<or> \<not> is_digit (hd rest)"
  shows "strtol (to_string i @ rest) = (i, True)"
proof (cases "i < 0")
  case True
  have "dropWhile is_space (CHR ''-'' # xs) = CHR ''-'' # xs" for xs by (simp add: is_space_def)
  then show ?thesis using assms True number_prefix [OF assms(3)] long_max_ge
    by (simp add: to_string_def strtol_def sign_split_def)
next
  case False
  then show ?thesis using assms strtol_to_dec [of "nat i" rest] by (simp add: to_string_def)
qed

lemma int32_id: "- (2 ^ 31) \<le> i \<Longrightarrow> i < 2 ^ 31 \<Longrightarrow> int32 i = i"
  by (simp add: int32_def sint_sbintrunc' signed_take_bit_int_eq_self)

lemma atoi_to_string:
  assumes "- (2 ^ 31) \<le> i" "i < 2 ^ 31"
  shows "atoi (to_string i) = i"
  using assms long_max_ge strtol_to_string [of i "[]"] by (simp add: atoi_def int32_id)

lemma strtoull_to_dec: "strtoull (to_dec (unat (w :: u64))) = w"
proof -
  have "int (unat w) < 2 ^ 64" using uint_lt2p [of w] by (simp only: of_nat_unat) simp
  then have "\<not> int (unat w) > 2 ^ 64 - 1" by simp
  moreover have "word_of_int (int (unat w)) = w" by simp
  ultimately show ?thesis using number_prefix [of "[]" "unat w"]
    unfolding strtoull_def Let_def by (simp only: append_Nil2 simp_thms prod.case dec_value_to_dec to_dec_not_Nil if_False)
qed

section \<open>Lines and tokens\<close>

lemma getlines_line: "CHR 0x0A \<notin> set l \<Longrightarrow> getlines acc (l @ CHR 0x0A # rest) = (acc @ l) # getlines [] rest"
  by (induction l arbitrary: acc) auto

lemma getlines_lines:
  "\<forall>l \<in> set ls. CHR 0x0A \<notin> set l \<Longrightarrow> getlines [] (concat (map (\<lambda>l. l @ [CHR 0x0A]) ls)) = ls"
proof (induction ls)
  case (Cons l ls)
  then show ?case using getlines_line [of l "[]" "concat (map (\<lambda>l. l @ [CHR 0x0A]) ls)"] by simp
qed simp

definition token :: "string \<Rightarrow> bool" where
  "token s \<longleftrightarrow> s \<noteq> [] \<and> (\<forall>c \<in> set s. \<not> is_space c)"

lemma tokenize_Nil [simp]: "tokenize [] = []"
  by (simp add: tokenize.simps)

lemma tokenize_token: "token t \<Longrightarrow> tokenize t = [t]"
proof -
  assume t: "token t"
  then have "takeWhile (\<lambda>c. \<not> is_space c) t = t" "dropWhile (\<lambda>c. \<not> is_space c) t = []"
    "dropWhile is_space t = t" "t \<noteq> []"
    by (simp_all add: token_def takeWhile_eq_all_conv dropWhile_eq_Nil_conv dropWhile_stop)
  then show ?thesis
    by (subst tokenize.simps) (simp add: Let_def del: dropWhile_eq_Nil_conv takeWhile_eq_all_conv)
qed

lemma tokenize_Cons: "token t \<Longrightarrow> tokenize (t @ CHR '' '' # rest) = t # tokenize rest"
proof -
  assume t: "token t"
  have sp: "is_space (CHR '' '')" by (simp add: is_space_def)
  have "dropWhile is_space (t @ CHR '' '' # rest) = t @ CHR '' '' # rest"
    using t by (cases t) (simp_all add: token_def)
  moreover have "takeWhile (\<lambda>c. \<not> is_space c) (t @ CHR '' '' # rest) = t"
    "dropWhile (\<lambda>c. \<not> is_space c) (t @ CHR '' '' # rest) = CHR '' '' # rest"
    using t sp by (simp_all add: token_def takeWhile_append2 dropWhile_append2)
  moreover have "tokenize (CHR '' '' # rest) = tokenize rest"
    by (subst (1 2) tokenize.simps) (simp add: sp)
  ultimately show ?thesis by (subst tokenize.simps) (simp add: Let_def)
qed

lemma to_dec_token: "token (to_dec n)"
  using to_dec_digits digit_not_space by (auto simp: token_def)

lemma to_string_token: "token (to_string i)"
  using to_dec_token [of "nat (- i)"] to_dec_token [of "nat i"]
  by (auto simp: to_string_def token_def is_space_def)

lemma tokenize_tokens: "t \<in> set (tokenize s) \<Longrightarrow> token t"
proof (induction s rule: tokenize.induct)
  case (1 s)
  let ?r = "dropWhile is_space s"
  show ?case
  proof (cases "?r = []")
    case False
    then have "\<not> is_space (hd ?r)" by (simp add: hd_dropWhile)
    then have "token (takeWhile (\<lambda>c. \<not> is_space c) ?r)"
      using False by (cases ?r) (auto simp: token_def dest: set_takeWhileD)
    moreover have "tokenize s = takeWhile (\<lambda>c. \<not> is_space c) ?r # tokenize (dropWhile (\<lambda>c. \<not> is_space c) ?r)"
      using False by (subst tokenize.simps) (simp add: Let_def del: dropWhile_eq_Nil_conv)
    ultimately show ?thesis using 1(1) [OF refl False] 1(2) by auto
  next
    case True
    then have "tokenize s = []" by (subst tokenize.simps) simp
    then show ?thesis using 1(2) by simp
  qed
qed

lemma tokenize_join:
  "token t \<Longrightarrow> list_all token ts \<Longrightarrow> tokenize (t @ concat (map (\<lambda>t. CHR '' '' # t) ts)) = t # ts"
proof (induction ts arbitrary: t)
  case (Cons u ts)
  then show ?case using tokenize_Cons [of t "u @ concat (map (\<lambda>t. CHR '' '' # t) ts)"] by simp
qed (simp add: tokenize_token)

lemma int32_bounds: "- (2 ^ 31) \<le> int32 x" "int32 x < 2 ^ 31"
  using sint_greater_eq [of "word_of_int x :: u32"] sint_lt [of "word_of_int x :: u32"] by (simp_all add: int32_def)

end
