(* ===== verification/Sip_Message.thy ===== *)
theory Sip_Message
  imports Cxx_Strings
begin

text \<open>
  SIP messages: the struct of src/include/sipdemo/SipMessage.h and its header operations and
  \<open>serialize\<close> from src/src/sip/SipParser.cpp. Headers are an ordered list of name and value, looked
  up without regard to case; \<open>header_store\<close> is the contract of those operations that the user agent
  builds its responses on.
\<close>

section \<open>Definitions\<close>

type_synonym header = "string \<times> string"

record sip_message =
  isRequest :: bool
  sip_method :: string
  requestUri :: string
  statusCode :: int
  reasonPhrase :: string
  sip_version :: string
  sip_headers :: "header list"
  sip_body :: string

definition sip_message_init :: sip_message where
  "sip_message_init = \<lparr>isRequest = True, sip_method = [], requestUri = [], statusCode = 0,
     reasonPhrase = [], sip_version = ''SIP/2.0'', sip_headers = [], sip_body = []\<rparr>"

definition iequals :: "string \<Rightarrow> string \<Rightarrow> bool" where
  "iequals a b \<longleftrightarrow> length a = length b \<and> list_all (\<lambda>(x, y). lower x = lower y) (zip a b)"

definition sip_get :: "sip_message \<Rightarrow> string \<Rightarrow> string option" where
  "sip_get m name = map_option snd (find (\<lambda>h. iequals (fst h) name) (sip_headers m))"

definition sip_getAll :: "sip_message \<Rightarrow> string \<Rightarrow> string list" where
  "sip_getAll m name = map snd (filter (\<lambda>h. iequals (fst h) name) (sip_headers m))"

definition sip_has :: "sip_message \<Rightarrow> string \<Rightarrow> bool" where
  "sip_has m name \<longleftrightarrow> sip_get m name \<noteq> None"

definition sip_remove :: "sip_message \<Rightarrow> string \<Rightarrow> sip_message" where
  "sip_remove m name = m\<lparr>sip_headers := filter (\<lambda>h. \<not> iequals (fst h) name) (sip_headers m)\<rparr>"

definition sip_set :: "sip_message \<Rightarrow> string \<Rightarrow> string \<Rightarrow> sip_message" where
  "sip_set m name v = (let m1 = sip_remove m name in m1\<lparr>sip_headers := sip_headers m1 @ [(name, v)]\<rparr>)"

definition sip_add :: "sip_message \<Rightarrow> string \<Rightarrow> string \<Rightarrow> sip_message" where
  "sip_add m name v = m\<lparr>sip_headers := sip_headers m @ [(name, v)]\<rparr>"

definition CRLF :: string where
  "CRLF = [CHR 0x0D, CHR 0x0A]"

definition header_line :: "header \<Rightarrow> string" where
  "header_line h = fst h @ '': '' @ snd h @ CRLF"

definition start_line :: "sip_message \<Rightarrow> string" where
  "start_line m =
    (if isRequest m then sip_method m @ '' '' @ requestUri m @ '' '' @ sip_version m
     else sip_version m @ '' '' @ to_string (statusCode m) @ '' '' @ reasonPhrase m)"

definition serialize :: "sip_message \<Rightarrow> string" where
  "serialize m =
    (let out = start_line m @ CRLF;
         out = foldl (\<lambda>out h. if iequals (fst h) ''Content-Length'' then out else out @ header_line h)
                 out (sip_headers m);
         out = out @ ''Content-Length: '' @ to_string (int (length (sip_body m))) @ CRLF
     in out @ CRLF @ sip_body m)"

section \<open>The contract of the header operations\<close>

locale header_store =
  fixes get :: "'m \<Rightarrow> string \<Rightarrow> string option"
    and getAll :: "'m \<Rightarrow> string \<Rightarrow> string list"
    and put :: "'m \<Rightarrow> string \<Rightarrow> string \<Rightarrow> 'm"
    and add :: "'m \<Rightarrow> string \<Rightarrow> string \<Rightarrow> 'm"
    and rem :: "'m \<Rightarrow> string \<Rightarrow> 'm"
    and same :: "string \<Rightarrow> string \<Rightarrow> bool"
  assumes same_equiv: "equivp same"
    and get_first: "get m n = (case getAll m n of [] \<Rightarrow> None | v # _ \<Rightarrow> Some v)"
    and getAll_put: "getAll (put m n v) k = (if same n k then [v] else getAll m k)"
    and getAll_add: "getAll (add m n v) k = (if same n k then getAll m k @ [v] else getAll m k)"
    and getAll_rem: "getAll (rem m n) k = (if same n k then [] else getAll m k)"
    and getAll_same: "same n k \<Longrightarrow> getAll m n = getAll m k"
begin

lemma get_put: "get (put m n v) k = (if same n k then Some v else get m k)"
  by (simp add: get_first getAll_put)

lemma get_add: "get (add m n v) k = (if same n k \<and> get m k = None then Some v else get m k)"
  by (auto simp: get_first getAll_add split: list.splits)

lemma get_rem: "get (rem m n) k = (if same n k then None else get m k)"
  by (simp add: get_first getAll_rem)

lemma get_none: "get m n = None \<longleftrightarrow> getAll m n = []"
  by (simp add: get_first split: list.splits)

lemma get_same: "same n k \<Longrightarrow> get m n = get m k"
  by (simp add: get_first getAll_same [of n k])

text \<open>Adding a stack of headers keeps their order below what is there.\<close>

lemma getAll_adds:
  "getAll (foldl (\<lambda>m v. add m n v) m vs) k = (if same n k then getAll m k @ vs else getAll m k)"
  by (induction vs arbitrary: m) (simp_all add: getAll_add)

lemma get_adds_other: "\<not> same n k \<Longrightarrow> get (foldl (\<lambda>m v. add m n v) m vs) k = get m k"
  by (simp add: get_first getAll_adds)

end

lemma iequals_lower: "iequals a b \<longleftrightarrow> map lower a = map lower b"
proof -
  have "map lower a = map lower b \<longleftrightarrow> list_all2 (\<lambda>x y. lower x = lower y) a b"
    by (simp add: list_eq_iff_nth_eq list_all2_conv_all_nth) auto
  then show ?thesis by (simp add: iequals_def list_all2_iff list_all_iff)
qed

lemma iequals_equivp: "equivp iequals"
  by (rule equivpI) (auto simp: reflp_def symp_def transp_def iequals_lower)

interpretation hs: header_store sip_get sip_getAll sip_set sip_add sip_remove iequals
proof
  show "equivp iequals" by (rule iequals_equivp)
next
  fix m n
  show "sip_get m n = (case sip_getAll m n of [] \<Rightarrow> None | v # _ \<Rightarrow> Some v)"
  proof -
    have "map_option snd (find P xs) = (case map snd (filter P xs) of [] \<Rightarrow> None | v # _ \<Rightarrow> Some v)"
      for P and xs :: "header list" by (induction xs) auto
    then show ?thesis by (simp add: sip_get_def sip_getAll_def)
  qed
qed (auto simp: sip_getAll_def sip_set_def sip_add_def sip_remove_def Let_def iequals_lower
      intro!: arg_cong [of _ _ "map snd"] filter_cong)

lemma sip_frame [simp]:
  "isRequest (sip_set m n v) = isRequest m" "statusCode (sip_set m n v) = statusCode m"
  "reasonPhrase (sip_set m n v) = reasonPhrase m" "sip_version (sip_set m n v) = sip_version m"
  "sip_body (sip_set m n v) = sip_body m" "sip_method (sip_set m n v) = sip_method m"
  "isRequest (sip_add m n v) = isRequest m" "statusCode (sip_add m n v) = statusCode m"
  "reasonPhrase (sip_add m n v) = reasonPhrase m" "sip_version (sip_add m n v) = sip_version m"
  "sip_body (sip_add m n v) = sip_body m" "sip_method (sip_add m n v) = sip_method m"
  "requestUri (sip_set m n v) = requestUri m" "requestUri (sip_add m n v) = requestUri m"
  by (simp_all add: sip_set_def sip_add_def sip_remove_def Let_def)

text \<open>Header access is case-insensitive and order-preserving: \<open>set\<close> leaves exactly one value
under a name and every other name as it was, \<open>add\<close> stacks a value below those of its name, \<open>remove\<close>
takes all of a name's values and nothing else, and \<open>get\<close> is the topmost value, whatever the case in
which the names are written.\<close>

theorem sip_header_laws:
  "sip_getAll (sip_set m n v) k = (if iequals n k then [v] else sip_getAll m k)
   \<and> sip_getAll (sip_add m n v) k = (if iequals n k then sip_getAll m k @ [v] else sip_getAll m k)
   \<and> sip_getAll (sip_remove m n) k = (if iequals n k then [] else sip_getAll m k)
   \<and> sip_get (sip_set m n v) k = (if iequals n k then Some v else sip_get m k)
   \<and> sip_get (sip_remove m n) k = (if iequals n k then None else sip_get m k)
   \<and> sip_get m (map lower n) = sip_get m n"
  using hs.getAll_put hs.getAll_add hs.getAll_rem hs.get_put hs.get_rem hs.get_same [of "map lower n" n m]
  by (simp add: iequals_lower comp_def)

end
