(* ===== verification/Sip_Parser.thy ===== *)
theory Sip_Parser
  imports Sip_Message
begin

text \<open>
  The SIP parser of src/src/sip/SipParser.cpp: \<open>splitLines\<close>, \<open>parseSip\<close>, \<open>headerParam\<close> and
  \<open>parseCSeq\<close>. The lemmas show that what \<open>serialize\<close> writes parses back, and that what the parser
  accepts can be serialised and parsed again.
\<close>

section \<open>Definitions\<close>

lemma find_str_bounds: "find_str pat s pos = Some i \<Longrightarrow> pos \<le> i \<and> i \<le> length s"
  by (auto simp: find_str_def split: if_splits dest!: find_in_Some)

text \<open>The end of the line at \<open>pos\<close>.\<close>

definition line_end :: "string \<Rightarrow> nat \<Rightarrow> nat \<Rightarrow> nat" where
  "line_end raw headerEnd pos =
    (case find_str CRLF raw pos of
       None \<Rightarrow> headerEnd
     | Some nl \<Rightarrow> if nl > headerEnd then headerEnd else nl)"

lemma line_end_ge: "pos < headerEnd \<Longrightarrow> pos \<le> line_end raw headerEnd pos"
  by (auto simp: line_end_def dest: find_str_bounds split: option.splits)

function splitLines_from :: "string \<Rightarrow> nat \<Rightarrow> nat \<Rightarrow> string list" where
  "splitLines_from raw headerEnd pos =
    (if pos < headerEnd then
       (let nl = line_end raw headerEnd pos
        in substr raw pos (nl - pos) # splitLines_from raw headerEnd (nl + 2))
     else [])"
  by pat_completeness auto
termination
proof (relation "measure (\<lambda>(raw, headerEnd, pos). headerEnd - pos)")
  fix raw headerEnd pos nl
  assume "pos < headerEnd" "nl = line_end raw headerEnd pos"
  then show "((raw, headerEnd, nl + 2), raw, headerEnd, pos) \<in> measure (\<lambda>(raw, headerEnd, pos). headerEnd - pos)"
    using line_end_ge [of pos headerEnd raw] by auto
qed simp

declare splitLines_from.simps [simp del]

definition splitLines :: "string \<Rightarrow> nat \<Rightarrow> string list" where
  "splitLines raw headerEnd = splitLines_from raw headerEnd 0"

text \<open>The status line, from the message with its defaults.\<close>

definition parse_status_line :: "string \<Rightarrow> sip_message option" where
  "parse_status_line start =
    (case find_char (CHR '' '') start 0 of
       None \<Rightarrow> None
     | Some sp1 \<Rightarrow>
         (let sp2 = find_char (CHR '' '') start (sp1 + 1);
              code = substr start (sp1 + 1) ((case sp2 of None \<Rightarrow> length start | Some i \<Rightarrow> i) - sp1 - 1)
          in if length code \<noteq> 3 \<or> \<not> list_all is_digit code then None
             else Some (sip_message_init\<lparr>isRequest := False, sip_version := substr start 0 sp1,
               statusCode := atoi code,
               reasonPhrase := (case sp2 of None \<Rightarrow> [] | Some i \<Rightarrow> trim (drop (i + 1) start))\<rparr>)))"

definition parse_request_line :: "string \<Rightarrow> sip_message option" where
  "parse_request_line start =
    (case find_char (CHR '' '') start 0 of
       None \<Rightarrow> None
     | Some sp1 \<Rightarrow>
         (case rfind_char (CHR '' '') start of
            None \<Rightarrow> None
          | Some sp2 \<Rightarrow>
              if sp2 = sp1 then None
              else
                (let m = substr start 0 sp1;
                     uri = trim (substr start (sp1 + 1) (sp2 - sp1 - 1));
                     v = trim (drop (sp2 + 1) start)
                 in if m = [] \<or> uri = [] then None
                    else if \<not> starts_with ''SIP/'' v then None
                    else Some (sip_message_init\<lparr>isRequest := True, sip_method := m, requestUri := uri,
                      sip_version := v\<rparr>))))"

definition parse_start_line :: "string \<Rightarrow> sip_message option" where
  "parse_start_line start =
    (if starts_with ''SIP/'' start then parse_status_line start else parse_request_line start)"

text \<open>The header loop, with the headers read so far.\<close>

definition parse_header :: "string \<Rightarrow> header option" where
  "parse_header line =
    (case find_char (CHR '':'') line 0 of
       None \<Rightarrow> None
     | Some colon \<Rightarrow>
         (let name = trim (substr line 0 colon); v = trim (drop (colon + 1) line)
          in if name = [] then None else Some (name, v)))"

fun parse_headers :: "header list \<Rightarrow> string list \<Rightarrow> header list option" where
  "parse_headers hs [] = Some hs"
| "parse_headers hs (line # lines) =
    (case line of
       [] \<Rightarrow> None
     | c # _ \<Rightarrow>
         if c = CHR '' '' \<or> c = CHR 0x09 then
           (if hs = [] then None
            else parse_headers (butlast hs @ [(fst (last hs), snd (last hs) @ '' '' @ trim line)]) lines)
         else
           (case parse_header line of
              None \<Rightarrow> None
            | Some h \<Rightarrow> parse_headers (hs @ [h]) lines))"

text \<open>The body, cut to the declared length.\<close>

definition parse_body :: "sip_message \<Rightarrow> string \<Rightarrow> string option" where
  "parse_body m rest =
    (case sip_get m ''Content-Length'' of
       None \<Rightarrow> Some rest
     | Some cl \<Rightarrow>
         (let (declared, moved) = strtol cl
          in if \<not> moved \<or> declared < 0 then None
             else if nat declared > length rest then None
             else Some (take (nat declared) rest)))"

definition parseSip :: "string \<Rightarrow> sip_message option" where
  "parseSip raw =
    (case find_str (CRLF @ CRLF) raw 0 of
       None \<Rightarrow> None
     | Some headerEnd \<Rightarrow>
         (case splitLines raw headerEnd of
            [] \<Rightarrow> None
          | start # lines \<Rightarrow>
              if start = [] then None
              else do {
                m \<leftarrow> parse_start_line start;
                hs \<leftarrow> parse_headers [] lines;
                b \<leftarrow> parse_body (m\<lparr>sip_headers := hs\<rparr>) (drop (headerEnd + 4) raw);
                Some (m\<lparr>sip_headers := hs, sip_body := b\<rparr>)
              }))"

text \<open>\<open>std::min\<close> of two positions, \<open>npos\<close> the largest.\<close>

definition min_pos :: "nat option \<Rightarrow> nat option \<Rightarrow> nat option" where
  "min_pos a b = (case (a, b) of (None, _) \<Rightarrow> b | (_, None) \<Rightarrow> a | (Some i, Some j) \<Rightarrow> Some (min i j))"

function headerParam_from :: "string \<Rightarrow> string \<Rightarrow> nat \<Rightarrow> string option" where
  "headerParam_from hv param pos =
    (case find_char (CHR '';'') hv pos of
       None \<Rightarrow> None
     | Some p \<Rightarrow>
         (let start = p + 1;
              eq = find_char (CHR ''='') hv start;
              semi = find_char (CHR '';'') hv start;
              nameEnd = (case min_pos eq semi of None \<Rightarrow> length hv | Some i \<Rightarrow> i);
              name = trim (substr hv start (nameEnd - start))
          in if iequals name param then
               (case eq of
                  None \<Rightarrow> Some []
                | Some e \<Rightarrow>
                    (case semi of
                       Some j \<Rightarrow> if j < e then Some []
                         else Some (trim (substr hv (e + 1) ((case find_char (CHR '';'') hv (e + 1) of
                                None \<Rightarrow> length hv | Some i \<Rightarrow> i) - e - 1)))
                     | None \<Rightarrow> Some (trim (substr hv (e + 1) ((case find_char (CHR '';'') hv (e + 1) of
                                None \<Rightarrow> length hv | Some i \<Rightarrow> i) - e - 1)))))
             else headerParam_from hv param start))"
  by pat_completeness auto
termination
  by (relation "measure (\<lambda>(hv, param, pos). length hv - pos)")
    (auto dest: find_char_bound)

declare headerParam_from.simps [simp del]

definition headerParam :: "string \<Rightarrow> string \<Rightarrow> string option" where
  "headerParam hv param = headerParam_from hv param 0"

record cseq =
  cs_number :: int
  cs_method :: string

definition parseCSeq :: "string \<Rightarrow> cseq option" where
  "parseCSeq v0 =
    (let v = trim v0
     in case find_char (CHR '' '') v 0 of
          None \<Rightarrow> None
        | Some sp \<Rightarrow>
            (let (n, moved) = strtol v; meth = trim (drop (sp + 1) v)
             in if \<not> moved then None
                else if meth = [] then None
                else Some \<lparr>cs_number = n, cs_method = meth\<rparr>))"

section \<open>Text without line ends\<close>

fun crlf_free :: "string \<Rightarrow> bool" where
  "crlf_free (c # d # cs) = (\<not> (c = CHR 0x0D \<and> d = CHR 0x0A) \<and> crlf_free (d # cs))"
| "crlf_free _ = True"

lemma prefix_CRLF: "prefix CRLF s \<longleftrightarrow> (\<exists>r. s = CHR 0x0D # CHR 0x0A # r)"
  by (auto simp: CRLF_def prefix_def)

lemma crlf_free_Cons: "crlf_free (c # s) \<longleftrightarrow> \<not> prefix CRLF (c # s) \<and> crlf_free s"
  by (cases s) (auto simp: prefix_CRLF)

lemma crlf_free_skip [simp]: "c \<noteq> CHR 0x0D \<Longrightarrow> crlf_free (c # s) = crlf_free s"
  by (simp add: crlf_free_Cons prefix_CRLF)

lemma crlf_free_append: "crlf_free (a @ b) \<longleftrightarrow> crlf_free a \<and> crlf_free b
    \<and> \<not> (a \<noteq> [] \<and> last a = CHR 0x0D \<and> b \<noteq> [] \<and> hd b = CHR 0x0A)"
proof (induction a)
  case (Cons c a)
  then show ?case by (cases a; cases b) (auto simp: crlf_free_Cons prefix_CRLF)
qed simp

lemma crlf_free_take [simp]: "crlf_free s \<Longrightarrow> crlf_free (take n s)"
  using crlf_free_append [of "take n s" "drop n s"] by simp

lemma crlf_free_drop [simp]: "crlf_free s \<Longrightarrow> crlf_free (drop n s)"
  using crlf_free_append [of "take n s" "drop n s"] by simp

lemma crlf_free_substr [simp]: "crlf_free s \<Longrightarrow> crlf_free (substr s i n)"
  by (simp add: substr_def)

lemma dropWhile_drop: "\<exists>n. dropWhile P s = drop n s"
  by (metis dropWhile_eq_drop)

lemma crlf_free_trim [simp]: "crlf_free s \<Longrightarrow> crlf_free (trim s)"
proof -
  assume s: "crlf_free s"
  obtain n where n: "dropWhile is_ws s = drop n s" using dropWhile_drop by blast
  obtain k where k: "dropWhile is_ws (rev (drop n s)) = drop k (rev (drop n s))" using dropWhile_drop by blast
  have "trim s = rev (drop k (rev (drop n s)))" by (simp only: trim_def n k)
  also have "\<dots> = take (length (drop n s) - k) (drop n s)"
    by (simp only: rev_drop [of k] length_rev rev_rev_ident)
  finally have "trim s = take (length (drop n s) - k) (drop n s)" .
  then show ?thesis using s by simp
qed

lemma crlf_free_no_cr: "CHR 0x0D \<notin> set s \<Longrightarrow> crlf_free s"
  by (induction s) (auto simp: crlf_free_Cons prefix_CRLF)

lemma find_crlf: "crlf_free l \<Longrightarrow> find_in CRLF (l @ CRLF @ rest) = Some (length l)"
proof (induction l)
  case Nil
  then show ?case by (simp add: CRLF_def)
next
  case (Cons c l)
  have "\<not> prefix CRLF ((c # l) @ CRLF @ rest)"
    using Cons.prems by (cases l) (auto simp: CRLF_def)
  then show ?case using Cons by (simp add: crlf_free_Cons)
qed

lemma find_crlf_free: "find_in CRLF s = Some n \<Longrightarrow> crlf_free (take n s)"
proof (induction s arbitrary: n)
  case (Cons c s)
  show ?case
  proof (cases "prefix CRLF (c # s)")
    case False
    then obtain k where k: "find_in CRLF s = Some k" "n = Suc k" using Cons.prems by auto
    then have "crlf_free (take k s)" using Cons.IH by blast
    moreover have "\<not> prefix CRLF (c # take k s)"
      using False take_is_prefix [of "Suc k" "c # s"] by (metis prefix_order.trans take_Suc_Cons)
    ultimately show ?thesis using k by (simp add: crlf_free_Cons)
  qed (use Cons.prems in simp)
qed (simp add: CRLF_def)

lemma find_crlf2_last: "crlf_free l \<Longrightarrow> find_in (CRLF @ CRLF) (l @ CRLF @ CRLF @ rest) = Some (length l)"
proof (induction l)
  case Nil
  then show ?case by (simp add: CRLF_def)
next
  case (Cons c l)
  have "\<not> prefix (CRLF @ CRLF) ((c # l) @ CRLF @ CRLF @ rest)"
    using Cons.prems by (cases l) (auto simp: CRLF_def)
  then show ?case using Cons by (simp add: crlf_free_Cons)
qed

lemma find_crlf2_skip:
  "crlf_free l \<Longrightarrow> \<not> prefix CRLF rest \<Longrightarrow>
   find_in (CRLF @ CRLF) (l @ CRLF @ rest) = map_option (\<lambda>k. length l + 2 + k) (find_in (CRLF @ CRLF) rest)"
proof (induction l)
  case Nil
  then have "\<not> prefix (CRLF @ CRLF) (CRLF @ rest)" "\<not> prefix (CRLF @ CRLF) (CHR 0x0A # rest)"
    by (auto simp: CRLF_def)
  then show ?case by (simp add: CRLF_def option.map_comp comp_def)
next
  case (Cons c l)
  have "\<not> prefix (CRLF @ CRLF) ((c # l) @ CRLF @ rest)"
    using Cons.prems by (cases l) (auto simp: CRLF_def)
  then show ?case using Cons by (simp add: crlf_free_Cons option.map_comp comp_def)
qed

section \<open>Lines\<close>

definition line_ok :: "string \<Rightarrow> bool" where
  "line_ok l \<longleftrightarrow> l \<noteq> [] \<and> crlf_free l"

fun join_lines :: "string list \<Rightarrow> string" where
  "join_lines [] = []"
| "join_lines [l] = l"
| "join_lines (l # ls) = l @ CRLF @ join_lines ls"

lemma length_CRLF [simp]: "length CRLF = 2"
  by (simp add: CRLF_def)

lemma join_snoc: "ls \<noteq> [] \<Longrightarrow> join_lines (ls @ [l]) = concat (map (\<lambda>l. l @ CRLF) ls) @ l"
proof (induction ls)
  case (Cons a ls)
  then show ?case by (cases ls) simp_all
qed simp

lemma line_not_crlf: "line_ok l \<Longrightarrow> \<not> prefix CRLF (l @ CRLF @ rest)"
  by (cases l; cases "tl l") (auto simp: line_ok_def CRLF_def prefix_def)

lemma header_end:
  "ls \<noteq> [] \<Longrightarrow> list_all line_ok ls \<Longrightarrow>
   find_in (CRLF @ CRLF) (join_lines ls @ CRLF @ CRLF @ rest) = Some (length (join_lines ls))"
proof (induction ls rule: join_lines.induct)
  case (2 l)
  then show ?case using find_crlf2_last [of l rest] by (simp add: line_ok_def)
next
  case (3 l l2 ls)
  obtain t where t: "join_lines (l2 # ls) @ CRLF @ CRLF @ rest = l2 @ CRLF @ t"
    by (cases ls) simp_all
  have "find_in (CRLF @ CRLF) (l @ CRLF @ l2 @ CRLF @ t)
      = map_option (\<lambda>k. length l + 2 + k) (find_in (CRLF @ CRLF) (l2 @ CRLF @ t))"
    using 3(3) by (intro find_crlf2_skip line_not_crlf) (simp_all add: line_ok_def)
  then show ?case using 3 by (simp add: t [symmetric])
qed simp

lemma splitLines_join:
  "list_all line_ok ls \<Longrightarrow> headerEnd = length pre + length (join_lines ls) \<Longrightarrow>
   splitLines_from (pre @ join_lines ls @ CRLF @ rest) headerEnd (length pre) = ls"
proof (induction ls arbitrary: pre rule: join_lines.induct)
  case 1
  then show ?case by (simp add: splitLines_from.simps)
next
  case (2 l)
  have "line_end (pre @ l @ CRLF @ rest) headerEnd (length pre) = headerEnd"
    using 2 find_crlf [of l rest] by (simp add: line_end_def find_str_def line_ok_def)
  then show ?case using 2
    by (subst splitLines_from.simps)
      (simp add: line_ok_def Let_def splitLines_from.simps [of _ _ "Suc (Suc _)"])
next
  case (3 l l2 ls)
  let ?raw = "pre @ join_lines (l # l2 # ls) @ CRLF @ rest"
  have e: "line_end ?raw headerEnd (length pre) = length pre + length l"
    using 3(2,3) find_crlf [of l "join_lines (l2 # ls) @ CRLF @ rest"]
    by (simp add: line_end_def find_str_def line_ok_def)
  have "splitLines_from ?raw headerEnd (length (pre @ l @ CRLF)) = l2 # ls"
    using 3(1) [of "pre @ l @ CRLF"] 3(2,3) by simp
  then have rec: "splitLines_from ?raw headerEnd (length pre + length l + 2) = l2 # ls" by (simp add: add.assoc)
  have lt: "length pre < headerEnd" using 3(3) by simp
  have sub: "substr ?raw (length pre) (length l) = l" by (simp add: substr_def)
  show ?case
    by (subst splitLines_from.simps) (simp only: lt e Let_def if_True add_diff_cancel_left' sub rec)
qed

text \<open>Conversely, every line the splitter produces is free of line ends.\<close>

lemma splitLines_crlf_free: "list_all crlf_free (splitLines_from raw headerEnd pos)"
proof (induction raw headerEnd pos rule: splitLines_from.induct)
  case (1 raw headerEnd pos)
  show ?case
  proof (cases "pos < headerEnd")
    case True
    have "crlf_free (take (line_end raw headerEnd pos - pos) (drop pos raw))"
    proof (cases "find_in CRLF (drop pos raw)")
      case None
      have "crlf_free s" if "find_in CRLF s = None" for s
        using that by (induction s) (auto simp: crlf_free_Cons split: if_splits)
      then show ?thesis using None by simp
    next
      case (Some n)
      then have "crlf_free (take n (drop pos raw))" by (rule find_crlf_free)
      then have "crlf_free (take k (take n (drop pos raw)))" for k by (rule crlf_free_take)
      moreover have "line_end raw headerEnd pos - pos \<le> n \<or> length raw < pos"
        using Some True by (auto simp: line_end_def find_str_def)
      ultimately show ?thesis by (metis drop_all less_imp_le min_absorb1 take_Nil take_take crlf_free.simps(2))
    qed
    then show ?thesis using True 1 by (subst splitLines_from.simps) (simp add: Let_def substr_def)
  qed (simp add: splitLines_from.simps)
qed

section \<open>What is serialised parses\<close>

definition header_ok :: "header \<Rightarrow> bool" where
  "header_ok h \<longleftrightarrow> fst h \<noteq> [] \<and> trimmed (fst h) \<and> CHR '':'' \<notin> set (fst h) \<and> crlf_free (fst h) \<and> crlf_free (snd h)"

definition version_ok :: "string \<Rightarrow> bool" where
  "version_ok v \<longleftrightarrow> starts_with ''SIP/'' v \<and> CHR '' '' \<notin> set v \<and> crlf_free v"

definition start_ok :: "sip_message \<Rightarrow> bool" where
  "start_ok m \<longleftrightarrow> version_ok (sip_version m)
     \<and> (if isRequest m then
          sip_method m \<noteq> [] \<and> CHR '' '' \<notin> set (sip_method m) \<and> \<not> starts_with ''SIP/'' (sip_method m)
          \<and> crlf_free (sip_method m) \<and> requestUri m \<noteq> [] \<and> trimmed (requestUri m) \<and> crlf_free (requestUri m)
          \<and> trimmed (sip_version m)
        else 100 \<le> statusCode m \<and> statusCode m \<le> 999 \<and> crlf_free (reasonPhrase m))"

definition sip_wf :: "sip_message \<Rightarrow> bool" where
  "sip_wf m \<longleftrightarrow> start_ok m \<and> list_all header_ok (sip_headers m) \<and> int (length (sip_body m)) \<le> long_max"

definition is_cl :: "header \<Rightarrow> bool" where
  "is_cl h \<longleftrightarrow> iequals (fst h) ''Content-Length''"

definition norm_headers :: "sip_message \<Rightarrow> header list" where
  "norm_headers m = map (map_prod id trim) (filter (\<lambda>h. \<not> is_cl h) (sip_headers m))
     @ [(''Content-Length'', to_dec (length (sip_body m)))]"

definition norm_start :: "sip_message \<Rightarrow> sip_message" where
  "norm_start m = (if isRequest m
     then sip_message_init\<lparr>isRequest := True, sip_method := sip_method m, requestUri := requestUri m,
       sip_version := sip_version m\<rparr>
     else sip_message_init\<lparr>isRequest := False, sip_version := sip_version m, statusCode := statusCode m,
       reasonPhrase := trim (reasonPhrase m)\<rparr>)"

definition sip_norm :: "sip_message \<Rightarrow> sip_message" where
  "sip_norm m = (norm_start m)\<lparr>sip_headers := norm_headers m, sip_body := sip_body m\<rparr>"

text \<open>The start line.\<close>

lemma starts_with_append: "length p \<le> length s \<Longrightarrow> starts_with p (s @ t) = starts_with p s"
  by (auto simp: starts_with_def prefix_append)

lemma parse_request_start:
  assumes "start_ok m" "isRequest m"
  shows "parse_start_line (start_line m) = Some (norm_start m)"
proof -
  let ?m = "sip_method m" and ?u = "requestUri m" and ?v = "sip_version m"
  have ok: "?m \<noteq> []" "CHR '' '' \<notin> set ?m" "\<not> starts_with ''SIP/'' ?m" "?u \<noteq> []" "trimmed ?u" "trimmed ?v"
    "starts_with ''SIP/'' ?v" "CHR '' '' \<notin> set ?v"
    using assms by (simp_all add: start_ok_def version_ok_def)
  have line: "start_line m = ?m @ CHR '' '' # ?u @ CHR '' '' # ?v"
    using assms(2) by (simp add: start_line_def)
  have no: "\<not> starts_with ''SIP/'' (start_line m)"
  proof
    assume "starts_with ''SIP/'' (start_line m)"
    then have t: "take 4 (start_line m) = ''SIP/''" by (auto simp: starts_with_def prefix_def)
    show False
    proof (cases "4 \<le> length ?m")
      case True
      then show ?thesis using t ok(3) take_is_prefix [of 4 ?m] by (simp add: line starts_with_def)
    next
      case False
      then have "CHR '' '' \<in> set (take 4 (start_line m))" by (simp add: line take_Cons')
      then show ?thesis by (simp add: t)
    qed
  qed
  have sp1: "find_char (CHR '' '') (start_line m) 0 = Some (length ?m)"
    using find_char_first [OF ok(2)] by (simp add: line)
  have sp2: "rfind_char (CHR '' '') (start_line m) = Some (length ?m + 1 + length ?u)"
    using rfind_char_last [OF ok(8), of "?m @ CHR '' '' # ?u"] by (simp add: line)
  have parts: "substr (start_line m) 0 (length ?m) = ?m"
    "substr (start_line m) (length ?m + 1) (length ?u) = ?u" "drop (length ?m + 1 + length ?u + 1) (start_line m) = ?v"
    by (simp_all add: line substr_def)
  show ?thesis
    using no ok assms(2) parts
    by (simp add: parse_start_line_def parse_request_line_def sp1 sp2 norm_start_def Let_def)
qed

lemma to_dec_3: "100 \<le> n \<Longrightarrow> n \<le> 999 \<Longrightarrow> length (to_dec n) = 3"
proof -
  assume n: "100 \<le> n" "n \<le> 999"
  then have "\<not> n < 10" "\<not> n div 10 < 10" "n div 10 div 10 < 10" by linarith+
  then show ?thesis by (simp add: to_dec.simps [of n] to_dec.simps [of "n div 10"] to_dec.simps [of "n div 10 div 10"])
qed

lemma parse_status_start:
  assumes "start_ok m" "\<not> isRequest m"
  shows "parse_start_line (start_line m) = Some (norm_start m)"
proof -
  let ?v = "sip_version m" and ?c = "to_dec (nat (statusCode m))" and ?r = "reasonPhrase m"
  have ok: "starts_with ''SIP/'' ?v" "CHR '' '' \<notin> set ?v" "100 \<le> statusCode m" "statusCode m \<le> 999"
    using assms by (simp_all add: start_ok_def version_ok_def)
  have line: "start_line m = ?v @ CHR '' '' # ?c @ CHR '' '' # ?r"
    using assms(2) ok(3) by (simp add: start_line_def to_string_def)
  have yes: "starts_with ''SIP/'' (start_line m)" using ok(1) by (auto simp: line starts_with_def)
  have code: "length ?c = 3" "list_all is_digit ?c" using ok(3,4) to_dec_digits
    by (simp_all add: to_dec_3 nat_le_iff le_nat_iff list_all_iff)
  have "CHR '' '' \<notin> set ?c" using to_dec_digits digit_not_space [of "CHR '' ''"] by (auto simp: is_ws_def)
  then have sp2: "find_char (CHR '' '') (start_line m) (length ?v + 1) = Some (length ?v + 1 + length ?c)"
    using find_char_at [of "CHR '' ''" ?c "?v @ '' ''" ?r] by (simp add: line)
  have sp1: "find_char (CHR '' '') (start_line m) 0 = Some (length ?v)"
    using find_char_first [OF ok(2)] by (simp add: line)
  have parts: "substr (start_line m) 0 (length ?v) = ?v"
    "substr (start_line m) (length ?v + 1) (length ?c) = ?c" "drop (length ?v + 1 + length ?c + 1) (start_line m) = ?r"
    by (simp_all add: line substr_def)
  have num: "atoi ?c = statusCode m"
    using atoi_to_string [of "statusCode m"] ok(3,4) by (simp add: to_string_def)
  have len: "length ?v + 1 + length ?c - length ?v - 1 = length ?c" by simp
  have "parse_status_line (start_line m) = Some (norm_start m)"
    unfolding parse_status_line_def sp1 option.case sp2 Let_def len parts num
    using code assms(2) by (simp add: norm_start_def)
  then show ?thesis using yes by (simp add: parse_start_line_def)
qed

text \<open>The headers.\<close>

definition hline :: "header \<Rightarrow> string" where
  "hline h = fst h @ '': '' @ snd h"

lemma parse_hline:
  assumes "header_ok h"
  shows "parse_header (hline h) = Some (fst h, trim (snd h))"
    and "parse_headers hs (hline h # ls) = parse_headers (hs @ [(fst h, trim (snd h))]) ls"
proof -
  obtain n v where h: "h = (n, v)" by (cases h)
  have n: "n \<noteq> []" "trimmed n" "CHR '':'' \<notin> set n" using assms by (simp_all add: header_ok_def h)
  have colon: "find_char (CHR '':'') (hline h) 0 = Some (length n)"
    using find_char_first [OF n(3)] by (simp add: hline_def h)
  have parts: "substr (hline h) 0 (length n) = n" "drop (length n + 1) (hline h) = CHR '' '' # v"
    by (simp_all add: hline_def h substr_def)
  have tv: "trim (CHR '' '' # v) = trim v" by (simp add: trim_def is_ws_def)
  show p: "parse_header (hline h) = Some (fst h, trim (snd h))"
    unfolding parse_header_def colon option.case parts tv Let_def using n by (simp add: h)
  obtain c t where c: "hline h = c # t" "\<not> is_ws c" using n(1,2) by (cases n) (auto simp: hline_def h trimmed_def)
  then have "c \<noteq> CHR '' ''" "c \<noteq> CHR 0x09" by (auto simp: is_ws_def)
  then show "parse_headers hs (hline h # ls) = parse_headers (hs @ [(fst h, trim (snd h))]) ls"
    using p by (simp add: c)
qed

lemma parse_hlines:
  "list_all header_ok hs' \<Longrightarrow> parse_headers hs (map hline hs') = Some (hs @ map (map_prod id trim) hs')"
  by (induction hs' arbitrary: hs) (simp_all add: parse_hline(2) map_prod_def split_beta del: parse_headers.simps(2))

lemma trimmed_to_dec: "trimmed (to_dec n)"
  using to_dec_digits [of "hd (to_dec n)" n] to_dec_digits [of "last (to_dec n)" n] digit_not_space
  by (simp add: trimmed_def)

lemma crlf_free_to_dec [simp]: "crlf_free (to_dec n)" "crlf_free (to_string i)"
proof -
  show d: "crlf_free (to_dec n)" for n
    using to_dec_digits [of "CHR 0x0D" n] by (intro crlf_free_no_cr) (auto simp: is_digit_def)
  show "crlf_free (to_string i)" by (simp add: to_string_def d)
qed

definition cl_header :: "sip_message \<Rightarrow> header" where
  "cl_header m = (''Content-Length'', to_dec (length (sip_body m)))"

lemma cl_header_ok: "header_ok (cl_header m)"
  by (simp add: header_ok_def cl_header_def trimmed_def is_ws_def crlf_free_to_dec)

lemma line_ok_hline: "header_ok h \<Longrightarrow> line_ok (hline h)"
  by (auto simp: header_ok_def line_ok_def hline_def crlf_free_append)

lemma line_ok_start: "start_ok m \<Longrightarrow> line_ok (start_line m)"
  by (auto simp: start_ok_def version_ok_def line_ok_def start_line_def crlf_free_append)

lemma serialize_lines:
  "serialize m = join_lines (start_line m # map hline (filter (\<lambda>h. \<not> is_cl h) (sip_headers m)) @ [hline (cl_header m)])
     @ CRLF @ CRLF @ sip_body m"
proof -
  have f: "foldl (\<lambda>out h. if iequals (fst h) ''Content-Length'' then out else out @ header_line h) out hs
      = out @ concat (map (\<lambda>l. l @ CRLF) (map hline (filter (\<lambda>h. \<not> is_cl h) hs)))" for out hs
    by (induction hs arbitrary: out) (simp_all add: header_line_def hline_def is_cl_def)
  show ?thesis
    using join_snoc [of "start_line m # map hline (filter (\<lambda>h. \<not> is_cl h) (sip_headers m))" "hline (cl_header m)"]
    by (simp add: serialize_def f Let_def cl_header_def hline_def to_string_def)
qed

lemma sip_get_norm: "sip_get (m'\<lparr>sip_headers := norm_headers m\<rparr>) ''Content-Length'' = Some (to_dec (length (sip_body m)))"
proof -
  have "find (\<lambda>h. iequals (fst h) ''Content-Length'') (map (map_prod id trim) (filter (\<lambda>h. \<not> is_cl h) hs) @ [x]) =
      (if iequals (fst x) ''Content-Length'' then Some x else None)" for hs and x :: header
    by (induction hs) (simp_all add: is_cl_def)
  then show ?thesis by (simp add: sip_get_def norm_headers_def iequals_lower)
qed

lemma sip_roundtrip:
  assumes "sip_wf m"
  shows "parseSip (serialize m) = Some (sip_norm m)"
proof -
  let ?hs = "filter (\<lambda>h. \<not> is_cl h) (sip_headers m) @ [cl_header m]"
  let ?ls = "start_line m # map hline ?hs"
  have st: "start_ok m" and len: "int (length (sip_body m)) \<le> long_max" using assms by (simp_all add: sip_wf_def)
  have hs: "list_all header_ok ?hs" using assms cl_header_ok by (simp add: sip_wf_def list_all_iff)
  have ls: "list_all line_ok ?ls" using hs line_ok_start [OF st] by (auto simp: list_all_iff line_ok_hline)
  have ser: "serialize m = join_lines ?ls @ CRLF @ CRLF @ sip_body m" by (simp add: serialize_lines)
  have he: "find_str (CRLF @ CRLF) (serialize m) 0 = Some (length (join_lines ?ls))"
    using header_end [OF _ ls, of "sip_body m"] by (simp add: find_str_def ser)
  have sp: "splitLines (serialize m) (length (join_lines ?ls)) = ?ls"
    using splitLines_join [OF ls, of "length (join_lines ?ls)" "[]" "CRLF @ sip_body m"]
    by (simp add: splitLines_def ser)
  have pst: "parse_start_line (start_line m) = Some (norm_start m)"
    using parse_request_start [OF st] parse_status_start [OF st] by (cases "isRequest m") simp_all
  have ph: "parse_headers [] (map hline ?hs) = Some (norm_headers m)"
    using parse_hlines [OF hs, of "[]"] trimmed_to_dec by (simp add: norm_headers_def cl_header_def)
  have pb: "parse_body ((norm_start m)\<lparr>sip_headers := norm_headers m\<rparr>) (drop (length (join_lines ?ls) + 4) (serialize m))
      = Some (sip_body m)"
    using strtol_to_dec [OF len, of "[]"] by (simp add: parse_body_def sip_get_norm ser)
  have ne: "start_line m \<noteq> []" using line_ok_start [OF st] by (simp add: line_ok_def)
  show ?thesis
    unfolding parseSip_def he option.case sp list.case using ne pst ph pb by (simp add: sip_norm_def)
qed

section \<open>What parses is well-formed\<close>

lemma find_char_before: "find_char c s 0 = Some i \<Longrightarrow> c \<notin> set (take i s)"
proof -
  assume "find_char c s 0 = Some i"
  then have "i = length (takeWhile (\<lambda>x. x \<noteq> c) s)"
    by (auto simp: find_char_def find_str_def find_in_char split: if_splits)
  then have "take i s = takeWhile (\<lambda>x. x \<noteq> c) s" by (metis takeWhile_eq_take)
  then show ?thesis by (auto dest: set_takeWhileD)
qed

lemma takeWhile_shorter: "c \<in> set s \<Longrightarrow> length (takeWhile (\<lambda>x. x \<noteq> c) s) < length s"
  by (induction s) auto

lemma rfind_char_after: "rfind_char c s = Some i \<Longrightarrow> c \<notin> set (drop (i + 1) s)"
proof -
  assume "rfind_char c s = Some i"
  then have c: "c \<in> set s" and i: "i = length s - Suc (length (takeWhile (\<lambda>x. x \<noteq> c) (rev s)))"
    by (auto simp: rfind_char_def find_in_char split: if_splits)
  let ?t = "takeWhile (\<lambda>x. x \<noteq> c) (rev s)"
  have "length ?t < length s"
    using c takeWhile_shorter [of c "rev s"] by simp
  then have "i + 1 = length s - length ?t" using i by simp
  then have "drop (i + 1) s = rev (take (length ?t) (rev s))" by (simp add: rev_take)
  moreover have "take (length ?t) (rev s) = ?t" by (metis takeWhile_eq_take)
  ultimately show ?thesis by (auto dest: set_takeWhileD)
qed

lemma set_trim: "set (trim s) \<subseteq> set s"
  by (auto simp: trim_def dest!: set_dropWhileD)

lemma parsed_request_start:
  assumes "parse_request_line start = Some m" "\<not> starts_with ''SIP/'' start" "crlf_free start"
  shows "start_ok m" "isRequest m"
proof -
  obtain sp1 sp2 where sp: "find_char (CHR '' '') start 0 = Some sp1" "rfind_char (CHR '' '') start = Some sp2"
    and m: "m = sip_message_init\<lparr>isRequest := True, sip_method := substr start 0 sp1,
        requestUri := trim (substr start (sp1 + 1) (sp2 - sp1 - 1)), sip_version := trim (drop (sp2 + 1) start)\<rparr>"
    and ne: "substr start 0 sp1 \<noteq> []" "trim (substr start (sp1 + 1) (sp2 - sp1 - 1)) \<noteq> []"
      "starts_with ''SIP/'' (trim (drop (sp2 + 1) start))"
    using assms(1) by (auto simp: parse_request_line_def Let_def split: option.splits if_splits)
  have "CHR '' '' \<notin> set (substr start 0 sp1)" using find_char_before [OF sp(1)] by (simp add: substr_def)
  moreover have "CHR '' '' \<notin> set (trim (drop (sp2 + 1) start))"
    using rfind_char_after [OF sp(2)] set_trim by blast
  moreover have "\<not> starts_with ''SIP/'' (substr start 0 sp1)"
    using assms(2) take_is_prefix [of sp1 start] by (auto simp: starts_with_def substr_def dest: prefix_order.trans)
  ultimately show "start_ok m" "isRequest m"
    using ne assms(3) by (simp_all add: m start_ok_def version_ok_def)
qed

lemma dec_value_bound: "list_all is_digit ds \<Longrightarrow> dec_value ds < 10 ^ length ds"
proof (induction ds rule: rev_induct)
  case (snoc d ds)
  then have "digit_value d \<le> 9" by (auto simp: is_digit_def digit_value_def)
  then show ?case using snoc by simp
qed (simp add: dec_value_def)

lemma atoi_digits:
  assumes "list_all is_digit ds" "ds \<noteq> []" "length ds \<le> 9"
  shows "atoi ds = int (dec_value ds)"
proof -
  have "dec_value ds < 10 ^ 9"
    using dec_value_bound [OF assms(1)] power_increasing [of "length ds" 9 "10::nat"] assms(3) by linarith
  moreover have "is_digit (hd ds)" using assms(1,2) by (cases ds) simp_all
  then have "dropWhile is_space ds = ds" "sign_split ds = (False, ds)"
    using assms(2) digit_not_space [of "hd ds"] by (cases ds; simp add: sign_split_def)+
  moreover have "takeWhile is_digit ds = ds" using assms(1) by (simp add: takeWhile_eq_all_conv list_all_iff)
  ultimately show ?thesis using assms(2) long_max_ge
    by (simp add: atoi_def strtol_def int32_id Let_def del: takeWhile_eq_all_conv)
qed

lemma parsed_status_start:
  assumes "parse_status_line start = Some m" "starts_with ''SIP/'' start" "crlf_free start" "100 \<le> statusCode m"
  shows "start_ok m" "\<not> isRequest m"
proof -
  obtain sp1 where sp: "find_char (CHR '' '') start 0 = Some sp1"
    using assms(1) by (auto simp: parse_status_line_def split: option.splits)
  define sp2 where "sp2 = find_char (CHR '' '') start (sp1 + 1)"
  define n where "n = (case sp2 of None \<Rightarrow> length start | Some i \<Rightarrow> i) - sp1 - 1"
  have code: "length (substr start (sp1 + 1) n) = 3" "list_all is_digit (substr start (sp1 + 1) n)"
    and meq: "m = sip_message_init\<lparr>isRequest := False, sip_version := substr start 0 sp1,
               statusCode := atoi (substr start (sp1 + 1) n),
               reasonPhrase := (case sp2 of None \<Rightarrow> [] | Some i \<Rightarrow> trim (drop (i + 1) start))\<rparr>"
    using assms(1) unfolding parse_status_line_def sp option.case Let_def sp2_def [symmetric] n_def [symmetric]
    by (simp_all split: if_splits)
  have m: "isRequest m = False" "sip_version m = substr start 0 sp1" "statusCode m = atoi (substr start (sp1 + 1) n)"
      "reasonPhrase m = [] \<or> (\<exists>i. reasonPhrase m = trim (drop (i + 1) start))"
    by (auto simp: meq split: option.splits)
  have c: "dec_value (substr start (sp1 + 1) n) < 1000"
    using dec_value_bound [OF code(2)] unfolding code(1) by simp
  have "substr start (sp1 + 1) n \<noteq> []" using code(1) by auto
  then have "statusCode m \<le> 999" using c code by (simp add: m atoi_digits)
  moreover have "CHR '' '' \<notin> set (substr start 0 sp1)" using find_char_before [OF sp(1)] by (simp add: substr_def)
  moreover have "starts_with ''SIP/'' (substr start 0 sp1)"
  proof -
    have "sp1 < length start" "start ! sp1 = CHR '' ''" using find_char_bound [OF sp] by simp_all
    moreover have "\<forall>i < 4. start ! i \<noteq> CHR '' ''"
      using assms(2) by (auto simp: starts_with_def prefix_def nth_Cons numeral_eq_Suc less_Suc_eq)
    ultimately have "4 \<le> sp1" by (metis not_less)
    then show ?thesis using assms(2)
      by (auto simp: starts_with_def substr_def prefix_def take_Cons' numeral_eq_Suc)
  qed
  moreover have "crlf_free (reasonPhrase m)" using m(4) assms(3) by auto
  ultimately show "start_ok m" "\<not> isRequest m"
    using m assms(3,4) by (simp_all add: start_ok_def version_ok_def)
qed

lemma header_ok_fold: "header_ok (n, v) \<Longrightarrow> crlf_free l \<Longrightarrow> header_ok (n, v @ '' '' @ trim l)"
  by (auto simp: header_ok_def crlf_free_append)

lemma parsed_header_ok: "parse_header l = Some h \<Longrightarrow> crlf_free l \<Longrightarrow> header_ok h"
proof -
  assume "parse_header l = Some h" "crlf_free l"
  then obtain i where i: "find_char (CHR '':'') l 0 = Some i" "h = (trim (substr l 0 i), trim (drop (i + 1) l))"
    "trim (substr l 0 i) \<noteq> []"
    by (auto simp: parse_header_def Let_def split: option.splits if_splits)
  have "CHR '':'' \<notin> set (trim (substr l 0 i))"
    using find_char_before [OF i(1)] set_trim [of "substr l 0 i"] by (auto simp: substr_def)
  then show ?thesis using i \<open>crlf_free l\<close> by (simp add: header_ok_def)
qed

lemma parsed_headers_ok:
  "parse_headers hs ls = Some hs' \<Longrightarrow> list_all crlf_free ls \<Longrightarrow> list_all header_ok hs \<Longrightarrow> list_all header_ok hs'"
proof (induction hs ls rule: parse_headers.induct)
  case (2 hs l ls)
  obtain c t where l: "l = c # t" using 2(3) by (cases l) simp_all
  show ?case
  proof (cases "c = CHR '' '' \<or> c = CHR 0x09")
    case True
    then have ne: "hs \<noteq> []" using 2(3) by (auto simp: l)
    have "header_ok (fst (last hs), snd (last hs) @ '' '' @ trim l)"
      using 2(4,5) ne by (intro header_ok_fold) (simp_all add: list_all_iff)
    then have "list_all header_ok (butlast hs @ [(fst (last hs), snd (last hs) @ '' '' @ trim l)])"
      using 2(5) by (auto simp: list_all_iff dest: in_set_butlastD)
    then show ?thesis using 2(1) [OF l] True ne 2(3,4) by (simp add: l)
  next
    case False
    then obtain h where h: "parse_header l = Some h" "parse_headers (hs @ [h]) ls = Some hs'"
      using 2(3) by (auto simp: l split: option.splits)
    then have "header_ok h" using parsed_header_ok 2(4) by simp
    then show ?thesis using 2(2) [OF l False] h 2(4,5) by (simp add: l)
  qed
qed simp

lemma parseSipE:
  assumes "parseSip raw = Some m"
  obtains start lines m0 hs b headerEnd where
    "parse_start_line start = Some m0" "parse_headers [] lines = Some hs"
    "parse_body (m0\<lparr>sip_headers := hs\<rparr>) (drop (headerEnd + 4) raw) = Some b"
    "m = m0\<lparr>sip_headers := hs, sip_body := b\<rparr>" "list_all crlf_free (start # lines)"
proof -
  obtain he start lines where s: "splitLines raw he = start # lines" "start \<noteq> []"
    and r: "do {
      m \<leftarrow> parse_start_line start;
      hs \<leftarrow> parse_headers [] lines;
      b \<leftarrow> parse_body (m\<lparr>sip_headers := hs\<rparr>) (drop (he + 4) raw);
      Some (m\<lparr>sip_headers := hs, sip_body := b\<rparr>)
    } = Some m"
    using assms by (auto simp: parseSip_def split: option.splits list.splits if_splits)
  obtain m0 where m0: "parse_start_line start = Some m0" using r by (cases "parse_start_line start") simp_all
  obtain hs where hs: "parse_headers [] lines = Some hs" using r m0 by (cases "parse_headers [] lines") simp_all
  obtain b where b: "parse_body (m0\<lparr>sip_headers := hs\<rparr>) (drop (he + 4) raw) = Some b"
    using r m0 hs by (cases "parse_body (m0\<lparr>sip_headers := hs\<rparr>) (drop (he + 4) raw)") simp_all
  have "list_all crlf_free (start # lines)"
    using splitLines_crlf_free [of raw he 0] by (simp add: splitLines_def [symmetric] s)
  then show ?thesis using that [OF m0 hs b] r m0 hs b by simp
qed

lemma parsed_wf:
  assumes "parseSip raw = Some m" "int (length raw) \<le> long_max" "isRequest m \<or> 100 \<le> statusCode m"
  shows "sip_wf m"
proof (rule parseSipE [OF assms(1)])
  fix start lines m0 hs b he
  assume p: "parse_start_line start = Some m0" "parse_headers [] lines = Some hs"
    "parse_body (m0\<lparr>sip_headers := hs\<rparr>) (drop (he + 4) raw) = Some b"
    and m: "m = m0\<lparr>sip_headers := hs, sip_body := b\<rparr>" and free: "list_all crlf_free (start # lines)"
  have "start_ok m0"
  proof (cases "starts_with ''SIP/'' start")
    case True
    then have s: "parse_status_line start = Some m0" using p(1) by (simp add: parse_start_line_def)
    moreover have "\<not> isRequest m0" using s by (auto simp: parse_status_line_def Let_def split: option.splits if_splits)
    ultimately show ?thesis using parsed_status_start(1) [OF s True] free assms(3) by (simp add: m)
  next
    case False
    then show ?thesis using parsed_request_start(1) [of start m0] p(1) free by (simp add: parse_start_line_def)
  qed
  moreover have "length b \<le> length raw"
    using p(3) by (auto simp: parse_body_def split: option.splits if_splits prod.splits)
  moreover have "list_all header_ok hs" using parsed_headers_ok [OF p(2)] free by simp
  ultimately show "sip_wf m" using assms(2) by (simp add: m sip_wf_def start_ok_def)
qed

section \<open>Parameters and CSeq\<close>

lemma find_char_append_left:
  "find_char c s pos = Some i \<Longrightarrow> find_char c (s @ t) pos = Some i"
proof -
  have "find_in [c] u = Some k \<Longrightarrow> find_in [c] (u @ t) = Some k" for u k
    by (auto simp: find_in_char split: if_splits)
  then show "find_char c s pos = Some i \<Longrightarrow> find_char c (s @ t) pos = Some i"
    by (auto simp: find_char_def find_str_def split: if_splits)
qed

lemma find_char_append_right:
  assumes "find_char c s pos = None" "pos \<le> length s"
  shows "find_char c (s @ t) pos = find_char c (s @ t) (length s)"
proof -
  have n: "c \<notin> set (drop pos s)" using assms by (simp add: find_char_def find_str_def)
  then have "takeWhile (\<lambda>x. x \<noteq> c) (drop pos s @ t) = drop pos s @ takeWhile (\<lambda>x. x \<noteq> c) t"
    by (metis (mono_tags, lifting) takeWhile_append2)
  then show ?thesis using n assms(2) by (simp add: find_char_def find_str_def find_in_char)
qed

text \<open>A parameter appended to a value does not change the names scanned before it.\<close>

definition name_at :: "string \<Rightarrow> nat \<Rightarrow> string" where
  "name_at hv start = trim (substr hv start
     ((case min_pos (find_char (CHR ''='') hv start) (find_char (CHR '';'') hv start) of
         None \<Rightarrow> length hv | Some i \<Rightarrow> i) - start))"

lemma name_at_append:
  assumes "start \<le> length s"
  shows "name_at (s @ CHR '';'' # t) start = name_at s start"
proof -
  let ?s = "s @ CHR '';'' # t"
  define e where "e = (case min_pos (find_char (CHR ''='') s start) (find_char (CHR '';'') s start) of
         None \<Rightarrow> length s | Some i \<Rightarrow> i)"
  have le: "e \<le> length s"
    by (auto simp: e_def min_pos_def dest: find_char_bound split: option.splits)
  have semi: "find_char (CHR '';'') ?s (length s) = Some (length s)"
    using find_char_at [of "CHR '';''" "[]" s t] by simp
  have eqs: "find_char (CHR ''='') ?s (length s) = None \<or> (\<exists>i. find_char (CHR ''='') ?s (length s) = Some i \<and> length s \<le> i)"
    using find_char_bound by (cases "find_char (CHR ''='') ?s (length s)") auto
  have "(case min_pos (find_char (CHR ''='') ?s start) (find_char (CHR '';'') ?s start) of
         None \<Rightarrow> length ?s | Some i \<Rightarrow> i) = e"
    using eqs semi
    by (cases "find_char (CHR ''='') s start"; cases "find_char (CHR '';'') s start")
      (auto simp: e_def min_pos_def find_char_append_left find_char_append_right [OF _ assms] min_def
        split: option.splits dest: find_char_bound)
  then show ?thesis using le assms by (simp add: name_at_def e_def [symmetric] substr_def)
qed

lemma headerParam_step:
  assumes "find_char (CHR '';'') hv pos = Some p" "\<not> iequals (name_at hv (p + 1)) param"
  shows "headerParam_from hv param pos = headerParam_from hv param (p + 1)"
  using assms by (subst headerParam_from.simps) (simp add: Let_def name_at_def)

lemma headerParam_hit:
  "find_char (CHR '';'') hv pos = Some p \<Longrightarrow> iequals (name_at hv (p + 1)) param \<Longrightarrow>
   headerParam_from hv param pos \<noteq> None"
  by (subst headerParam_from.simps) (simp add: Let_def name_at_def split: option.splits)

lemma headerParam_append:
  "pos \<le> length s \<Longrightarrow> headerParam_from s param pos = None \<Longrightarrow>
   headerParam_from (s @ CHR '';'' # t) param pos = headerParam_from (s @ CHR '';'' # t) param (length s)"
proof (induction s param pos rule: headerParam_from.induct)
  case (1 s param pos)
  let ?s = "s @ CHR '';'' # t"
  show ?case
  proof (cases "find_char (CHR '';'') s pos")
    case None
    then have "find_char (CHR '';'') ?s pos = find_char (CHR '';'') ?s (length s)"
      using find_char_append_right 1(2) by blast
    then show ?thesis by (subst (1 2) headerParam_from.simps) simp
  next
    case (Some p)
    then have p: "p + 1 \<le> length s" using find_char_bound by fastforce
    have no: "\<not> iequals (name_at s (p + 1)) param" using headerParam_hit [OF Some] 1(3) by blast
    have "headerParam_from s param (p + 1) = None" using headerParam_step [OF Some no] 1(3) by simp
    then have "headerParam_from ?s param (p + 1) = headerParam_from ?s param (length s)"
      using 1(1) [OF Some] p no by (simp add: name_at_def)
    moreover have "\<not> iequals (name_at ?s (p + 1)) param" using no name_at_append [OF p] by simp
    ultimately show ?thesis using headerParam_step [OF find_char_append_left [OF Some]] by simp
  qed
qed

lemma headerParam_found:
  assumes "CHR '';'' \<notin> set param" "CHR ''='' \<notin> set param" "trimmed param" "CHR '';'' \<notin> set v"
  shows "headerParam_from (s @ CHR '';'' # param @ CHR ''='' # v) param (length s) = Some (trim v)"
proof -
  let ?s = "s @ CHR '';'' # param @ CHR ''='' # v"
  have p: "find_char (CHR '';'') ?s (length s) = Some (length s)"
    using find_char_at [of "CHR '';''" "[]" s] by simp
  have e: "find_char (CHR ''='') ?s (length s + 1) = Some (length s + 1 + length param)"
    using find_char_at [OF assms(2), of "s @ '';''" v] by simp
  have semi: "find_char (CHR '';'') ?s (length s + 1) = None"
    using assms(1,4) by (intro find_char_none) auto
  have semi2: "find_char (CHR '';'') ?s (length s + 1 + length param + 1) = None"
    using assms(4) by (intro find_char_none) auto
  have parts: "substr ?s (length s + 1) (length param) = param"
    "substr ?s (length s + 1 + length param + 1) (length ?s - (length s + 1 + length param) - 1) = v"
    by (simp_all add: substr_def)
  have d: "length s + 1 + length param - (length s + 1) = length param" by simp
  have "iequals param param" by (simp add: iequals_lower)
  then show ?thesis
    by (subst headerParam_from.simps)
      (simp only: p option.case e semi semi2 Let_def min_pos_def prod.case d parts trim_trimmed [OF assms(3)] if_True)
qed

lemma headerParam_appended:
  assumes "headerParam s param = None" "CHR '';'' \<notin> set param" "CHR ''='' \<notin> set param" "trimmed param"
    "CHR '';'' \<notin> set v"
  shows "headerParam (s @ CHR '';'' # param @ CHR ''='' # v) param = Some (trim v)"
  using headerParam_append [of 0 s param "param @ CHR ''='' # v"] headerParam_found [OF assms(2-5), of s] assms(1)
  by (simp add: headerParam_def)

interpretation sip: wire_format serialize parseSip sip_wf sip_norm
proof
  fix m assume wf: "sip_wf m"
  show "parseSip (serialize m) = Some (sip_norm m)" by (rule sip_roundtrip [OF wf])
  have h: "header_ok (map_prod id trim h)" if "header_ok h" for h
    using that by (simp add: header_ok_def)
  show "sip_wf (sip_norm m)"
    using wf h cl_header_ok [of m]
    by (auto simp: sip_wf_def sip_norm_def norm_start_def norm_headers_def start_ok_def list_all_iff cl_header_def
        sip_message_init_def)
  have f: "map (map_prod id trim) (filter (\<lambda>h. \<not> is_cl h) (map (map_prod id trim) (filter (\<lambda>h. \<not> is_cl h) hs))) =
      map (map_prod id trim) (filter (\<lambda>h. \<not> is_cl h) hs)" for hs
    by (induction hs) (auto simp: is_cl_def)
  have "is_cl (''Content-Length'', v)" for v by (simp add: is_cl_def iequals_lower)
  then show "sip_norm (sip_norm m) = sip_norm m"
    by (simp add: sip_norm_def norm_start_def norm_headers_def f)
qed

lemma parseCSeq_print:
  assumes "- long_max - 1 \<le> n" "n \<le> long_max" "trimmed meth" "meth \<noteq> []"
  shows "parseCSeq (to_string n @ '' '' @ meth) = Some \<lparr>cs_number = n, cs_method = meth\<rparr>"
proof -
  let ?v = "to_string n @ CHR '' '' # meth"
  have tok: "token (to_string n)" by (rule to_string_token)
  then have sp: "CHR '' '' \<notin> set (to_string n)" by (auto simp: token_def is_space_def)
  have "trimmed ?v" using tok assms(3,4) is_ws_space [of "hd (to_string n)"] by (auto simp: trimmed_def token_def)
  moreover have "strtol ?v = (n, True)"
    using strtol_to_string [OF assms(1,2), of "CHR '' '' # meth"] by (simp add: is_digit_def)
  ultimately show ?thesis
    using find_char_first [OF sp, of meth] assms(3,4) by (simp add: parseCSeq_def Let_def)
qed

section \<open>Properties\<close>

text \<open>C3. What is serialised parses back: for every well-formed message (request or response, any
number of headers in any order, any body), \<open>parseSip\<close> accepts \<open>serialize m\<close> and returns the message
itself, with values trimmed and the Content-Length recomputed from the body; so a message cannot be
desynchronised from its length.\<close>

theorem sip_serialize_parse: "sip_wf m \<Longrightarrow> parseSip (serialize m) = Some (sip_norm m)"
  by (rule sip.get_put)

theorem sip_serialize_parse_witness:
  "let m = sip_message_init\<lparr>sip_method := ''BYE'', requestUri := ''sip:a@h'',
       sip_headers := [(''Via'', ''x''), (''content-LENGTH'', ''7''), (''via'', '' y'')], sip_body := ''hi''\<rparr>
   in parseSip (serialize m) = Some (sip_norm m)"
  unfolding Let_def
  by (rule sip_serialize_parse)
    (simp add: sip_wf_def start_ok_def version_ok_def header_ok_def sip_message_init_def starts_with_def
      trimmed_def is_ws_def long_max_def)

text \<open>C33. Whatever the parser accepts from the network can be forwarded: a request (or a response with a
code of at least 100) that \<open>parseSip\<close> returns is well-formed, its serialisation parses, and parsing and
serialising once more changes nothing.\<close>

theorem sip_parse_forward:
  assumes "parseSip raw = Some m" "int (length raw) \<le> long_max" "isRequest m \<or> 100 \<le> statusCode m"
  shows "sip_wf m \<and> parseSip (serialize m) = Some (sip_norm m)
    \<and> parseSip (serialize (sip_norm m)) = Some (sip_norm m)"
  using parsed_wf [OF assms] sip.get_put sip.get_put_norm by blast

theorem sip_parse_forward_witness:
  "let raw = ''OPTIONS  sip:h SIP/2.0'' @ CRLF @ ''Via: a'' @ CRLF @ '' b'' @ CRLF @ CRLF;
       m = sip_message_init\<lparr>sip_method := ''OPTIONS'', requestUri := ''sip:h'', sip_headers := [(''Via'', ''a b'')]\<rparr>
   in sip_wf m \<and> parseSip (serialize m) = Some (sip_norm m)
     \<and> parseSip (serialize (sip_norm m)) = Some (sip_norm m)"
  unfolding Let_def
proof (rule sip_parse_forward)
  show "parseSip (''OPTIONS  sip:h SIP/2.0'' @ CRLF @ ''Via: a'' @ CRLF @ '' b'' @ CRLF @ CRLF)
    = Some (sip_message_init\<lparr>sip_method := ''OPTIONS'', requestUri := ''sip:h'', sip_headers := [(''Via'', ''a b'')]\<rparr>)"
    by code_simp
qed (simp_all add: CRLF_def long_max_def sip_message_init_def)

text \<open>A parameter appended to a header value is the one found: when \<open>headerParam\<close> finds no parameter
of a name, appending \<open>;name=value\<close> makes it return that value, whatever the value contained before.\<close>

theorem headerParam_append_found:
  assumes "headerParam s param = None" "CHR '';'' \<notin> set param" "CHR ''='' \<notin> set param" "trimmed param"
    "CHR '';'' \<notin> set v"
  shows "headerParam (s @ CHR '';'' # param @ CHR ''='' # v) param = Some (trim v)"
  by (rule headerParam_appended [OF assms])

theorem headerParam_append_found_witness:
  "headerParam (''<sip:b@h>;x=1;flag'' @ CHR '';'' # ''tag'' @ CHR ''='' # ''sd1'') ''tag'' = Some (trim ''sd1'')"
proof (rule headerParam_append_found)
  show "headerParam ''<sip:b@h>;x=1;flag'' ''tag'' = None" by code_simp
qed (simp_all add: trimmed_def is_ws_def)

text \<open>\<open>headerParam\<close> does not skip the URI: a parameter inside the angle brackets counts as one of the
header, with the bracket in its value.\<close>

theorem headerParam_inside_uri: "headerParam ''<sip:bob@host;tag=x>'' ''tag'' = Some ''x>''"
  by code_simp

end
