(* ===== verification/Sdp.thy ===== *)
theory Sdp
  imports Cxx_Strings
begin

text \<open>
  The session descriptions of src/src/sip/Sdp.cpp and src/include/sipdemo/Sdp.h: the line parser, the
  generator and the offer/answer rule. \<open>int\<close> fields are integers, which \<open>atoi\<close> keeps within 32 bits.
\<close>

section \<open>Definitions\<close>

record sdp_session =
  sdp_username :: string
  sessionId :: u64
  sessionVersion :: u64
  connectionAddress :: string
  audioPort :: u16
  payloadTypes :: "int list"
  ptimeMs :: int
  dtmfPayloadType :: int

definition sdp_session_init :: sdp_session where
  "sdp_session_init = \<lparr>sdp_username = ''-'', sessionId = 0, sessionVersion = 0,
     connectionAddress = ''127.0.0.1'', audioPort = 0, payloadTypes = [], ptimeMs = 20, dtmfPayloadType = - 1\<rparr>"

definition offersPcmu :: "sdp_session \<Rightarrow> bool" where
  "offersPcmu s \<longleftrightarrow> 0 \<in> set (payloadTypes s)"

definition offersPcma :: "sdp_session \<Rightarrow> bool" where
  "offersPcma s \<longleftrightarrow> 8 \<in> set (payloadTypes s)"

definition offersDtmf :: "sdp_session \<Rightarrow> bool" where
  "offersDtmf s \<longleftrightarrow> dtmfPayloadType s \<ge> 0"

definition parseRtpmap :: "string \<Rightarrow> (int \<times> string) option" where
  "parseRtpmap val =
    (if \<not> starts_with ''rtpmap:'' val then None
     else
       (let rest = drop 7 val in
        case find_char (CHR '' '') rest 0 of
          None \<Rightarrow> None
        | Some space \<Rightarrow>
            (let pt = atoi (substr rest 0 space);
                 nameRate = drop (space + 1) rest;
                 name = (case find_char (CHR ''/'') nameRate 0 of None \<Rightarrow> nameRate | Some i \<Rightarrow> substr nameRate 0 i)
             in Some (pt, toLower name))))"

text \<open>The lines that \<open>generate\<close> writes, each followed by CR LF.\<close>

definition sdp_rtpmap :: "sdp_session \<Rightarrow> int \<Rightarrow> string list" where
  "sdp_rtpmap s pt =
    (if pt = 0 then [''a=rtpmap:0 PCMU/8000'']
     else if pt = 8 then [''a=rtpmap:8 PCMA/8000'']
     else if pt = dtmfPayloadType s \<and> dtmfPayloadType s \<ge> 0 then
       [''a=rtpmap:'' @ to_string pt @ '' telephone-event/8000'', ''a=fmtp:'' @ to_string pt @ '' 0-15'']
     else [])"

definition sdp_lines :: "sdp_session \<Rightarrow> string list" where
  "sdp_lines s =
    [''v=0'',
     ''o='' @ sdp_username s @ '' '' @ to_dec (unat (sessionId s)) @ '' '' @ to_dec (unat (sessionVersion s))
       @ '' IN IP4 '' @ connectionAddress s,
     ''s=sipdemo'',
     ''c=IN IP4 '' @ connectionAddress s,
     ''t=0 0'',
     ''m=audio '' @ to_dec (unat (audioPort s)) @ '' RTP/AVP'' @ concat (map (\<lambda>pt. '' '' @ to_string pt) (payloadTypes s))]
    @ concat (map (sdp_rtpmap s) (payloadTypes s))
    @ [''a=ptime:'' @ to_string (ptimeMs s), ''a=sendrecv'']"

definition sdp_generate :: "sdp_session \<Rightarrow> string" where
  "sdp_generate s = concat (map (\<lambda>l. l @ [CHR 0x0D, CHR 0x0A]) (sdp_lines s))"

text \<open>The loop of \<open>parseSdp\<close>: the session, \<open>haveAudio\<close> and \<open>haveConnection\<close>.\<close>

type_synonym sdp_state = "sdp_session \<times> bool \<times> bool"

definition sdp_line :: "sdp_state \<Rightarrow> string \<Rightarrow> sdp_state" where
  "sdp_line st line0 =
    (let (s, haveAudio, haveConnection) = st; line = trim line0
     in if length line < 2 \<or> line ! 1 \<noteq> CHR ''='' then st
        else
          (let type = line ! 0; val = drop 2 line
           in if type = CHR ''o'' then
                (let t = tokenize val
                 in if length t \<ge> 6 then
                      (s\<lparr>sdp_username := t ! 0, sessionId := strtoull (t ! 1), sessionVersion := strtoull (t ! 2),
                         connectionAddress := t ! 5\<rparr>, haveAudio, haveConnection)
                    else st)
              else if type = CHR ''c'' then
                (let t = tokenize val
                 in if length t \<ge> 3 then (s\<lparr>connectionAddress := t ! 2\<rparr>, haveAudio, True) else st)
              else if type = CHR ''m'' then
                (let t = tokenize val
                 in if length t \<ge> 4 \<and> t ! 0 = ''audio'' then
                      (s\<lparr>audioPort := word_of_int (atoi (t ! 1)),
                         payloadTypes := payloadTypes s @ map atoi (drop 3 t)\<rparr>, True, haveConnection)
                    else st)
              else if type = CHR ''a'' then
                (if starts_with ''ptime:'' val then (s\<lparr>ptimeMs := atoi (drop 6 val)\<rparr>, haveAudio, haveConnection)
                 else
                   (case parseRtpmap val of
                      None \<Rightarrow> st
                    | Some (pt, name) \<Rightarrow>
                        if name = ''telephone-event'' then (s\<lparr>dtmfPayloadType := pt\<rparr>, haveAudio, haveConnection)
                        else st))
              else st))"

definition parseSdp :: "string \<Rightarrow> sdp_session option" where
  "parseSdp body =
    (let (s, haveAudio, haveConnection) = foldl sdp_line (sdp_session_init, False, False) (getlines [] body)
     in if \<not> haveAudio \<or> payloadTypes s = [] then None
        else if \<not> haveConnection \<and> connectionAddress s = [] then None
        else Some s)"

definition makeAnswer :: "sdp_session \<Rightarrow> string \<Rightarrow> u16 \<Rightarrow> sdp_session option" where
  "makeAnswer offer localAddr localPort =
    (let chosen = (if offersPcmu offer then 0 else if offersPcma offer then 8 else - 1)
     in if chosen < 0 then None
        else
          (let ans = sdp_session_init\<lparr>sdp_username := ''sipdemo'',
                 sessionId := (if sessionId offer \<noteq> 0 then sessionId offer else 1), sessionVersion := 1,
                 connectionAddress := localAddr, audioPort := localPort, payloadTypes := [chosen],
                 ptimeMs := (if ptimeMs offer > 0 then ptimeMs offer else 20)\<rparr>
           in Some (if dtmfPayloadType offer \<ge> 0 then
                      ans\<lparr>dtmfPayloadType := dtmfPayloadType offer,
                          payloadTypes := payloadTypes ans @ [dtmfPayloadType offer]\<rparr>
                    else ans)))"

section \<open>What is generated parses\<close>

definition int32_range :: "int \<Rightarrow> bool" where
  "int32_range i \<longleftrightarrow> - (2 ^ 31) \<le> i \<and> i < 2 ^ 31"

definition sdp_wf :: "sdp_session \<Rightarrow> bool" where
  "sdp_wf s \<longleftrightarrow> token (sdp_username s) \<and> token (connectionAddress s) \<and> payloadTypes s \<noteq> []
     \<and> list_all int32_range (payloadTypes s) \<and> int32_range (ptimeMs s)
     \<and> (dtmfPayloadType s = - 1 \<or> 0 \<le> dtmfPayloadType s \<and> dtmfPayloadType s \<in> set (payloadTypes s)
          \<and> dtmfPayloadType s \<noteq> 0 \<and> dtmfPayloadType s \<noteq> 8)"

definition sdp_text :: "string \<Rightarrow> bool" where
  "sdp_text l \<longleftrightarrow> trimmed l \<and> CHR 0x0A \<notin> set l"

lemma token_text: "token t \<Longrightarrow> CHR 0x0A \<notin> set t \<and> \<not> is_ws (last t) \<and> t \<noteq> []"
proof -
  assume t: "token t"
  then have "\<not> is_space (last t)" by (simp add: token_def)
  then show ?thesis using t is_ws_space [of "last t"] by (auto simp: token_def is_space_def)
qed

lemma sdp_text_prefix: "sdp_text (c # p @ t)" if "token t" "\<not> is_ws c" "CHR 0x0A \<notin> set (c # p)"
  using token_text [OF that(1)] that(2,3) by (auto simp: sdp_text_def trimmed_def)

lemma sdp_lines_text:
  assumes "sdp_wf s"
  shows "list_all sdp_text (sdp_lines s)"
proof -
  note tok = to_dec_token to_string_token
  have u: "token (sdp_username s)" "token (connectionAddress s)" "payloadTypes s \<noteq> []"
    using assms by (simp_all add: sdp_wf_def)
  have nl: "CHR 0x0A \<notin> set (to_dec n)" "CHR 0x0A \<notin> set (to_string i)" for n i
    using token_text tok by blast+
  have rm: "list_all sdp_text (sdp_rtpmap s pt)" for pt
    using nl by (auto simp: sdp_rtpmap_def sdp_text_def trimmed_def is_ws_def)
  have pts: "CHR 0x0A \<notin> set (concat (map (\<lambda>pt. '' '' @ to_string pt) pts))"
      "pts \<noteq> [] \<Longrightarrow> \<not> is_ws (last (concat (map (\<lambda>pt. '' '' @ to_string pt) pts)))" for pts
    using nl token_text [OF to_string_token] by (induction pts rule: rev_induct) auto
  have "concat (map (\<lambda>pt. '' '' @ to_string pt) (payloadTypes s)) \<noteq> []" using u(3) by (cases "payloadTypes s") simp_all
  then have m: "sdp_text (''m=audio '' @ to_dec (unat (audioPort s)) @ '' RTP/AVP''
      @ concat (map (\<lambda>pt. '' '' @ to_string pt) (payloadTypes s)))"
    using pts(1) pts(2) [OF u(3)] nl by (auto simp: sdp_text_def trimmed_def is_ws_def)
  have o: "sdp_text (''o='' @ sdp_username s @ '' '' @ to_dec (unat (sessionId s)) @ '' ''
      @ to_dec (unat (sessionVersion s)) @ '' IN IP4 '' @ connectionAddress s)"
    using token_text [OF u(1)] token_text [OF u(2)] nl by (auto simp: sdp_text_def trimmed_def is_ws_def)
  have c: "sdp_text (''c=IN IP4 '' @ connectionAddress s)" "sdp_text (''a=ptime:'' @ to_string (ptimeMs s))"
    using token_text [OF u(2)] token_text [OF to_string_token] nl by (auto simp: sdp_text_def trimmed_def is_ws_def)
  have k: "sdp_text ''v=0''" "sdp_text ''s=sipdemo''" "sdp_text ''t=0 0''" "sdp_text ''a=sendrecv''"
    by (simp_all add: sdp_text_def trimmed_def is_ws_def)
  show ?thesis using rm o m c k by (simp add: sdp_lines_def list_all_iff)
qed

lemma sdp_fold_lines:
  "list_all sdp_text ls \<Longrightarrow>
   foldl sdp_line st (getlines [] (concat (map (\<lambda>l. l @ [CHR 0x0D, CHR 0x0A]) ls))) = foldl sdp_line st ls"
proof (induction ls arbitrary: st)
  case (Cons l ls)
  have "CHR 0x0A \<notin> set (l @ [CHR 0x0D])" using Cons.prems by (simp add: sdp_text_def)
  then have "getlines [] ((l @ [CHR 0x0D]) @ CHR 0x0A # concat (map (\<lambda>l. l @ [CHR 0x0D, CHR 0x0A]) ls))
    = (l @ [CHR 0x0D]) # getlines [] (concat (map (\<lambda>l. l @ [CHR 0x0D, CHR 0x0A]) ls))"
    using getlines_line [of "l @ [CHR 0x0D]" "[]"] by simp
  moreover have "sdp_line st (l @ [CHR 0x0D]) = sdp_line st l"
    using Cons.prems trim_cr [of l] by (simp add: sdp_line_def sdp_text_def)
  ultimately show ?case using Cons by simp
qed simp

text \<open>The effect of one line on the state, per kind of line.\<close>

lemma sdp_line_o:
  assumes "trimmed (CHR ''o'' # CHR ''='' # v)" "tokenize v = [a, b, d, e, f, g]"
  shows "sdp_line (s, ha, hc) (CHR ''o'' # CHR ''='' # v) =
    (s\<lparr>sdp_username := a, sessionId := strtoull b, sessionVersion := strtoull d, connectionAddress := g\<rparr>, ha, hc)"
  using assms by (simp add: sdp_line_def Let_def numeral_eq_Suc)

lemma sdp_line_c:
  assumes "trimmed (CHR ''c'' # CHR ''='' # v)" "tokenize v = [a, b, d]"
  shows "sdp_line (s, ha, hc) (CHR ''c'' # CHR ''='' # v) = (s\<lparr>connectionAddress := d\<rparr>, ha, True)"
  using assms by (simp add: sdp_line_def Let_def numeral_eq_Suc)

lemma sdp_line_m:
  assumes "trimmed (CHR ''m'' # CHR ''='' # v)" "tokenize v = ''audio'' # p # r # pts" "pts \<noteq> []"
  shows "sdp_line (s, ha, hc) (CHR ''m'' # CHR ''='' # v) =
    (s\<lparr>audioPort := word_of_int (atoi p), payloadTypes := payloadTypes s @ map atoi pts\<rparr>, True, hc)"
  using assms by (cases pts) (simp_all add: sdp_line_def Let_def numeral_eq_Suc)

lemma sdp_line_a:
  assumes "trimmed (CHR ''a'' # CHR ''='' # v)"
  shows "sdp_line (s, ha, hc) (CHR ''a'' # CHR ''='' # v) =
    (if starts_with ''ptime:'' v then (s\<lparr>ptimeMs := atoi (drop 6 v)\<rparr>, ha, hc)
     else case parseRtpmap v of
            None \<Rightarrow> (s, ha, hc)
          | Some (pt, name) \<Rightarrow>
              if name = ''telephone-event'' then (s\<lparr>dtmfPayloadType := pt\<rparr>, ha, hc) else (s, ha, hc))"
  using assms by (simp add: sdp_line_def Let_def)

lemma sdp_line_skip:
  "sdp_line st ''v=0'' = st" "sdp_line st ''s=sipdemo'' = st" "sdp_line st ''t=0 0'' = st"
  "sdp_line st ''a=sendrecv'' = st"
  by (cases st; simp add: sdp_line_def trim_def is_ws_def parseRtpmap_def starts_with_def)+

lemma parseRtpmap_print:
  assumes "int32_range pt" "CHR '' '' \<notin> set name" "CHR ''/'' \<notin> set name"
  shows "parseRtpmap (''rtpmap:'' @ to_string pt @ '' '' @ name @ ''/8000'') = Some (pt, toLower name)"
proof -
  have sp: "CHR '' '' \<notin> set (to_string pt)" using to_string_token [of pt] by (auto simp: token_def is_space_def)
  have "find_char (CHR '' '') (to_string pt @ CHR '' '' # name @ ''/8000'') 0 = Some (length (to_string pt))"
    by (rule find_char_first [OF sp])
  moreover have "find_char (CHR ''/'') (name @ CHR ''/'' # ''8000'') 0 = Some (length name)"
    by (rule find_char_first [OF assms(3)])
  ultimately show ?thesis using assms(1)
    by (simp add: parseRtpmap_def starts_with_def Let_def substr_def int32_range_def atoi_to_string)
qed

lemma parseRtpmap_other: "parseRtpmap (''fmtp:'' @ v) = None"
  by (simp add: parseRtpmap_def starts_with_def)

lemma sdp_line_rtpmap:
  assumes "int32_range pt"
  shows "foldl sdp_line (s, ha, hc) (sdp_rtpmap t pt) =
    (if pt = dtmfPayloadType t \<and> 0 \<le> pt \<and> pt \<noteq> 0 \<and> pt \<noteq> 8 then s\<lparr>dtmfPayloadType := pt\<rparr> else s, ha, hc)"
proof -
  have "trimmed ''a=rtpmap:0 PCMU/8000''" "trimmed ''a=rtpmap:8 PCMA/8000''"
    by (simp_all add: trimmed_def is_ws_def)
  moreover have "parseRtpmap ''rtpmap:0 PCMU/8000'' = Some (0, ''pcmu'')"
    "parseRtpmap ''rtpmap:8 PCMA/8000'' = Some (8, ''pcma'')" by code_simp+
  ultimately have pcm: "sdp_line (s, ha, hc) ''a=rtpmap:0 PCMU/8000'' = (s, ha, hc)"
    "sdp_line (s, ha, hc) ''a=rtpmap:8 PCMA/8000'' = (s, ha, hc)"
    by (simp_all add: sdp_line_a starts_with_def)
  have "trimmed (''a=rtpmap:'' @ to_string pt @ '' telephone-event/8000'')" "trimmed (''a=fmtp:'' @ to_string pt @ '' 0-15'')"
    by (simp_all add: trimmed_def is_ws_def)
  moreover have "toLower ''telephone-event'' = ''telephone-event''" by code_simp
  ultimately have te: "sdp_line (s', ha, hc) (''a=rtpmap:'' @ to_string pt @ '' telephone-event/8000'') = (s'\<lparr>dtmfPayloadType := pt\<rparr>, ha, hc)"
    "sdp_line (s', ha, hc) (''a=fmtp:'' @ to_string pt @ '' 0-15'') = (s', ha, hc)" for s'
    using parseRtpmap_print [OF assms, of "''telephone-event''"] parseRtpmap_other [of "to_string pt @ '' 0-15''"]
    by (simp_all add: sdp_line_a starts_with_def)
  show ?thesis using pcm te by (auto simp: sdp_rtpmap_def)
qed

lemma sdp_lines_rtpmap:
  "list_all int32_range pts \<Longrightarrow>
   foldl sdp_line (s, ha, hc) (concat (map (sdp_rtpmap t) pts)) =
    (if dtmfPayloadType t \<in> set pts \<and> 0 < dtmfPayloadType t \<and> dtmfPayloadType t \<noteq> 8
     then s\<lparr>dtmfPayloadType := dtmfPayloadType t\<rparr> else s, ha, hc)"
  by (induction pts arbitrary: s) (auto simp: sdp_line_rtpmap)

lemma atoi_to_dec: "n < 2 ^ 31 \<Longrightarrow> atoi (to_dec n) = int n"
  using atoi_to_string [of "int n"] by (simp add: to_string_def)

text \<open>The four lines with variable text, as key and value.\<close>

definition sdp_o_value :: "sdp_session \<Rightarrow> string" where
  "sdp_o_value s = sdp_username s @ '' '' @ to_dec (unat (sessionId s)) @ '' '' @ to_dec (unat (sessionVersion s))
       @ '' IN IP4 '' @ connectionAddress s"

definition sdp_c_value :: "sdp_session \<Rightarrow> string" where
  "sdp_c_value s = ''IN IP4 '' @ connectionAddress s"

definition sdp_m_value :: "sdp_session \<Rightarrow> string" where
  "sdp_m_value s = ''audio '' @ to_dec (unat (audioPort s)) @ '' RTP/AVP''
     @ concat (map (\<lambda>pt. '' '' @ to_string pt) (payloadTypes s))"

lemma sdp_lines_keyed:
  "sdp_lines s = [''v=0'', CHR ''o'' # CHR ''='' # sdp_o_value s, ''s=sipdemo'', CHR ''c'' # CHR ''='' # sdp_c_value s,
     ''t=0 0'', CHR ''m'' # CHR ''='' # sdp_m_value s] @ concat (map (sdp_rtpmap s) (payloadTypes s))
     @ [CHR ''a'' # CHR ''='' # (''ptime:'' @ to_string (ptimeMs s)), ''a=sendrecv'']"
  by (simp add: sdp_lines_def sdp_o_value_def sdp_c_value_def sdp_m_value_def)

lemma sdp_values_tokens:
  assumes "sdp_wf s"
  shows "tokenize (sdp_o_value s) = [sdp_username s, to_dec (unat (sessionId s)), to_dec (unat (sessionVersion s)),
      ''IN'', ''IP4'', connectionAddress s]"
    and "tokenize (sdp_c_value s) = [''IN'', ''IP4'', connectionAddress s]"
    and "tokenize (sdp_m_value s) = ''audio'' # to_dec (unat (audioPort s)) # ''RTP/AVP'' # map to_string (payloadTypes s)"
proof -
  have tk: "token ''IN''" "token ''IP4''" "token ''audio''" "token ''RTP/AVP''" by (simp_all add: token_def is_space_def)
  have u: "token (sdp_username s)" "token (connectionAddress s)" using assms by (simp_all add: sdp_wf_def)
  show "tokenize (sdp_o_value s) = [sdp_username s, to_dec (unat (sessionId s)), to_dec (unat (sessionVersion s)),
      ''IN'', ''IP4'', connectionAddress s]"
    using tokenize_join [of "sdp_username s" "[to_dec (unat (sessionId s)), to_dec (unat (sessionVersion s)), ''IN'', ''IP4'',
      connectionAddress s]"] u tk by (simp add: to_dec_token sdp_o_value_def)
  show "tokenize (sdp_c_value s) = [''IN'', ''IP4'', connectionAddress s]"
    using tokenize_join [of "''IN''" "[''IP4'', connectionAddress s]"] u tk by (simp add: sdp_c_value_def)
  show "tokenize (sdp_m_value s) = ''audio'' # to_dec (unat (audioPort s)) # ''RTP/AVP'' # map to_string (payloadTypes s)"
    using tokenize_join [of "''audio''" "to_dec (unat (audioPort s)) # ''RTP/AVP'' # map to_string (payloadTypes s)"] tk
    by (simp add: to_dec_token to_string_token list_all_iff comp_def sdp_m_value_def)
qed

lemma sdp_roundtrip:
  assumes "sdp_wf s"
  shows "parseSdp (sdp_generate s) = Some s"
proof -
  note wf = assms [unfolded sdp_wf_def]
  note txt_ok = sdp_lines_text [OF assms] and tok = sdp_values_tokens [OF assms]
  have trims: "list_all trimmed (sdp_lines s)" using txt_ok by (simp add: list_all_iff sdp_text_def)
  have port: "word_of_int (atoi (to_dec (unat (audioPort s)))) = audioPort s"
  proof -
    have "unat (audioPort s) < 2 ^ 31" using unsigned_less [where 'a = nat, of "audioPort s"] by simp
    then have "atoi (to_dec (unat (audioPort s))) = int (unat (audioPort s))" by (rule atoi_to_dec)
    then show ?thesis by simp
  qed
  have pts: "map atoi (map to_string (payloadTypes s)) = payloadTypes s"
    using wf by (auto simp: list_all_iff int32_range_def atoi_to_string intro!: map_idI)
  have pt: "starts_with ''ptime:'' (''ptime:'' @ v)" "drop 6 (''ptime:'' @ v) = v" for v by (simp_all add: starts_with_def)
  have t: "trimmed (CHR ''o'' # CHR ''='' # sdp_o_value s)" "trimmed (CHR ''c'' # CHR ''='' # sdp_c_value s)"
    "trimmed (CHR ''m'' # CHR ''='' # sdp_m_value s)" "trimmed (CHR ''a'' # CHR ''='' # (''ptime:'' @ to_string (ptimeMs s)))"
    using trims unfolding sdp_lines_keyed list_all_append list.pred_inject by blast+
  have ptime: "atoi (to_string (ptimeMs s)) = ptimeMs s" using wf by (simp add: int32_range_def atoi_to_string)
  have ne: "map to_string (payloadTypes s) \<noteq> []" using wf by simp
  have rmap: "list_all int32_range (payloadTypes s)" using wf by blast
  define s1 where "s1 = sdp_session_init\<lparr>sdp_username := sdp_username s, sessionId := sessionId s,
    sessionVersion := sessionVersion s, connectionAddress := connectionAddress s\<rparr>"
  have hd: "foldl sdp_line (sdp_session_init, False, False) [''v=0'', CHR ''o'' # CHR ''='' # sdp_o_value s, ''s=sipdemo'',
      CHR ''c'' # CHR ''='' # sdp_c_value s, ''t=0 0''] = (s1, False, True)"
    by (simp only: foldl.simps sdp_line_skip sdp_line_o [OF t(1) tok(1)] sdp_line_c [OF t(2) tok(2)] strtoull_to_dec)
      (simp add: s1_def)
  have m: "sdp_line (s1, False, True) (CHR ''m'' # CHR ''='' # sdp_m_value s)
      = (s1\<lparr>audioPort := audioPort s, payloadTypes := payloadTypes s\<rparr>, True, True)"
    by (simp only: sdp_line_m [OF t(3) tok(3) ne] port pts) (simp add: s1_def sdp_session_init_def)
  have tl: "foldl sdp_line (s', True, True) [CHR ''a'' # CHR ''='' # (''ptime:'' @ to_string (ptimeMs s)), ''a=sendrecv'']
      = (s'\<lparr>ptimeMs := ptimeMs s\<rparr>, True, True)" for s'
    by (simp only: foldl.simps sdp_line_a [OF t(4)] pt if_True ptime sdp_line_skip)
  have "foldl sdp_line (sdp_session_init, False, False) (sdp_lines s) = (s, True, True)"
  proof -
    let ?d = "dtmfPayloadType s \<in> set (payloadTypes s) \<and> 0 < dtmfPayloadType s \<and> dtmfPayloadType s \<noteq> 8"
    let ?s2 = "s1\<lparr>audioPort := audioPort s, payloadTypes := payloadTypes s\<rparr>"
    have "foldl sdp_line (sdp_session_init, False, False) (sdp_lines s)
      = ((if ?d then ?s2\<lparr>dtmfPayloadType := dtmfPayloadType s\<rparr> else ?s2)\<lparr>ptimeMs := ptimeMs s\<rparr>, True, True)"
      using hd m sdp_lines_rtpmap [OF rmap, of ?s2 True True s] tl
      unfolding sdp_lines_keyed by (simp only: foldl_append foldl.simps)
    moreover have "dtmfPayloadType s = - 1 \<or> ?d" using wf by auto
    ultimately show ?thesis by (auto simp: s1_def sdp_session_init_def)
  qed
  then show ?thesis
    using sdp_fold_lines [OF txt_ok] wf by (simp add: parseSdp_def sdp_generate_def)
qed

interpretation sdp: wire_format sdp_generate parseSdp sdp_wf id
  by unfold_locales (simp_all add: sdp_roundtrip)

section \<open>What is accepted, and the answer\<close>

definition sdp_ok :: "sdp_session \<Rightarrow> bool" where
  "sdp_ok s \<longleftrightarrow> token (sdp_username s) \<and> token (connectionAddress s) \<and> list_all int32_range (payloadTypes s)
     \<and> int32_range (ptimeMs s) \<and> int32_range (dtmfPayloadType s)"

definition sdp_st_ok :: "sdp_state \<Rightarrow> bool" where
  "sdp_st_ok st = sdp_ok (fst st)"

lemma atoi_range: "int32_range (atoi s)"
  using int32_bounds by (simp add: atoi_def int32_range_def)

lemma parseRtpmap_range: "parseRtpmap v = Some (pt, name) \<Longrightarrow> int32_range pt"
  using atoi_range by (auto simp: parseRtpmap_def Let_def split: if_splits option.splits)

lemma tokenize_nth: "i < length (tokenize v) \<Longrightarrow> token (tokenize v ! i)"
  using tokenize_tokens nth_mem by blast

lemma sdp_upd_ok:
  assumes "sdp_ok s"
  shows "token a \<Longrightarrow> token g \<Longrightarrow> sdp_ok (s\<lparr>sdp_username := a, sessionId := b, sessionVersion := d, connectionAddress := g\<rparr>)"
    "token g \<Longrightarrow> sdp_ok (s\<lparr>connectionAddress := g\<rparr>)"
    "sdp_ok (s\<lparr>audioPort := p, payloadTypes := payloadTypes s @ map atoi ts\<rparr>)"
    "sdp_ok (s\<lparr>ptimeMs := atoi v\<rparr>)"
    "int32_range i \<Longrightarrow> sdp_ok (s\<lparr>dtmfPayloadType := i\<rparr>)"
  using assms by (auto simp: sdp_ok_def list_all_iff atoi_range)

lemma if_rule: "(c \<Longrightarrow> P x) \<Longrightarrow> (\<not> c \<Longrightarrow> P y) \<Longrightarrow> P (if c then x else y)"
  by simp

lemma sdp_line_ok:
  assumes "sdp_ok s"
  shows "sdp_ok (fst (sdp_line (s, ha, hc) l))"
proof -
  obtain line v where l: "line = trim l" "v = drop 2 line" by blast
  have t: "6 \<le> length (tokenize v) \<Longrightarrow> token (tokenize v ! 0) \<and> token (tokenize v ! 5)"
    "3 \<le> length (tokenize v) \<Longrightarrow> token (tokenize v ! 2)"
    by (auto intro!: tokenize_nth)
  have r: "sdp_ok (fst (case parseRtpmap v of None \<Rightarrow> (s, ha, hc) | Some (pt, name) \<Rightarrow>
      if name = ''telephone-event'' then (s\<lparr>dtmfPayloadType := pt\<rparr>, ha, hc) else (s, ha, hc)))"
    using assms sdp_upd_ok(5) [OF assms] parseRtpmap_range [of v] by (auto split: option.split)
  show ?thesis
    unfolding sdp_line_def Let_def prod.case l(1) [symmetric] l(2) [symmetric]
    by (intro if_rule [where P = "\<lambda>st. sdp_ok (fst st)"]) (simp_all only: fst_conv assms r t sdp_upd_ok [OF assms])
qed

interpretation sdpm: machine sdp_line sdp_st_ok
proof
  fix st l assume "sdp_st_ok st"
  then show "sdp_st_ok (sdp_line st l)"
    using sdp_line_ok by (cases st) (simp add: sdp_st_ok_def)
qed

lemma parseSdp_ok: "parseSdp body = Some s \<Longrightarrow> sdp_ok s \<and> payloadTypes s \<noteq> []"
proof -
  have "sdp_st_ok (sdp_session_init, False, False)"
    by (simp add: sdp_st_ok_def sdp_ok_def sdp_session_init_def token_def is_space_def int32_range_def)
  then have "sdp_st_ok (foldl sdp_line (sdp_session_init, False, False) (getlines [] body))" by (rule sdpm.inv_run)
  then show "parseSdp body = Some s \<Longrightarrow> sdp_ok s \<and> payloadTypes s \<noteq> []"
    by (auto simp: parseSdp_def sdp_st_ok_def split: prod.splits if_splits)
qed

lemma makeAnswer_fields:
  assumes "makeAnswer offer addr port = Some ans"
  shows "payloadTypes ans = (if 0 \<in> set (payloadTypes offer) then 0 else 8)
      # (if 0 \<le> dtmfPayloadType offer then [dtmfPayloadType offer] else [])"
    "connectionAddress ans = addr" "audioPort ans = port" "sdp_username ans = ''sipdemo''"
    "ptimeMs ans = (if 0 < ptimeMs offer then ptimeMs offer else 20)"
    "dtmfPayloadType ans = (if 0 \<le> dtmfPayloadType offer then dtmfPayloadType offer else - 1)"
    "0 \<in> set (payloadTypes offer) \<or> 8 \<in> set (payloadTypes offer)"
  using assms by (auto simp: makeAnswer_def Let_def offersPcmu_def offersPcma_def sdp_session_init_def split: if_splits)

lemma makeAnswer_wf:
  assumes "sdp_ok offer" "makeAnswer offer addr port = Some ans" "token addr"
    "dtmfPayloadType offer \<noteq> 0" "dtmfPayloadType offer \<noteq> 8"
  shows "sdp_wf ans"
proof -
  have "token ''sipdemo''" by (simp add: token_def is_space_def)
  then show ?thesis
    using assms(1,3-5) makeAnswer_fields [OF assms(2)]
    by (auto simp: sdp_wf_def sdp_ok_def int32_range_def)
qed

section \<open>Properties\<close>

text \<open>C15. Offer and answer texts are faithful: every well-formed session description parses back from
the text that \<open>generate\<close> writes for it, with all its fields (64-bit ids, port, payload types in order,
ptime and the telephone-event type).\<close>

theorem sdp_generate_parse: "sdp_wf s \<Longrightarrow> parseSdp (sdp_generate s) = Some s"
  by (rule sdp_roundtrip)

theorem sdp_generate_parse_witness:
  "let s = sdp_session_init\<lparr>sessionId := - 1, audioPort := 65535, payloadTypes := [8, 0, 101], dtmfPayloadType := 101\<rparr>
   in parseSdp (sdp_generate s) = Some s"
  unfolding Let_def
  by (rule sdp_generate_parse)
    (simp add: sdp_wf_def sdp_session_init_def token_def is_space_def int32_range_def)



text \<open>What \<open>parseSdp\<close> accepts is usable: at least one payload type, all numbers within 32 bits, and a
connection address that is a nonempty token; so its final test of the address never fires, and a body
is rejected only for want of an audio line.\<close>

theorem parseSdp_accepts:
  "parseSdp body = (let (s, haveAudio, haveConnection) = foldl sdp_line (sdp_session_init, False, False) (getlines [] body)
     in if haveAudio \<and> payloadTypes s \<noteq> [] then Some s else None)
   \<and> (\<forall>s. parseSdp body = Some s \<longrightarrow> sdp_ok s \<and> payloadTypes s \<noteq> [])"
proof -
  let ?st = "foldl sdp_line (sdp_session_init, False, False) (getlines [] body)"
  have "sdp_st_ok (sdp_session_init, False, False)"
    by (simp add: sdp_st_ok_def sdp_ok_def sdp_session_init_def token_def is_space_def int32_range_def)
  then have "sdp_st_ok ?st" by (rule sdpm.inv_run)
  then have "connectionAddress (fst ?st) \<noteq> []" by (simp add: sdp_st_ok_def sdp_ok_def token_def)
  moreover obtain s a c where st: "?st = (s, a, c)" by (cases ?st)
  ultimately have "parseSdp body = (if a \<and> payloadTypes s \<noteq> [] then Some s else None)"
    unfolding parseSdp_def st by simp
  moreover have "\<forall>s. parseSdp body = Some s \<longrightarrow> sdp_ok s \<and> payloadTypes s \<noteq> []" using parseSdp_ok by blast
  ultimately show ?thesis unfolding st Let_def prod.case by (rule conjI)
qed

theorem parseSdp_accepts_witness:
  "\<exists>s. parseSdp ''m=audio 1 RTP/AVP 0'' = Some s \<and> sdp_ok s \<and> payloadTypes s \<noteq> []"
proof -
  have "parseSdp ''m=audio 1 RTP/AVP 0'' \<noteq> None" by code_simp
  then show ?thesis using parseSdp_accepts [of "''m=audio 1 RTP/AVP 0''"] by blast
qed

text \<open>A body without any address is accepted with the loopback address, an \<open>o=\<close> line after the \<open>c=\<close>
line overrides it, and an offer that maps telephone-event to type 0 loses it in the answer's text.\<close>

lemma sdp_no_address_accepted:
  "map_option connectionAddress (parseSdp ''m=audio 4000 RTP/AVP 0'') = Some ''127.0.0.1''"
  by code_simp

lemma sdp_origin_overrides:
  "map_option connectionAddress (parseSdp ''c=IN IP4 a\<newline>m=audio 4000 RTP/AVP 0\<newline>o=- 1 1 IN IP4 b'') = Some ''b''"
  by code_simp

lemma sdp_dtmf_on_static:
  "let offer = sdp_session_init\<lparr>payloadTypes := [0], dtmfPayloadType := 0\<rparr>
   in map_option payloadTypes (makeAnswer offer ''h'' 1) = Some [0, 0]
      \<and> map_option (\<lambda>a. map_option dtmfPayloadType (parseSdp (sdp_generate a))) (makeAnswer offer ''h'' 1) = Some (Some (- 1))"
  by code_simp

end
