(* ===== verification/Net_Os.thy ===== *)
theory Net_Os
  imports Complex_Main Cxx_Strings
begin

text \<open>
  The operating system as the sockets of the program see it. Its code is not part of the repository,
  so it is a parameter: a record of the calls that src/src/net/UdpSocket.cpp and src/src/ws/WsClient.cpp
  make, each a function of the state of the world (of any type \<open>'w\<close>). The build is the POSIX one
  (the \<open>#else\<close> branches). Conventions:
  \<^item> a file descriptor is an \<open>int\<close>, \<open>-1\<close> is the invalid one;
  \<^item> a socket address is the number of the IPv4 address and the port in host order;
  \<^item> a receive returns \<open>None\<close> on an error (a negative result), else the bytes it wrote: their
    number is the result of the call, so \<open>Some []\<close> is the end of the stream;
  \<^item> \<open>os_stop\<close> is what the atomic flag \<open>readerStop_\<close> reads, which other threads write;
  \<^item> \<open>os_random\<close> is one draw of \<open>std::random_device\<close>, \<open>os_uniform_byte seed i\<close> the \<open>i\<close>-th number below
    256 that the library's generator draws from that seed, \<open>os_now\<close> the steady clock in seconds.

  \<open>fd_laws\<close>, \<open>tcp_laws\<close> and \<open>udp_laws\<close> state the documented behaviour that theorems rely on, over views
  of the world (the open descriptors, the bytes of each stream, the datagrams sent); each theorem
  names the ones it needs. \<open>demo_os\<close> is a small operating system that satisfies them all, in which the
  witnesses run.
\<close>

section \<open>The calls\<close>

datatype sock_kind = SockDgram | SockStream

record sockaddr =
  sa_addr :: u32
  sa_port :: u16

record 'w net_os =
  os_socket :: "sock_kind \<Rightarrow> 'w \<Rightarrow> int \<times> 'w"
  os_close :: "int \<Rightarrow> 'w \<Rightarrow> 'w"
  os_bind :: "int \<Rightarrow> sockaddr \<Rightarrow> 'w \<Rightarrow> int \<times> 'w"
  os_getsockname :: "int \<Rightarrow> 'w \<Rightarrow> sockaddr option"
  os_sendto :: "int \<Rightarrow> bytes \<Rightarrow> sockaddr \<Rightarrow> 'w \<Rightarrow> int \<times> 'w"
  os_select :: "int \<Rightarrow> int \<Rightarrow> int \<Rightarrow> 'w \<Rightarrow> int \<times> 'w"
  os_recvfrom :: "int \<Rightarrow> nat \<Rightarrow> 'w \<Rightarrow> (bytes \<times> sockaddr) option \<times> 'w"
  os_getaddrinfo :: "string \<Rightarrow> string \<Rightarrow> 'w \<Rightarrow> sockaddr option \<times> 'w"
  os_connect :: "int \<Rightarrow> sockaddr \<Rightarrow> 'w \<Rightarrow> int \<times> 'w"
  os_send :: "int \<Rightarrow> bytes \<Rightarrow> 'w \<Rightarrow> int \<times> 'w"
  os_recv :: "int \<Rightarrow> nat \<Rightarrow> 'w \<Rightarrow> bytes option \<times> 'w"
  os_pton :: "string \<Rightarrow> u32 option"
  os_ntop :: "u32 \<Rightarrow> string"
  os_strerror :: "'w \<Rightarrow> string"
  os_random :: "'w \<Rightarrow> u32 \<times> 'w"
  os_uniform_byte :: "u32 \<Rightarrow> nat \<Rightarrow> u8"
  os_now :: "'w \<Rightarrow> real"
  os_stop :: "'w \<Rightarrow> bool"

definition kInvalidFd :: int where
  "kInvalidFd = - 1"

section \<open>Documented behaviour\<close>

text \<open>
  Descriptors: a new one is not negative and was not open; \<open>close\<close> closes that one; no other call opens
  or closes any.
\<close>

definition fd_laws :: "'w net_os \<Rightarrow> ('w \<Rightarrow> int set) \<Rightarrow> bool" where
  "fd_laws os opened \<longleftrightarrow>
    (\<forall>k w fd w'. os_socket os k w = (fd, w') \<longrightarrow>
       (if fd = kInvalidFd then opened w' = opened w
        else 0 \<le> fd \<and> fd \<notin> opened w \<and> opened w' = insert fd (opened w)))
    \<and> (\<forall>fd w. opened (os_close os fd w) = opened w - {fd})
    \<and> (\<forall>fd a w. opened (snd (os_bind os fd a w)) = opened w)
    \<and> (\<forall>fd d a w. opened (snd (os_sendto os fd d a w)) = opened w)
    \<and> (\<forall>n s u w. opened (snd (os_select os n s u w)) = opened w)
    \<and> (\<forall>fd n w. opened (snd (os_recvfrom os fd n w)) = opened w)
    \<and> (\<forall>h p w. opened (snd (os_getaddrinfo os h p w)) = opened w)
    \<and> (\<forall>fd a w. opened (snd (os_connect os fd a w)) = opened w)
    \<and> (\<forall>fd d w. opened (snd (os_send os fd d w)) = opened w)
    \<and> (\<forall>fd n w. opened (snd (os_recv os fd n w)) = opened w)
    \<and> (\<forall>w. opened (snd (os_random os w)) = opened w)"

text \<open>
  Streams: \<open>sent w fd\<close> are the bytes accepted so far, \<open>coming w fd\<close> the bytes that will still be
  delivered before the stream ends or fails. A send accepts a prefix of what it is given; a receive
  delivers at most the size asked for, and something as long as there is something to come.
\<close>

definition tcp_laws :: "'w net_os \<Rightarrow> ('w \<Rightarrow> int \<Rightarrow> bytes) \<Rightarrow> ('w \<Rightarrow> int \<Rightarrow> bytes) \<Rightarrow> bool" where
  "tcp_laws os sent coming \<longleftrightarrow>
    (\<forall>fd d w n w'. os_send os fd d w = (n, w') \<longrightarrow>
       n \<le> int (length d) \<and> sent w' = (sent w)(fd := sent w fd @ take (nat n) d) \<and> coming w' = coming w)
    \<and> (\<forall>fd k w r w'. os_recv os fd k w = (r, w') \<longrightarrow> sent w' = sent w \<and>
       (case r of None \<Rightarrow> coming w fd = [] \<and> coming w' = coming w
        | Some d \<Rightarrow> length d \<le> k \<and> (0 < k \<and> coming w fd \<noteq> [] \<longrightarrow> d \<noteq> [])
            \<and> coming w fd = d @ coming w' fd \<and> (\<forall>fd'. fd' \<noteq> fd \<longrightarrow> coming w' fd' = coming w fd')))
    \<and> (\<forall>w. sent (snd (os_random os w)) = sent w \<and> coming (snd (os_random os w)) = coming w)
    \<and> (\<forall>fd w. sent (os_close os fd w) = sent w)"

text \<open>Datagrams: \<open>out w\<close> lists those sent, each with its socket and destination.\<close>

definition udp_laws :: "'w net_os \<Rightarrow> ('w \<Rightarrow> (int \<times> bytes \<times> sockaddr) list) \<Rightarrow> bool" where
  "udp_laws os out \<longleftrightarrow>
    (\<forall>fd d a w n w'. os_sendto os fd d a w = (n, w') \<longrightarrow> out w' = (if n < 0 then out w else out w @ [(fd, d, a)]))
    \<and> (\<forall>n s u w. out (snd (os_select os n s u w)) = out w)
    \<and> (\<forall>fd k w r w'. os_recvfrom os fd k w = (r, w') \<longrightarrow> out w' = out w \<and> (\<forall>d a. r = Some (d, a) \<longrightarrow> length d \<le> k))
    \<and> (\<forall>fd d w. out (snd (os_send os fd d w)) = out w)
    \<and> (\<forall>fd w. out (os_close os fd w) = out w)
    \<and> (\<forall>w. out (snd (os_random os w)) = out w)
    \<and> (\<forall>k w. out (snd (os_socket os k w)) = out w)
    \<and> (\<forall>fd a w. out (snd (os_bind os fd a w)) = out w)"

lemma fd_law_socket:
  assumes "fd_laws os opened" "os_socket os k w = (fd, w')"
  shows "(fd = kInvalidFd \<and> opened w' = opened w)
    \<or> (fd \<noteq> kInvalidFd \<and> 0 \<le> fd \<and> fd \<notin> opened w \<and> opened w' = insert fd (opened w))"
  using conjunct1 [OF assms(1) [unfolded fd_laws_def], rule_format, OF assms(2)] by (simp split: if_splits)

lemma fd_law_close: "fd_laws os opened \<Longrightarrow> opened (os_close os fd w) = opened w - {fd}"
  by (simp add: fd_laws_def)

lemma fd_law_same:
  assumes "fd_laws os opened"
  shows "os_bind os fd a w = (n, w') \<Longrightarrow> opened w' = opened w"
    "os_sendto os fd d a w = (n, w') \<Longrightarrow> opened w' = opened w"
    "os_select os m s u w = (n, w') \<Longrightarrow> opened w' = opened w"
    "os_recvfrom os fd k w = (r, w') \<Longrightarrow> opened w' = opened w"
    "os_getaddrinfo os h p w = (q, w') \<Longrightarrow> opened w' = opened w"
    "os_connect os fd a w = (n, w') \<Longrightarrow> opened w' = opened w"
    "os_send os fd d w = (n, w') \<Longrightarrow> opened w' = opened w"
    "os_recv os fd k w = (b, w') \<Longrightarrow> opened w' = opened w"
    "os_random os w = (x, w') \<Longrightarrow> opened w' = opened w"
  using assms by (simp_all add: fd_laws_def) (metis snd_conv)+

lemma tcp_law_recv:
  assumes "tcp_laws os sent coming" "os_recv os fd k w = (r, w')" "0 < k" "coming w fd \<noteq> []"
  shows "\<exists>d. r = Some d \<and> d \<noteq> [] \<and> length d \<le> k \<and> coming w fd = d @ coming w' fd
    \<and> sent w' = sent w \<and> coming w' = (coming w)(fd := coming w' fd)"
proof -
  have "\<forall>fd k w r w'. os_recv os fd k w = (r, w') \<longrightarrow> sent w' = sent w \<and>
     (case r of None \<Rightarrow> coming w fd = [] \<and> coming w' = coming w
      | Some d \<Rightarrow> length d \<le> k \<and> (0 < k \<and> coming w fd \<noteq> [] \<longrightarrow> d \<noteq> [])
          \<and> coming w fd = d @ coming w' fd \<and> (\<forall>fd'. fd' \<noteq> fd \<longrightarrow> coming w' fd' = coming w fd'))"
    using assms(1) unfolding tcp_laws_def by (elim conjE) assumption
  from this [rule_format, OF assms(2)] show ?thesis using assms(3,4) by (cases r) (auto simp: fun_eq_iff)
qed

lemma tcp_law_recv_end:
  assumes "tcp_laws os sent coming" "os_recv os fd k w = (r, w')" "coming w fd = []"
  shows "(r = None \<or> r = Some []) \<and> sent w' = sent w \<and> coming w' = coming w"
proof -
  have "\<forall>fd k w r w'. os_recv os fd k w = (r, w') \<longrightarrow> sent w' = sent w \<and>
     (case r of None \<Rightarrow> coming w fd = [] \<and> coming w' = coming w
      | Some d \<Rightarrow> length d \<le> k \<and> (0 < k \<and> coming w fd \<noteq> [] \<longrightarrow> d \<noteq> [])
          \<and> coming w fd = d @ coming w' fd \<and> (\<forall>fd'. fd' \<noteq> fd \<longrightarrow> coming w' fd' = coming w fd'))"
    using assms(1) unfolding tcp_laws_def by (elim conjE) assumption
  note l = this [rule_format, OF assms(2)]
  show ?thesis
  proof (cases r)
    case (Some d)
    with l have d: "coming w fd = d @ coming w' fd" "sent w' = sent w"
      and o: "\<forall>fd'. fd' \<noteq> fd \<longrightarrow> coming w' fd' = coming w fd'" by simp_all
    from d(1) have e: "d = [] \<and> coming w' fd = []" unfolding assms(3) by simp
    have "coming w' x = coming w x" for x by (cases "x = fd") (use e o assms(3) in \<open>blast | metis\<close>)+
    then show ?thesis using Some d(2) e by blast
  next
    case None
    with l show ?thesis by simp
  qed
qed

lemma tcp_law_send:
  assumes "tcp_laws os sent coming" "os_send os fd d w = (n, w')"
  shows "n \<le> int (length d)" "sent w' = (sent w)(fd := sent w fd @ take (nat n) d)" "coming w' = coming w"
proof -
  have "\<forall>fd d w n w'. os_send os fd d w = (n, w') \<longrightarrow>
       n \<le> int (length d) \<and> sent w' = (sent w)(fd := sent w fd @ take (nat n) d) \<and> coming w' = coming w"
    using assms(1) unfolding tcp_laws_def by (elim conjE) assumption
  from this [rule_format, OF assms(2)]
  show "n \<le> int (length d)" "sent w' = (sent w)(fd := sent w fd @ take (nat n) d)" "coming w' = coming w"
    by blast+
qed

lemma tcp_law_random:
  "tcp_laws os sent coming \<Longrightarrow> os_random os w = (x, w') \<Longrightarrow> sent w' = sent w \<and> coming w' = coming w"
  unfolding tcp_laws_def by (metis snd_conv)

lemma tcp_law_close: "tcp_laws os sent coming \<Longrightarrow> sent (os_close os fd w) = sent w"
  unfolding tcp_laws_def by blast

lemma udp_law_sendto:
  "udp_laws os out \<Longrightarrow> os_sendto os fd d a w = (n, w') \<Longrightarrow>
    out w' = (if n < 0 then out w else out w @ [(fd, d, a)])"
  by (simp add: udp_laws_def split del: if_split)

lemma udp_law_recvfrom:
  "udp_laws os out \<Longrightarrow> os_recvfrom os fd k w = (Some (d, a), w') \<Longrightarrow> length d \<le> k"
  unfolding udp_laws_def by blast

lemma udp_law_same:
  assumes "udp_laws os out"
  shows "os_select os m s u w = (n, w') \<Longrightarrow> out w' = out w"
    "os_recvfrom os fd k w = (r, w') \<Longrightarrow> out w' = out w"
    "os_send os fd d w = (n, w') \<Longrightarrow> out w' = out w"
    "os_random os w = (x, w') \<Longrightarrow> out w' = out w"
    "out (os_close os fd w) = out w"
    "os_socket os kind w = (n, w') \<Longrightarrow> out w' = out w"
    "os_bind os fd a w = (n, w') \<Longrightarrow> out w' = out w"
  using assms unfolding udp_laws_def by (metis snd_conv)+

section \<open>An operating system for the witnesses\<close>

text \<open>
  Descriptors count up; a receive on a stream delivers one byte at a time and a send accepts at most
  three, so every loop over a partial result is exercised; one port can be bound once.
\<close>

record demo_world =
  dw_open :: "int list"
  dw_next :: nat
  dw_bound :: "(int \<times> sockaddr) list"
  dw_in :: "int \<Rightarrow> bytes"
  dw_out :: "(int \<times> bytes) list"
  dw_rx :: "(bytes \<times> sockaddr) list"
  dw_tx :: "(int \<times> bytes \<times> sockaddr) list"

definition demo_world_init :: demo_world where
  "demo_world_init = \<lparr>dw_open = [], dw_next = 3, dw_bound = [], dw_in = (\<lambda>fd. []), dw_out = [], dw_rx = [], dw_tx = []\<rparr>"

definition demo_sent :: "demo_world \<Rightarrow> int \<Rightarrow> bytes" where
  "demo_sent w fd = concat (map snd (filter (\<lambda>e. fst e = fd) (dw_out w)))"

definition demo_os :: "demo_world net_os" where
  "demo_os = \<lparr>
    os_socket = (\<lambda>k w. (int (dw_next w), w\<lparr>dw_next := dw_next w + 1, dw_open := int (dw_next w) # dw_open w\<rparr>)),
    os_close = (\<lambda>fd w. w\<lparr>dw_open := removeAll fd (dw_open w),
       dw_bound := filter (\<lambda>e. fst e \<noteq> fd) (dw_bound w)\<rparr>),
    os_bind = (\<lambda>fd a w. if list_ex (\<lambda>e. sa_port (snd e) = sa_port a) (dw_bound w) then (- 1, w)
       else (0, w\<lparr>dw_bound := (fd, a) # dw_bound w\<rparr>)),
    os_getsockname = (\<lambda>fd w. map_of (dw_bound w) fd),
    os_sendto = (\<lambda>fd d a w. (int (length d), w\<lparr>dw_tx := dw_tx w @ [(fd, d, a)]\<rparr>)),
    os_select = (\<lambda>n s u w. (if dw_rx w = [] then 0 else 1, w)),
    os_recvfrom = (\<lambda>fd k w. case dw_rx w of [] \<Rightarrow> (None, w)
       | (d, a) # r \<Rightarrow> (Some (take k d, a), w\<lparr>dw_rx := r\<rparr>)),
    os_getaddrinfo = (\<lambda>h p w. (Some \<lparr>sa_addr = 0x7F000001, sa_port = 8080\<rparr>, w)),
    os_connect = (\<lambda>fd a w. (0, w)),
    os_send = (\<lambda>fd d w. (int (min 3 (length d)), w\<lparr>dw_out := dw_out w @ [(fd, take 3 d)]\<rparr>)),
    os_recv = (\<lambda>fd k w. (Some (take (min 1 k) (dw_in w fd)), w\<lparr>dw_in := (dw_in w)(fd := drop (min 1 k) (dw_in w fd))\<rparr>)),
    os_pton = (\<lambda>s. Some 0x7F000001),
    os_ntop = (\<lambda>a. ''127.0.0.1''),
    os_strerror = (\<lambda>w. ''error''),
    os_random = (\<lambda>w. (0x5A, w)),
    os_uniform_byte = (\<lambda>seed i. ucast seed + of_nat i),
    os_now = (\<lambda>w. 0),
    os_stop = (\<lambda>w. False)\<rparr>"

lemma demo_fd_laws: "fd_laws demo_os (\<lambda>w. set (dw_open w) \<inter> {0..<int (dw_next w)})"
  by (auto simp: fd_laws_def demo_os_def kInvalidFd_def split: list.splits)

lemma demo_tcp_laws: "tcp_laws demo_os demo_sent dw_in"
  by (auto simp: tcp_laws_def demo_os_def demo_sent_def fun_eq_iff min_def split: list.splits if_splits)

lemma demo_udp_laws: "udp_laws demo_os dw_tx"
  by (auto simp: udp_laws_def demo_os_def split: list.splits)

end
