(* ===== verification/Udp_Socket.thy ===== *)
theory Udp_Socket
  imports Net_Os "HOL-Library.Multiset"
begin

text \<open>
  src/src/net/UdpSocket.cpp and src/include/sipdemo/UdpSocket.h, POSIX branches. A socket object is a
  record of its descriptor and port; the operations thread the object and the world. A method that
  throws \<open>std::runtime_error\<close> returns \<open>Inl\<close> of its message, with the object and the world as they are
  at the throw. Winsock start-up (\<open>ensureWinsock\<close>) does nothing on POSIX and is left out.

  The objects of a program are a list (\<open>None\<close> once destroyed), so that moves between distinct objects,
  self-moves and destruction are operations on positions; \<open>udp_owned\<close> is the ownership invariant: the
  descriptors of the objects are distinct and are exactly the open ones.
\<close>

section \<open>Endpoints and datagrams\<close>

record endpoint =
  ep_ip :: string
  ep_port :: u16

definition endpoint_init :: endpoint where
  "endpoint_init = \<lparr>ep_ip = [], ep_port = 0\<rparr>"

definition endpoint_str :: "endpoint \<Rightarrow> string" where
  "endpoint_str e = ep_ip e @ '':'' @ to_string (uint (ep_port e))"

record datagram =
  dg_data :: bytes
  dg_from :: endpoint

section \<open>The socket\<close>

record udp_socket =
  us_fd :: int
  us_localPort :: u16

definition lastError :: "'w net_os \<Rightarrow> string \<Rightarrow> 'w \<Rightarrow> string" where
  "lastError os what w = what @ '' failed: '' @ os_strerror os w"

definition quoted :: "string \<Rightarrow> string" where
  "quoted s = [CHR 0x27] @ s @ [CHR 0x27]"

definition udp_new :: "'w net_os \<Rightarrow> 'w \<Rightarrow> (string + udp_socket) \<times> 'w" where
  "udp_new os w =
    (let (fd, w) = os_socket os SockDgram w
     in if fd = kInvalidFd then (Inl (lastError os ''socket'' w), w)
        else (Inr \<lparr>us_fd = fd, us_localPort = 0\<rparr>, w))"

definition udp_closeSocket :: "'w net_os \<Rightarrow> udp_socket \<Rightarrow> 'w \<Rightarrow> udp_socket \<times> 'w" where
  "udp_closeSocket os s w =
    (if us_fd s \<noteq> kInvalidFd then (s\<lparr>us_fd := kInvalidFd\<rparr>, os_close os (us_fd s) w) else (s, w))"

definition udp_destroy :: "'w net_os \<Rightarrow> udp_socket \<Rightarrow> 'w \<Rightarrow> 'w" where
  "udp_destroy os s w = snd (udp_closeSocket os s w)"

text \<open>The move constructor: the new object and the emptied source.\<close>

definition udp_move :: "udp_socket \<Rightarrow> udp_socket \<times> udp_socket" where
  "udp_move other =
    (\<lparr>us_fd = us_fd other, us_localPort = us_localPort other\<rparr>,
     other\<lparr>us_fd := kInvalidFd, us_localPort := 0\<rparr>)"

text \<open>Move assignment between two different objects; a self-assignment does nothing.\<close>

definition udp_move_assign :: "'w net_os \<Rightarrow> udp_socket \<Rightarrow> udp_socket \<Rightarrow> 'w \<Rightarrow> (udp_socket \<times> udp_socket) \<times> 'w" where
  "udp_move_assign os this other w =
    (let (this, w) = udp_closeSocket os this w;
         this = this\<lparr>us_fd := us_fd other, us_localPort := us_localPort other\<rparr>;
         other = other\<lparr>us_fd := kInvalidFd, us_localPort := 0\<rparr>
     in ((this, other), w))"

definition udp_valid :: "udp_socket \<Rightarrow> bool" where
  "udp_valid s = (us_fd s \<noteq> kInvalidFd)"

definition udp_bind :: "'w net_os \<Rightarrow> udp_socket \<Rightarrow> string \<Rightarrow> u16 \<Rightarrow> 'w \<Rightarrow> (string + unit) \<times> udp_socket \<times> 'w" where
  "udp_bind os s ip port w =
    (case (if ip = [] \<or> ip = ''0.0.0.0'' then Some 0 else os_pton os ip) of
       None \<Rightarrow> (Inl (''bind: invalid IPv4 address '' @ quoted ip), s, w)
     | Some a \<Rightarrow>
         (let (rc, w) = os_bind os (us_fd s) \<lparr>sa_addr = a, sa_port = port\<rparr> w
          in if rc \<noteq> 0 then (Inl (lastError os ''bind'' w), s, w)
             else (case os_getsockname os (us_fd s) w of
                     Some bound \<Rightarrow> (Inr (), s\<lparr>us_localPort := sa_port bound\<rparr>, w)
                   | None \<Rightarrow> (Inr (), s\<lparr>us_localPort := port\<rparr>, w))))"

definition udp_sendTo :: "'w net_os \<Rightarrow> udp_socket \<Rightarrow> bytes \<Rightarrow> endpoint \<Rightarrow> 'w \<Rightarrow> (string + int) \<times> 'w" where
  "udp_sendTo os s data dest w =
    (case os_pton os (ep_ip dest) of
       None \<Rightarrow> (Inl (''sendTo: invalid IPv4 address '' @ quoted (ep_ip dest)), w)
     | Some a \<Rightarrow>
         (let (sent, w) = os_sendto os (us_fd s) data \<lparr>sa_addr = a, sa_port = ep_port dest\<rparr> w
          in if sent < 0 then (Inl (lastError os ''sendto'' w), w) else (Inr sent, w)))"

definition udp_recv_buffer :: nat where
  "udp_recv_buffer = 2048"

text \<open>The part after the wait.\<close>

definition udp_read :: "'w net_os \<Rightarrow> udp_socket \<Rightarrow> 'w \<Rightarrow> (string + datagram option) \<times> 'w" where
  "udp_read os s w =
    (let (r, w) = os_recvfrom os (us_fd s) udp_recv_buffer w
     in case r of
          None \<Rightarrow> (Inl (lastError os ''recvfrom'' w), w)
        | Some (d, a) \<Rightarrow>
            (Inr (Some \<lparr>dg_data = d, dg_from = \<lparr>ep_ip = os_ntop os (sa_addr a), ep_port = sa_port a\<rparr>\<rparr>), w))"

definition udp_recvFrom :: "'w net_os \<Rightarrow> udp_socket \<Rightarrow> int \<Rightarrow> 'w \<Rightarrow> (string + datagram option) \<times> 'w" where
  "udp_recvFrom os s timeoutMs w =
    (if timeoutMs \<ge> 0 then
       (let (ready, w) = os_select os (us_fd s + 1) (timeoutMs div 1000) (timeoutMs mod 1000 * 1000) w
        in if ready = 0 then (Inr None, w)
           else if ready < 0 then (Inl (lastError os ''select'' w), w)
           else udp_read os s w)
     else udp_read os s w)"

section \<open>The objects of a program\<close>

datatype udp_op =
    NewSocket
  | MoveNew nat
  | MoveAssign nat nat
  | Destroy nat
  | BindTo nat string u16
  | SendDatagram nat bytes endpoint
  | RecvDatagram nat int

type_synonym 'w udp_state = "udp_socket option list \<times> 'w"

definition live :: "udp_socket option list \<Rightarrow> nat \<Rightarrow> bool" where
  "live objs i \<longleftrightarrow> i < length objs \<and> objs ! i \<noteq> None"

text \<open>One operation of a program on its objects; one on an object that does not exist is no program.\<close>

fun udp_step :: "'w net_os \<Rightarrow> 'w udp_state \<Rightarrow> udp_op \<Rightarrow> 'w udp_state" where
  "udp_step os (objs, w) NewSocket =
    (case udp_new os w of (Inr s, w) \<Rightarrow> (objs @ [Some s], w) | (Inl _, w) \<Rightarrow> (objs, w))"
| "udp_step os (objs, w) (MoveNew j) =
    (if live objs j then
       (let (new, old) = udp_move (the (objs ! j)) in (objs[j := Some old] @ [Some new], w))
     else (objs, w))"
| "udp_step os (objs, w) (MoveAssign i j) =
    (if live objs i \<and> live objs j \<and> i \<noteq> j then
       (let ((this, other), w) = udp_move_assign os (the (objs ! i)) (the (objs ! j)) w
        in (objs[i := Some this, j := Some other], w))
     else (objs, w))"
| "udp_step os (objs, w) (Destroy i) =
    (if live objs i then (objs[i := None], udp_destroy os (the (objs ! i)) w) else (objs, w))"
| "udp_step os (objs, w) (BindTo i ip port) =
    (if live objs i then
       (let (r, s, w) = udp_bind os (the (objs ! i)) ip port w in (objs[i := Some s], w))
     else (objs, w))"
| "udp_step os (objs, w) (SendDatagram i d dest) =
    (if live objs i then (objs, snd (udp_sendTo os (the (objs ! i)) d dest w)) else (objs, w))"
| "udp_step os (objs, w) (RecvDatagram i t) =
    (if live objs i then (objs, snd (udp_recvFrom os (the (objs ! i)) t w)) else (objs, w))"

text \<open>The descriptor an object holds, none when it is destroyed or moved from.\<close>

definition held :: "udp_socket option \<Rightarrow> int list" where
  "held x = (case x of None \<Rightarrow> [] | Some s \<Rightarrow> if us_fd s = kInvalidFd then [] else [us_fd s])"

definition held_all :: "udp_socket option list \<Rightarrow> int list" where
  "held_all objs = concat (map held objs)"

definition udp_owned :: "('w \<Rightarrow> int set) \<Rightarrow> 'w udp_state \<Rightarrow> bool" where
  "udp_owned opened st \<longleftrightarrow> distinct (held_all (fst st)) \<and> opened (snd st) = set (held_all (fst st))"

lemma held_all_simps [simp]: "held_all [] = []" "held_all (x # xs) = held x @ held_all xs"
  "held_all (xs @ ys) = held_all xs @ held_all ys"
  by (simp_all add: held_all_def)

lemma held_simps [simp]: "held None = []" "us_fd s = kInvalidFd \<Longrightarrow> held (Some s) = []"
  "us_fd s \<noteq> kInvalidFd \<Longrightarrow> held (Some s) = [us_fd s]"
  by (simp_all add: held_def)

lemma held_all_split:
  "i < length objs \<Longrightarrow> held_all objs = held_all (take i objs) @ held (objs ! i) @ held_all (drop (Suc i) objs)"
  by (metis append.assoc held_all_simps(2,3) id_take_nth_drop append_Cons append_Nil)

lemma held_all_update:
  "i < length objs \<Longrightarrow> held_all (objs[i := x]) = held_all (take i objs) @ held x @ held_all (drop (Suc i) objs)"
  by (simp add: upd_conv_take_nth_drop)

lemma held_all_count: "i < length objs \<Longrightarrow>
    count (mset (held_all (objs[i := x]))) fd + count (mset (held (objs ! i))) fd
    = count (mset (held_all objs)) fd + count (mset (held x)) fd"
  by (subst (2) held_all_split [of i], assumption) (simp add: held_all_update)

text \<open>Ownership as a statement on counts, which the operations rewrite.\<close>

lemma udp_owned_count:
  "udp_owned opened (objs, w) \<longleftrightarrow>
    (\<forall>fd. count (mset (held_all objs)) fd = (if fd \<in> opened w then 1 else 0))" (is "?l = ?r")
proof
  assume ?l then show ?r by (simp add: udp_owned_def distinct_count_atmost_1)
next
  assume r: ?r
  have "fd \<in> opened w \<longleftrightarrow> fd \<in> set (held_all objs)" for fd
    using r [rule_format, of fd] count_greater_zero_iff [of "mset (held_all objs)" fd] by (auto split: if_splits)
  then have "opened w = set (held_all objs)" by blast
  then show ?l using r by (simp add: udp_owned_def distinct_count_atmost_1)
qed

text \<open>Each operation, in terms of the counts.\<close>

lemma udp_owned_replace:
  assumes "udp_owned opened (objs, w)" "i < length objs"
    and "\<And>fd. count (mset (held x)) fd + (if fd \<in> opened w then 1 else 0)
      = count (mset (held (objs ! i))) fd + (if fd \<in> opened w' then 1 else 0 :: nat)"
  shows "udp_owned opened (objs[i := x], w')"
  unfolding udp_owned_count
proof
  fix fd
  show "count (mset (held_all (objs[i := x]))) fd = (if fd \<in> opened w' then 1 else 0)"
    using held_all_count [OF assms(2), of x fd] assms(1) assms(3) [of fd] unfolding udp_owned_count
    by (auto split: if_splits)
qed

lemma held_opened:
  assumes "udp_owned opened (objs, w)" "i < length objs" "objs ! i = Some s" "us_fd s \<noteq> kInvalidFd"
  shows "us_fd s \<in> opened w"
  using assms held_all_split [of i objs] by (auto simp: udp_owned_def)

lemma udp_closeSocket_facts:
  assumes "udp_closeSocket os s w = (s', w')" "fd_laws os opened"
  shows "held (Some s') = []" "opened w' = opened w - set (held (Some s))" "us_fd s' = kInvalidFd"
  using assms by (auto simp: udp_closeSocket_def fd_laws_def split: if_splits)


lemma held_same_fd: "us_fd s = us_fd t \<Longrightarrow> held (Some s) = held (Some t)"
  by (simp add: held_def)

lemma live_Some: "live objs i \<Longrightarrow> i < length objs \<and> objs ! i = Some (the (objs ! i))"
  by (simp add: live_def)

lemma udp_owned_world: "udp_owned opened (objs, w) \<Longrightarrow> opened w' = opened w \<Longrightarrow> udp_owned opened (objs, w')"
  by (simp add: udp_owned_def)

lemma udp_new_owned:
  assumes "udp_owned opened (objs, w)" "fd_laws os opened" "udp_new os w = (r, w')"
  shows "udp_owned opened (case r of Inr s \<Rightarrow> (objs @ [Some s], w') | Inl _ \<Rightarrow> (objs, w'))"
proof -
  obtain fd v where o: "os_socket os SockDgram w = (fd, v)" by fastforce
  with assms(1,3) fd_law_socket [OF assms(2) o] show ?thesis
    by (auto simp: udp_new_def udp_owned_def held_def split: if_splits)
qed

lemma udp_move_owned:
  assumes "udp_owned opened (objs, w)" "live objs j" "udp_move (the (objs ! j)) = (new, old)"
  shows "udp_owned opened (objs[j := Some old] @ [Some new], w)"
  unfolding udp_owned_count
proof
  fix fd
  have h: "held (Some old) = []" "held (Some new) = held (objs ! j)"
    using assms(2,3) live_Some [OF assms(2)] by (auto simp: udp_move_def held_def split: option.splits)
  have "count (mset (held_all (objs[j := Some old]))) fd + count (mset (held (objs ! j))) fd
    = count (mset (held_all objs)) fd" using held_all_count [of j objs "Some old" fd] assms(2) h by (simp add: live_def)
  then show "count (mset (held_all (objs[j := Some old] @ [Some new]))) fd = (if fd \<in> opened w then 1 else 0)"
    using assms(1) h unfolding udp_owned_count by simp
qed

lemma udp_close_owned:
  assumes "udp_owned opened (objs, w)" "fd_laws os opened" "live objs i"
    and "udp_closeSocket os (the (objs ! i)) w = (s, w')" and x: "held x = []"
  shows "udp_owned opened (objs[i := x], w')"
proof (rule udp_owned_replace [OF assms(1)])
  show "i < length objs" using assms(3) by (simp add: live_def)
next
  fix fd
  note s = live_Some [OF assms(3)]
  have "fd \<in> set (held (objs ! i)) \<Longrightarrow> fd \<in> opened w" for fd
    using held_opened [OF assms(1) conjunct1 [OF s] conjunct2 [OF s]]
    by (subst (asm) conjunct2 [OF s]) (auto simp: held_def split: if_splits)
  moreover have "opened w' = opened w - set (held (objs ! i))"
    using udp_closeSocket_facts [OF assms(4,2)] s by simp
  moreover have "count (mset (held (objs ! i))) fd = (if fd \<in> set (held (objs ! i)) then 1 else 0)"
    by (cases "objs ! i") (simp_all add: held_def)
  ultimately show "count (mset (held x)) fd + (if fd \<in> opened w then 1 else 0)
      = count (mset (held (objs ! i))) fd + (if fd \<in> opened w' then 1 else 0)" using x by auto
qed

lemma udp_assign_owned:
  assumes "udp_owned opened (objs, w)" "fd_laws os opened" "live objs i" "live objs j" "i \<noteq> j"
    and "udp_move_assign os (the (objs ! i)) (the (objs ! j)) w = ((this, other), w')"
  shows "udp_owned opened (objs[i := Some this, j := Some other], w')"
proof -
  obtain s where s: "udp_closeSocket os (the (objs ! i)) w = (s, w')"
    and t: "this = s\<lparr>us_fd := us_fd (the (objs ! j)), us_localPort := us_localPort (the (objs ! j))\<rparr>"
    and u: "other = (the (objs ! j))\<lparr>us_fd := kInvalidFd, us_localPort := 0\<rparr>"
    using assms(6) by (auto simp: udp_move_assign_def Let_def split: prod.splits)
  have o: "udp_owned opened (objs[i := None], w')" by (rule udp_close_owned [OF assms(1,2,3) s]) simp
  have h: "held (Some other) = []" "held (Some this) = held (objs ! j)"
    using t u live_Some [OF assms(4)] by (auto simp: held_def split: option.splits)
  have swap: "objs[i := Some this, j := Some other] = (objs[i := None])[j := Some other, i := Some this]"
    using assms(5) by (simp add: list_update_swap)
  show ?thesis unfolding swap udp_owned_count
  proof
    fix fd
    have "count (mset (held_all ((objs[i := None])[j := Some other]))) fd + count (mset (held (objs ! j))) fd
      = count (mset (held_all (objs[i := None]))) fd"
      using held_all_count [of j "objs[i := None]" "Some other" fd] assms(4,5) h by (simp add: live_def)
    moreover have "count (mset (held_all ((objs[i := None])[j := Some other, i := Some this]))) fd
      = count (mset (held_all ((objs[i := None])[j := Some other]))) fd + count (mset (held (objs ! j))) fd"
      using held_all_count [of i "(objs[i := None])[j := Some other]" "Some this" fd] assms(3,5) h by (simp add: live_def)
    ultimately show "count (mset (held_all ((objs[i := None])[j := Some other, i := Some this]))) fd
        = (if fd \<in> opened w' then 1 else 0)" using o unfolding udp_owned_count by simp
  qed
qed

lemma udp_bind_fd: "udp_bind os s ip port w = (r, s', w') \<Longrightarrow> us_fd s' = us_fd s"
  by (auto simp: udp_bind_def Let_def split: if_splits option.splits prod.splits)

lemma udp_world_opened:
  assumes "fd_laws os opened"
  shows "udp_bind os s ip port w = (r, s', w') \<Longrightarrow> opened w' = opened w"
    "opened (snd (udp_sendTo os s d dest w)) = opened w"
    "opened (snd (udp_read os s w)) = opened w"
    "opened (snd (udp_recvFrom os s t w)) = opened w"
proof -
  note same = fd_law_same [OF assms]
  show "udp_bind os s ip port w = (r, s', w') \<Longrightarrow> opened w' = opened w"
    by (auto simp: udp_bind_def Let_def same split: if_splits option.splits prod.splits)
  show "opened (snd (udp_sendTo os s d dest w)) = opened w"
    by (auto simp: udp_sendTo_def Let_def same split: option.splits prod.splits)
  have r': "opened (snd (udp_read os s w)) = opened w" for s w
    by (auto simp: udp_read_def Let_def same split: option.splits prod.splits)
  then show "opened (snd (udp_read os s w)) = opened w" .
  show "opened (snd (udp_recvFrom os s t w)) = opened w"
    by (auto simp: udp_recvFrom_def Let_def r' same split: prod.splits)
qed

lemma udp_step_owned:
  assumes "fd_laws os opened" "udp_owned opened st"
  shows "udp_owned opened (udp_step os st e)"
proof -
  obtain objs w where st: "st = (objs, w)" by fastforce
  note o = assms(2) [unfolded st]
  show ?thesis unfolding st
  proof (cases e)
    case NewSocket
    then show "udp_owned opened (udp_step os (objs, w) e)"
      using udp_new_owned [OF o assms(1) prod.collapse [symmetric]] by (cases "udp_new os w") (auto split: sum.splits)
  next
    case (MoveNew j)
    then show "udp_owned opened (udp_step os (objs, w) e)"
      using o udp_move_owned [OF o _ prod.collapse [symmetric]] by (auto simp: split_beta)
  next
    case (MoveAssign i j)
    show "udp_owned opened (udp_step os (objs, w) e)"
    proof (cases "live objs i \<and> live objs j \<and> i \<noteq> j")
      case True
      obtain t u v where "udp_move_assign os (the (objs ! i)) (the (objs ! j)) w = ((t, u), v)" by (metis prod.collapse)
      with udp_assign_owned [OF o assms(1) _ _ _ this] True MoveAssign show ?thesis by simp
    qed (use o MoveAssign in auto)
  next
    case (Destroy i)
    then show "udp_owned opened (udp_step os (objs, w) e)"
      using o udp_close_owned [OF o assms(1) _ prod.collapse [symmetric], of i None] by (simp add: udp_destroy_def)
  next
    case (BindTo i ip port)
    show "udp_owned opened (udp_step os (objs, w) e)"
    proof (cases "live objs i")
      case True
      obtain r s v where b: "udp_bind os (the (objs ! i)) ip port w = (r, s, v)" by (metis prod.collapse)
      have "held (Some s) = held (objs ! i)"
        using held_same_fd [OF udp_bind_fd [OF b]] live_Some [OF True] by simp
      then have "udp_owned opened (objs[i := Some s], v)"
        by (intro udp_owned_replace [OF o]) (use True udp_world_opened(1) [OF assms(1) b] in \<open>auto simp: live_def\<close>)
      with True b BindTo show ?thesis by simp
    qed (use o BindTo in simp)
  next
    case (SendDatagram i d dest)
    then show "udp_owned opened (udp_step os (objs, w) e)"
      using o udp_owned_world [OF o] udp_world_opened(2) [OF assms(1)] by simp
  next
    case (RecvDatagram i t)
    then show "udp_owned opened (udp_step os (objs, w) e)"
      using o udp_owned_world [OF o] udp_world_opened(4) [OF assms(1)] by simp
  qed
qed


interpretation udpm: machine "udp_step os" "\<lambda>st. fd_laws os opened \<longrightarrow> udp_owned opened st" for os opened
  by unfold_locales (blast intro: udp_step_owned)

lemma udp_destroy_all:
  assumes "fd_laws os opened" "udp_owned opened (objs, w)"
  shows "opened (snd (foldl (udp_step os) (objs, w) (map Destroy [0..<length objs]))) = {}"
proof -
  have "\<exists>v. foldl (udp_step os) (objs, w) (map Destroy [0..<n]) = (replicate n None @ drop n objs, v)"
    if "n \<le> length objs" for n
    using that
  proof (induction n)
    case (Suc n)
    then obtain v where v: "foldl (udp_step os) (objs, w) (map Destroy [0..<n]) = (replicate n None @ drop n objs, v)"
      by auto
    have d: "drop n objs = objs ! n # drop (Suc n) objs" using Suc.prems by (simp add: Cons_nth_drop_Suc)
    have "\<exists>v'. udp_step os (replicate n None @ drop n objs, v) (Destroy n) = (replicate (Suc n) None @ drop (Suc n) objs, v')"
      unfolding d using Suc.prems
      by (auto simp: live_def nth_append list_update_append replicate_append_same)
    then show ?case by (simp add: v)
  qed simp
  from this [of "length objs"] obtain v
    where v: "foldl (udp_step os) (objs, w) (map Destroy [0..<length objs]) = (replicate (length objs) None, v)" by auto
  have "udp_owned opened (replicate (length objs) None, v)"
    using udpm.inv_run [of os opened "(objs, w)" "map Destroy [0..<length objs]"] assms v by simp
  then show ?thesis unfolding v by (simp add: udp_owned_def held_all_def)
qed

section \<open>What is sent and received\<close>

lemma udp_read_out: "udp_laws os out \<Longrightarrow> out (snd (udp_read os s w)) = out w"
  by (simp add: udp_read_def Let_def udp_law_same split: option.splits prod.splits)

lemma udp_recv_out: "udp_laws os out \<Longrightarrow> out (snd (udp_recvFrom os s t w)) = out w"
  by (simp add: udp_recvFrom_def Let_def udp_read_out udp_law_same split: prod.splits)

lemma udp_new_out: "udp_laws os out \<Longrightarrow> udp_new os w = (r, w') \<Longrightarrow> out w' = out w"
  by (auto simp: udp_new_def Let_def udp_law_same split: prod.splits if_splits)

lemma udp_bind_out: "udp_laws os out \<Longrightarrow> udp_bind os s ip port w = (r, s', w') \<Longrightarrow> out w' = out w"
  by (auto simp: udp_bind_def Let_def udp_law_same split: option.splits prod.splits if_splits)

lemma udp_destroy_out: "udp_laws os out \<Longrightarrow> out (udp_destroy os s w) = out w"
  by (simp add: udp_destroy_def udp_closeSocket_def udp_law_same)

lemma udp_recv_length:
  "udp_laws os out \<Longrightarrow> udp_recvFrom os s t w = (Inr (Some dg), w') \<Longrightarrow> length (dg_data dg) \<le> udp_recv_buffer"
  by (auto simp: udp_recvFrom_def udp_read_def Let_def intro: udp_law_recvfrom split: option.splits prod.splits if_splits)

lemma udp_send_facts:
  assumes "udp_laws os out" "udp_sendTo os s d dest w = (r, w')"
  shows "(\<exists>m. r = Inl m) \<and> out w' = out w
    \<or> (\<exists>n a. r = Inr n \<and> os_pton os (ep_ip dest) = Some a
        \<and> out w' = out w @ [(us_fd s, d, \<lparr>sa_addr = a, sa_port = ep_port dest\<rparr>)])"
  using assms(2)
  by (auto simp: udp_sendTo_def Let_def dest!: udp_law_sendto [OF assms(1)] split: option.splits prod.splits if_splits)

section \<open>Properties\<close>

text \<open>C32. Socket descriptors are owned: over any sequence of constructions, moves (self-moves and moves onto
a live socket included), binds, sends, receives and destructions, each open descriptor is held by exactly
one object and each held descriptor is open, so none is closed twice or used after its close; and once
every object has been destroyed no descriptor is left open.\<close>

theorem udp_no_leak:
  assumes "fd_laws os opened" "opened w0 = {}" "foldl (udp_step os) ([], w0) ops = (objs, w)"
  shows "distinct (held_all objs) \<and> opened w = set (held_all objs)
    \<and> opened (snd (foldl (udp_step os) (objs, w) (map Destroy [0..<length objs]))) = {}"
proof -
  have "udp_owned opened ([], w0)" by (simp add: udp_owned_def assms(2))
  then have o: "udp_owned opened (objs, w)"
    using udpm.inv_run [of os opened "([], w0)" ops] assms(1,3) by simp
  then show ?thesis using udp_destroy_all [OF assms(1) o] by (simp add: udp_owned_def)
qed

theorem udp_no_leak_witness:
  "let (objs, w) = foldl (udp_step demo_os) ([], demo_world_init)
      [NewSocket, NewSocket, BindTo 0 ''0.0.0.0'' 5060, MoveAssign 1 0, MoveNew 1]
   in distinct (held_all objs)
      \<and> set (dw_open w) \<inter> {0..<int (dw_next w)} = set (held_all objs) \<and> held_all objs = [3]"
proof -
  obtain objs w where r: "foldl (udp_step demo_os) ([], demo_world_init)
      [NewSocket, NewSocket, BindTo 0 ''0.0.0.0'' 5060, MoveAssign 1 0, MoveNew 1] = (objs, w)"
    by fastforce
  have h: "held_all objs = [3]" using arg_cong [OF r, of fst] 
    by (simp add: demo_os_def demo_world_init_def udp_new_def udp_bind_def udp_move_assign_def udp_move_def
        udp_closeSocket_def live_def kInvalidFd_def held_def)
       (auto simp: held_def kInvalidFd_def)
  have "set (dw_open demo_world_init) \<inter> {0..<int (dw_next demo_world_init)} = {}"
    by (simp add: demo_world_init_def)
  from udp_no_leak [OF demo_fd_laws this r] h r show ?thesis by simp
qed

end
