(* ===== verification/Sip_Uas.thy ===== *)
theory Sip_Uas
  imports Sip_Parser Sdp Udp_Socket
begin

text \<open>
  The user agent server of src/src/sip/SipUas.cpp and src/include/sipdemo/SipUas.h. The record has the
  fields of the class; \<open>uas_handle\<close> is the whole handler, each branch with its early returns.

  The random generator behind \<open>newTag\<close> is seeded by the operating system, so its outputs are a
  parameter \<open>rnd\<close>: the \<open>n\<close>-th draw is \<open>rnd n\<close>, and the state counts the draws.
\<close>

section \<open>Definitions\<close>

record uas_config =
  uc_localIp :: string
  uc_sipPort :: u16
  uc_rtpPort :: u16
  uc_userAgent :: string

definition uas_config_init :: uas_config where
  "uas_config_init = \<lparr>uc_localIp = ''127.0.0.1'', uc_sipPort = 5060, uc_rtpPort = 40000, uc_userAgent = ''sipdemo/0.1''\<rparr>"

datatype media_action = MediaNone | MediaStart | MediaStop

record uas_result =
  responses :: "sip_message list"
  media :: media_action
  remoteRtp :: endpoint
  res_payloadType :: int
  res_dtmfPayloadType :: int

definition uas_result_init :: uas_result where
  "uas_result_init = \<lparr>responses = [], media = MediaNone, remoteRtp = endpoint_init,
     res_payloadType = - 1, res_dtmfPayloadType = - 1\<rparr>"

record sip_uas =
  uas_cfg :: uas_config
  haveDialog :: bool
  uas_callId :: string
  localTag :: string
  inviteCSeq :: int
  lastInvite :: sip_message
  last2xxInvite :: sip_message
  answered :: bool
  forcedTag :: string
  tagCounter :: u32
  draws :: nat

definition uas_new :: "uas_config \<Rightarrow> sip_uas" where
  "uas_new c = \<lparr>uas_cfg = c, haveDialog = False, uas_callId = [], localTag = [], inviteCSeq = - 1,
     lastInvite = sip_message_init, last2xxInvite = sip_message_init, answered = False, forcedTag = [],
     tagCounter = 0, draws = 0\<rparr>"

definition setTagForTest :: "sip_uas \<Rightarrow> string \<Rightarrow> sip_uas" where
  "setTagForTest u t = u\<lparr>forcedTag := t\<rparr>"

definition reasonFor :: "int \<Rightarrow> string" where
  "reasonFor code =
    (if code = 100 then ''Trying''
     else if code = 180 then ''Ringing''
     else if code = 200 then ''OK''
     else if code = 400 then ''Bad Request''
     else if code = 415 then ''Unsupported Media Type''
     else if code = 481 then ''Call/Transaction Does Not Exist''
     else if code = 486 then ''Busy Here''
     else if code = 487 then ''Request Terminated''
     else if code = 488 then ''Not Acceptable Here''
     else if code = 500 then ''Server Internal Error''
     else ''OK'')"

definition hex_char :: "nat \<Rightarrow> char" where
  "hex_char d = ''0123456789abcdef'' ! d"

fun to_hex :: "nat \<Rightarrow> string" where
  "to_hex n = (if n < 16 then [hex_char n] else to_hex (n div 16) @ [hex_char (n mod 16)])"

declare to_hex.simps [simp del]

definition newTag :: "(nat \<Rightarrow> u32) \<Rightarrow> sip_uas \<Rightarrow> sip_uas \<times> string" where
  "newTag rnd u =
    (if forcedTag u \<noteq> [] then (u, forcedTag u)
     else
       (let r = rnd (draws u); u = u\<lparr>draws := draws u + 1, tagCounter := tagCounter u + 1\<rparr>
        in (u, ''sd'' @ to_hex (unat r) @ to_hex (unat (tagCounter u)))))"

definition set_opt :: "sip_message \<Rightarrow> string \<Rightarrow> string option \<Rightarrow> sip_message" where
  "set_opt m name v = (case v of None \<Rightarrow> m | Some x \<Rightarrow> sip_set m name x)"

definition response_to :: "(nat \<Rightarrow> u32) \<Rightarrow> sip_uas \<Rightarrow> int \<Rightarrow> string \<Rightarrow> sip_uas \<times> string" where
  "response_to rnd u code toVal =
    (if headerParam toVal ''tag'' = None \<and> code > 100 then
       (let (u, tag) = (if localTag u = [] then newTag rnd u else (u, localTag u))
        in (u, toVal @ '';tag='' @ tag))
     else (u, toVal))"

definition makeResponse :: "(nat \<Rightarrow> u32) \<Rightarrow> sip_uas \<Rightarrow> sip_message \<Rightarrow> int \<Rightarrow> string \<Rightarrow> sip_uas \<times> sip_message" where
  "makeResponse rnd u req code reason =
    (let resp = sip_message_init\<lparr>isRequest := False, statusCode := code,
           reasonPhrase := (if reason = [] then reasonFor code else reason)\<rparr>;
         resp = foldl (\<lambda>m v. sip_add m ''Via'' v) resp (sip_getAll req ''Via'');
         resp = set_opt resp ''From'' (sip_get req ''From'');
         (u, resp) = (case sip_get req ''To'' of
            None \<Rightarrow> (u, resp)
          | Some toVal \<Rightarrow> (let (u, toVal) = response_to rnd u code toVal in (u, sip_set resp ''To'' toVal)));
         resp = set_opt resp ''Call-ID'' (sip_get req ''Call-ID'');
         resp = set_opt resp ''CSeq'' (sip_get req ''CSeq'');
         resp = sip_set resp ''Server'' (uc_userAgent (uas_cfg u))
     in (u, resp))"

definition allow_methods :: string where
  "allow_methods = ''INVITE, ACK, BYE, CANCEL, OPTIONS''"

text \<open>A result with one response.\<close>

definition reply :: "(nat \<Rightarrow> u32) \<Rightarrow> sip_uas \<Rightarrow> sip_message \<Rightarrow> int \<Rightarrow> string \<Rightarrow> sip_uas \<times> uas_result" where
  "reply rnd u req code reason =
    (let (u, m) = makeResponse rnd u req code reason in (u, uas_result_init\<lparr>responses := [m]\<rparr>))"

definition handle_options :: "(nat \<Rightarrow> u32) \<Rightarrow> sip_uas \<Rightarrow> sip_message \<Rightarrow> sip_uas \<times> uas_result" where
  "handle_options rnd u req =
    (let (u, resp) = makeResponse rnd u req 200 ''OK'';
         resp = sip_set resp ''Allow'' allow_methods;
         resp = sip_set resp ''Accept'' ''application/sdp''
     in (u, uas_result_init\<lparr>responses := [resp]\<rparr>))"

text \<open>The new-call part of the INVITE branch, after the duplicate and busy tests.\<close>

definition handle_new_call :: "(nat \<Rightarrow> u32) \<Rightarrow> sip_uas \<Rightarrow> sip_message \<Rightarrow> string \<Rightarrow> int \<Rightarrow> sip_uas \<times> uas_result" where
  "handle_new_call rnd u req cid cseqNum =
    (let u = u\<lparr>haveDialog := True, answered := False, uas_callId := cid, inviteCSeq := cseqNum\<rparr>;
         (u, tag) = newTag rnd u;
         u = u\<lparr>localTag := tag, lastInvite := req\<rparr>;
         (u, r100) = makeResponse rnd u req 100 [];
         (u, r180) = makeResponse rnd u req 180 []
     in case parseSdp (sip_body req) of
          None \<Rightarrow>
            (let (u, r400) = makeResponse rnd u req 400 ''Bad Request (SDP)''
             in (u\<lparr>haveDialog := False\<rparr>, uas_result_init\<lparr>responses := [r100, r180, r400]\<rparr>))
        | Some offer \<Rightarrow>
            (case makeAnswer offer (uc_localIp (uas_cfg u)) (uc_rtpPort (uas_cfg u)) of
               None \<Rightarrow>
                 (let (u, r488) = makeResponse rnd u req 488 []
                  in (u\<lparr>haveDialog := False\<rparr>, uas_result_init\<lparr>responses := [r100, r180, r488]\<rparr>))
             | Some answer \<Rightarrow>
                 (let (u, ok) = makeResponse rnd u req 200 ''OK'';
                      ok = sip_set ok ''Contact'' (''<sip:'' @ uc_localIp (uas_cfg u) @ '':''
                        @ to_string (uint (uc_sipPort (uas_cfg u))) @ ''>'');
                      ok = sip_set ok ''Content-Type'' ''application/sdp'';
                      ok = ok\<lparr>sip_body := sdp_generate answer\<rparr>
                  in (u\<lparr>last2xxInvite := ok, answered := True\<rparr>,
                      \<lparr>responses = [r100, r180, ok], media = MediaStart,
                       remoteRtp = \<lparr>ep_ip = connectionAddress offer, ep_port = audioPort offer\<rparr>,
                       res_payloadType = hd (payloadTypes answer),
                       res_dtmfPayloadType = dtmfPayloadType answer\<rparr>))))"

definition handle_invite :: "(nat \<Rightarrow> u32) \<Rightarrow> sip_uas \<Rightarrow> sip_message \<Rightarrow> sip_uas \<times> uas_result" where
  "handle_invite rnd u req =
    (case (sip_get req ''Call-ID'', sip_get req ''CSeq'') of
       (Some cid, Some cseqHdr) \<Rightarrow>
         (let cseqNum = (case parseCSeq cseqHdr of None \<Rightarrow> - 1 | Some c \<Rightarrow> cs_number c)
          in if haveDialog u \<and> cid = uas_callId u \<and> cseqNum = inviteCSeq u then
               (u, uas_result_init\<lparr>responses := (if answered u then [last2xxInvite u] else [])\<rparr>)
             else if haveDialog u \<and> cid \<noteq> uas_callId u then reply rnd u req 486 []
             else handle_new_call rnd u req cid cseqNum)
     | _ \<Rightarrow> reply rnd u req 400 [])"

definition handle_cancel :: "(nat \<Rightarrow> u32) \<Rightarrow> sip_uas \<Rightarrow> sip_message \<Rightarrow> sip_uas \<times> uas_result" where
  "handle_cancel rnd u req =
    (let (u, r200) = makeResponse rnd u req 200 ''OK''
     in if haveDialog u \<and> sip_get req ''Call-ID'' = Some (uas_callId u) \<and> \<not> answered u then
          (let (u, r487) = makeResponse rnd u (lastInvite u) 487 []
           in (u\<lparr>haveDialog := False\<rparr>, uas_result_init\<lparr>responses := [r200, r487], media := MediaStop\<rparr>))
        else (u, uas_result_init\<lparr>responses := [r200]\<rparr>))"

definition handle_bye :: "(nat \<Rightarrow> u32) \<Rightarrow> sip_uas \<Rightarrow> sip_message \<Rightarrow> sip_uas \<times> uas_result" where
  "handle_bye rnd u req =
    (if haveDialog u \<and> sip_get req ''Call-ID'' = Some (uas_callId u) then
       (let (u, r200) = makeResponse rnd u req 200 ''OK''
        in (u\<lparr>haveDialog := False, answered := False\<rparr>, uas_result_init\<lparr>responses := [r200], media := MediaStop\<rparr>))
     else reply rnd u req 481 [])"

definition handle_other :: "(nat \<Rightarrow> u32) \<Rightarrow> sip_uas \<Rightarrow> sip_message \<Rightarrow> sip_uas \<times> uas_result" where
  "handle_other rnd u req =
    (let (u, resp) = makeResponse rnd u req 405 ''Method Not Allowed''
     in (u, uas_result_init\<lparr>responses := [sip_set resp ''Allow'' allow_methods]\<rparr>))"

definition uas_handle :: "(nat \<Rightarrow> u32) \<Rightarrow> sip_uas \<Rightarrow> sip_message \<Rightarrow> sip_uas \<times> uas_result" where
  "uas_handle rnd u req =
    (if \<not> isRequest req then (u, uas_result_init)
     else if sip_method req = ''OPTIONS'' then handle_options rnd u req
     else if sip_method req = ''INVITE'' then handle_invite rnd u req
     else if sip_method req = ''ACK'' then (u, uas_result_init)
     else if sip_method req = ''CANCEL'' then handle_cancel rnd u req
     else if sip_method req = ''BYE'' then handle_bye rnd u req
     else handle_other rnd u req)"

definition uas_inCall :: "sip_uas \<Rightarrow> bool" where
  "uas_inCall u = haveDialog u"

section \<open>What a response does to the state\<close>

text \<open>Building responses only moves the tag generator.\<close>

definition same_dialog :: "sip_uas \<Rightarrow> sip_uas \<Rightarrow> bool" where
  "same_dialog u v \<longleftrightarrow> v = u\<lparr>tagCounter := tagCounter v, draws := draws v\<rparr>"

lemma same_dialog_refl [simp]: "same_dialog u u"
  by (simp add: same_dialog_def)

lemma same_dialog_trans: "same_dialog u v \<Longrightarrow> same_dialog v w \<Longrightarrow> same_dialog u w"
  unfolding same_dialog_def by (cases u; cases v; cases w) auto

lemma same_dialogD:
  "same_dialog u v \<Longrightarrow> uas_cfg v = uas_cfg u \<and> haveDialog v = haveDialog u \<and> uas_callId v = uas_callId u
     \<and> localTag v = localTag u \<and> inviteCSeq v = inviteCSeq u \<and> lastInvite v = lastInvite u
     \<and> last2xxInvite v = last2xxInvite u \<and> answered v = answered u \<and> forcedTag v = forcedTag u"
  by (cases u; cases v) (auto simp: same_dialog_def)

lemma newTag_dialog: "newTag rnd u = (v, t) \<Longrightarrow> same_dialog u v"
  by (auto simp: newTag_def same_dialog_def Let_def split: if_splits)

lemma response_to_dialog: "response_to rnd u code tv = (v, t) \<Longrightarrow> same_dialog u v"
  by (auto simp: response_to_def newTag_dialog split: if_splits prod.splits)

lemma makeResponse_dialog: "makeResponse rnd u req code reason = (v, m) \<Longrightarrow> same_dialog u v"
  by (auto simp: makeResponse_def Let_def response_to_dialog split: option.splits prod.splits)

lemma makeResponse_keeps:
  assumes "makeResponse rnd u req code reason = (v, m)"
  shows "uas_cfg v = uas_cfg u" "haveDialog v = haveDialog u" "uas_callId v = uas_callId u"
    "localTag v = localTag u" "inviteCSeq v = inviteCSeq u" "lastInvite v = lastInvite u"
    "last2xxInvite v = last2xxInvite u" "answered v = answered u" "forcedTag v = forcedTag u"
  using same_dialogD [OF makeResponse_dialog [OF assms]] by simp_all

section \<open>Responses echo their request\<close>

lemma header_names [simp]:
  "iequals ''Via'' ''Via''" "\<not> iequals ''Via'' ''From''"
  "\<not> iequals ''Via'' ''To''" "\<not> iequals ''Via'' ''Call-ID''"
  "\<not> iequals ''Via'' ''CSeq''" "\<not> iequals ''From'' ''Via''"
  "iequals ''From'' ''From''" "\<not> iequals ''From'' ''To''"
  "\<not> iequals ''From'' ''Call-ID''" "\<not> iequals ''From'' ''CSeq''"
  "\<not> iequals ''To'' ''Via''" "\<not> iequals ''To'' ''From''"
  "iequals ''To'' ''To''" "\<not> iequals ''To'' ''Call-ID''"
  "\<not> iequals ''To'' ''CSeq''" "\<not> iequals ''Call-ID'' ''Via''"
  "\<not> iequals ''Call-ID'' ''From''" "\<not> iequals ''Call-ID'' ''To''"
  "iequals ''Call-ID'' ''Call-ID''" "\<not> iequals ''Call-ID'' ''CSeq''"
  "\<not> iequals ''CSeq'' ''Via''" "\<not> iequals ''CSeq'' ''From''"
  "\<not> iequals ''CSeq'' ''To''" "\<not> iequals ''CSeq'' ''Call-ID''"
  "iequals ''CSeq'' ''CSeq''" "\<not> iequals ''Server'' ''Via''"
  "\<not> iequals ''Server'' ''From''" "\<not> iequals ''Server'' ''To''"
  "\<not> iequals ''Server'' ''Call-ID''" "\<not> iequals ''Server'' ''CSeq''"
  "\<not> iequals ''Allow'' ''Via''" "\<not> iequals ''Allow'' ''From''"
  "\<not> iequals ''Allow'' ''To''" "\<not> iequals ''Allow'' ''Call-ID''"
  "\<not> iequals ''Allow'' ''CSeq''" "\<not> iequals ''Accept'' ''Via''"
  "\<not> iequals ''Accept'' ''From''" "\<not> iequals ''Accept'' ''To''"
  "\<not> iequals ''Accept'' ''Call-ID''" "\<not> iequals ''Accept'' ''CSeq''"
  "\<not> iequals ''Contact'' ''Via''" "\<not> iequals ''Contact'' ''From''"
  "\<not> iequals ''Contact'' ''To''" "\<not> iequals ''Contact'' ''Call-ID''"
  "\<not> iequals ''Contact'' ''CSeq''" "\<not> iequals ''Content-Type'' ''Via''"
  "\<not> iequals ''Content-Type'' ''From''" "\<not> iequals ''Content-Type'' ''To''"
  "\<not> iequals ''Content-Type'' ''Call-ID''" "\<not> iequals ''Content-Type'' ''CSeq''"
  by (simp_all add: iequals_def lower_def)

definition echoes :: "sip_message \<Rightarrow> sip_message \<Rightarrow> bool" where
  "echoes req resp \<longleftrightarrow> \<not> isRequest resp
     \<and> sip_getAll resp ''Via'' = sip_getAll req ''Via'' \<and> sip_get resp ''From'' = sip_get req ''From''
     \<and> sip_get resp ''Call-ID'' = sip_get req ''Call-ID'' \<and> sip_get resp ''CSeq'' = sip_get req ''CSeq''
     \<and> (sip_get resp ''To'' = None \<longleftrightarrow> sip_get req ''To'' = None)"

lemma set_opt_get: "sip_get (set_opt m n x) k = (if iequals n k \<and> x \<noteq> None then x else sip_get m k)"
  by (simp add: set_opt_def hs.get_put split: option.split)

lemma set_opt_getAll: "\<not> iequals n k \<Longrightarrow> sip_getAll (set_opt m n x) k = sip_getAll m k"
  by (simp add: set_opt_def hs.getAll_put split: option.split)

lemma set_opt_frame [simp]:
  "isRequest (set_opt m n x) = isRequest m" "statusCode (set_opt m n x) = statusCode m"
  "reasonPhrase (set_opt m n x) = reasonPhrase m" "sip_version (set_opt m n x) = sip_version m"
  "sip_body (set_opt m n x) = sip_body m"
  by (simp_all add: set_opt_def split: option.split)

lemma adds_frame [simp]:
  "isRequest (foldl (\<lambda>m v. sip_add m n v) m vs) = isRequest m" "statusCode (foldl (\<lambda>m v. sip_add m n v) m vs) = statusCode m"
  "reasonPhrase (foldl (\<lambda>m v. sip_add m n v) m vs) = reasonPhrase m"
  "sip_version (foldl (\<lambda>m v. sip_add m n v) m vs) = sip_version m" "sip_body (foldl (\<lambda>m v. sip_add m n v) m vs) = sip_body m"
  by (induction vs arbitrary: m) simp_all

lemma sip_get_init [simp]: "sip_get (m\<lparr>sip_headers := []\<rparr>) k = None" "sip_getAll (m\<lparr>sip_headers := []\<rparr>) k = []"
  by (simp_all add: sip_get_def sip_getAll_def)

text \<open>The response before its To header, and all of it, given the new To value.\<close>

definition resp_to_part :: "sip_message \<Rightarrow> int \<Rightarrow> string \<Rightarrow> sip_message" where
  "resp_to_part req code reason =
    set_opt (foldl (\<lambda>m v. sip_add m ''Via'' v) (sip_message_init\<lparr>isRequest := False, statusCode := code,
           reasonPhrase := (if reason = [] then reasonFor code else reason)\<rparr>) (sip_getAll req ''Via''))
      ''From'' (sip_get req ''From'')"

definition resp_rest :: "sip_uas \<Rightarrow> sip_message \<Rightarrow> sip_message \<Rightarrow> sip_message" where
  "resp_rest u req m = sip_set (set_opt (set_opt m ''Call-ID'' (sip_get req ''Call-ID'')) ''CSeq'' (sip_get req ''CSeq''))
     ''Server'' (uc_userAgent (uas_cfg u))"

definition new_to :: "(nat \<Rightarrow> u32) \<Rightarrow> sip_uas \<Rightarrow> sip_message \<Rightarrow> int \<Rightarrow> string option" where
  "new_to rnd u req code = map_option (\<lambda>t. snd (response_to rnd u code t)) (sip_get req ''To'')"

lemma makeResponse_split:
  assumes "makeResponse rnd u req code reason = (v, m)"
  shows "m = resp_rest u req (set_opt (resp_to_part req code reason) ''To'' (new_to rnd u req code))"
proof -
  have cfg: "response_to rnd u code t = (w, t') \<Longrightarrow> uas_cfg w = uas_cfg u" for t w t'
    using same_dialogD [OF response_to_dialog] by blast
  show ?thesis
  proof (cases "sip_get req ''To''")
    case None
    then show ?thesis using assms
      by (auto simp: makeResponse_def Let_def resp_rest_def resp_to_part_def new_to_def set_opt_def [of _ "''To''"])
  next
    case (Some t)
    obtain w t' where w: "response_to rnd u code t = (w, t')" by (cases "response_to rnd u code t")
    then show ?thesis using assms Some cfg [OF w]
      by (simp add: makeResponse_def Let_def resp_rest_def resp_to_part_def new_to_def set_opt_def [of _ "''To''"])
  qed
qed

lemma resp_to_part_fields:
  "sip_getAll (resp_to_part req code reason) ''Via'' = sip_getAll req ''Via''"
  "sip_get (resp_to_part req code reason) ''From'' = sip_get req ''From''"
  "sip_get (resp_to_part req code reason) ''To'' = None"
  "sip_get (resp_to_part req code reason) ''Call-ID'' = None" "sip_get (resp_to_part req code reason) ''CSeq'' = None"
  "\<not> isRequest (resp_to_part req code reason)" "statusCode (resp_to_part req code reason) = code"
  "reasonPhrase (resp_to_part req code reason) = (if reason = [] then reasonFor code else reason)"
  "sip_version (resp_to_part req code reason) = ''SIP/2.0''" "sip_body (resp_to_part req code reason) = []"
proof -
  have i: "sip_get (sip_message_init\<lparr>isRequest := False, statusCode := c, reasonPhrase := r\<rparr>) k = None"
    "sip_getAll (sip_message_init\<lparr>isRequest := False, statusCode := c, reasonPhrase := r\<rparr>) k = []" for c r k
    by (simp_all add: sip_get_def sip_getAll_def sip_message_init_def)
  show "sip_getAll (resp_to_part req code reason) ''Via'' = sip_getAll req ''Via''"
    "sip_get (resp_to_part req code reason) ''From'' = sip_get req ''From''"
    "sip_get (resp_to_part req code reason) ''To'' = None"
    "sip_get (resp_to_part req code reason) ''Call-ID'' = None" "sip_get (resp_to_part req code reason) ''CSeq'' = None"
    "\<not> isRequest (resp_to_part req code reason)" "statusCode (resp_to_part req code reason) = code"
    "reasonPhrase (resp_to_part req code reason) = (if reason = [] then reasonFor code else reason)"
    "sip_version (resp_to_part req code reason) = ''SIP/2.0''" "sip_body (resp_to_part req code reason) = []"
    by (simp_all add: resp_to_part_def set_opt_get set_opt_getAll hs.getAll_adds hs.get_adds_other i)
      (simp_all add: sip_message_init_def)
qed

lemma resp_rest_fields:
  "sip_getAll (resp_rest u req (set_opt p ''To'' t)) ''Via'' = sip_getAll p ''Via''"
  "sip_get (resp_rest u req (set_opt p ''To'' t)) ''From'' = sip_get p ''From''"
  "sip_get (resp_rest u req (set_opt p ''To'' t)) ''To'' = (if t \<noteq> None then t else sip_get p ''To'')"
  "sip_get (resp_rest u req (set_opt p ''To'' t)) ''Call-ID''
    = (if sip_get req ''Call-ID'' \<noteq> None then sip_get req ''Call-ID'' else sip_get p ''Call-ID'')"
  "sip_get (resp_rest u req (set_opt p ''To'' t)) ''CSeq''
    = (if sip_get req ''CSeq'' \<noteq> None then sip_get req ''CSeq'' else sip_get p ''CSeq'')"
  "isRequest (resp_rest u req (set_opt p ''To'' t)) = isRequest p"
  "statusCode (resp_rest u req (set_opt p ''To'' t)) = statusCode p"
  "reasonPhrase (resp_rest u req (set_opt p ''To'' t)) = reasonPhrase p"
  "sip_version (resp_rest u req (set_opt p ''To'' t)) = sip_version p"
  "sip_body (resp_rest u req (set_opt p ''To'' t)) = sip_body p"
  unfolding resp_rest_def by (simp_all add: hs.get_put hs.getAll_put set_opt_get set_opt_getAll)

lemma makeResponse_fields:
  assumes "makeResponse rnd u req code reason = (v, m)"
  shows "echoes req m" "statusCode m = code" "sip_get m ''To'' = new_to rnd u req code"
    "reasonPhrase m = (if reason = [] then reasonFor code else reason)" "sip_version m = ''SIP/2.0''"
    "sip_body m = []" "\<not> isRequest m"
proof -
  note m = makeResponse_split [OF assms] and r = resp_rest_fields and p = resp_to_part_fields
  show "statusCode m = code" "reasonPhrase m = (if reason = [] then reasonFor code else reason)"
    "sip_version m = ''SIP/2.0''" "sip_body m = []" "\<not> isRequest m"
    unfolding m r by (simp_all add: p)
  show to: "sip_get m ''To'' = new_to rnd u req code" unfolding m r p by simp
  have "sip_getAll m ''Via'' = sip_getAll req ''Via''" "sip_get m ''From'' = sip_get req ''From''"
    "sip_get m ''Call-ID'' = sip_get req ''Call-ID''" "sip_get m ''CSeq'' = sip_get req ''CSeq''"
    unfolding m r p by simp_all
  then show "echoes req m" using to \<open>\<not> isRequest m\<close> by (simp add: echoes_def new_to_def)
qed

definition not_echoed :: "string \<Rightarrow> bool" where
  "not_echoed n \<longleftrightarrow> \<not> iequals n ''Via'' \<and> \<not> iequals n ''From'' \<and> \<not> iequals n ''To''
     \<and> \<not> iequals n ''Call-ID'' \<and> \<not> iequals n ''CSeq''"

lemma not_echoed_names [simp]:
  "not_echoed ''Allow''" "not_echoed ''Accept''" "not_echoed ''Contact''" "not_echoed ''Content-Type''"
  by (simp_all add: not_echoed_def)

lemma echoes_set [simp]: "not_echoed n \<Longrightarrow> echoes req (sip_set m n v) = echoes req m"
  unfolding echoes_def not_echoed_def by (simp add: hs.get_put hs.getAll_put)

lemma get_set_other: "not_echoed n \<Longrightarrow> sip_get (sip_set m n v) ''To'' = sip_get m ''To''"
  unfolding not_echoed_def by (simp add: hs.get_put)

lemma sip_get_body [simp]: "sip_get (m\<lparr>sip_body := b\<rparr>) n = sip_get m n" "sip_getAll (m\<lparr>sip_body := b\<rparr>) n = sip_getAll m n"
  by (simp_all add: sip_get_def sip_getAll_def)

lemma echoes_body [simp]: "echoes req (m\<lparr>sip_body := b\<rparr>) = echoes req m"
  by (simp add: echoes_def)

section \<open>Tags\<close>

definition tag_ok :: "string \<Rightarrow> bool" where
  "tag_ok t \<longleftrightarrow> t \<noteq> [] \<and> trimmed t \<and> CHR '';'' \<notin> set t \<and> crlf_free t"

definition hex_digit :: "char \<Rightarrow> bool" where
  "hex_digit c \<longleftrightarrow> (\<exists>d < 16. c = hex_char d)"

lemma to_hex_digits: "c \<in> set (to_hex n) \<Longrightarrow> hex_digit c"
proof (induction n rule: to_hex.induct)
  case (1 n)
  have "hex_digit (hex_char (n mod 16))" unfolding hex_digit_def by (intro exI [of _ "n mod 16"]) simp
  moreover have "n < 16 \<Longrightarrow> hex_digit (hex_char n)" by (auto simp: hex_digit_def)
  ultimately show ?case using 1 by (subst (asm) (2) to_hex.simps) (auto split: if_splits)
qed

lemma hex_digit_plain: "hex_digit c \<Longrightarrow> \<not> is_ws c \<and> c \<noteq> CHR '';'' \<and> c \<noteq> CHR 0x0D"
proof -
  have "hex_char d \<in> set ''0123456789abcdef''" if "d < 16" for d
    unfolding hex_char_def by (rule nth_mem) (use that in simp)
  then show "hex_digit c \<Longrightarrow> \<not> is_ws c \<and> c \<noteq> CHR '';'' \<and> c \<noteq> CHR 0x0D"
    unfolding hex_digit_def by (force simp: is_ws_def)
qed

lemma to_hex_not_Nil [simp]: "to_hex n \<noteq> []"
  by (subst to_hex.simps) simp

lemma hex_tag_ok: "tag_ok (''sd'' @ to_hex a @ to_hex b)"
proof -
  have p: "\<not> is_ws c \<and> c \<noteq> CHR '';'' \<and> c \<noteq> CHR 0x0D" if "c \<in> set (to_hex n)" for c n
    using hex_digit_plain [OF to_hex_digits [OF that]] .
  have "\<not> is_ws (last (to_hex b))" using p [of "last (to_hex b)" b] by simp
  moreover have "CHR '';'' \<notin> set (to_hex n)" "CHR 0x0D \<notin> set (to_hex n)" for n using p by blast+
  ultimately show ?thesis by (auto simp: tag_ok_def trimmed_def is_ws_def intro!: crlf_free_no_cr)
qed

lemma newTag_ok:
  assumes "newTag rnd u = (v, t)" "forcedTag u = [] \<or> tag_ok (forcedTag u)"
  shows "tag_ok t"
  using assms hex_tag_ok by (auto simp: newTag_def Let_def split: if_splits)

lemma newTag_not_Nil: "newTag rnd u = (v, t) \<Longrightarrow> t \<noteq> []"
  by (auto simp: newTag_def Let_def split: if_splits)

text \<open>The To value of a response in a state whose dialog has a tag.\<close>

lemma new_to_local:
  assumes "localTag u \<noteq> []"
  shows "new_to rnd u req code = map_option (\<lambda>t. if headerParam t ''tag'' = None \<and> code > 100
           then t @ '';tag='' @ localTag u else t) (sip_get req ''To'')"
  using assms by (auto simp: new_to_def response_to_def option.map_comp intro!: map_option_cong split: prod.splits)

lemma headerParam_tag:
  assumes "headerParam t ''tag'' = None" "tag_ok g"
  shows "headerParam (t @ '';tag='' @ g) ''tag'' = Some g"
proof -
  have "trimmed ''tag''" by (simp add: trimmed_def is_ws_def)
  moreover have "trim g = g" "CHR '';'' \<notin> set g" using assms(2) by (simp_all add: tag_ok_def)
  ultimately show ?thesis using headerParam_appended [OF assms(1), of g] by simp
qed

section \<open>The new-call branch\<close>

lemma new_call_elim:
  assumes "handle_new_call rnd u req cid n = (v, r)"
  obtains (refused) r100 r180 fin where "responses r = [r100, r180, fin]" "media r = MediaNone"
      "echoes req r100" "echoes req r180" "echoes req fin"
      "statusCode r100 = 100" "statusCode r180 = 180" "statusCode fin = 400 \<or> statusCode fin = 488"
      "uas_cfg v = uas_cfg u" "forcedTag v = forcedTag u" "haveDialog v = False" "answered v = False"
      "localTag v \<noteq> []" "localTag v = snd (newTag rnd u)"
      "\<forall>offer. parseSdp (sip_body req) = Some offer \<longrightarrow> 0 \<notin> set (payloadTypes offer) \<and> 8 \<notin> set (payloadTypes offer)"
  | (accepted) r100 r180 fin offer answer where "responses r = [r100, r180, fin]" "media r = MediaStart"
      "echoes req r100" "echoes req r180" "echoes req fin"
      "statusCode r100 = 100" "statusCode r180 = 180" "statusCode fin = 200"
      "uas_cfg v = uas_cfg u" "forcedTag v = forcedTag u" "haveDialog v" "answered v"
      "localTag v \<noteq> []" "localTag v = snd (newTag rnd u)"
      "uas_callId v = cid" "inviteCSeq v = n" "lastInvite v = req" "last2xxInvite v = fin"
      "parseSdp (sip_body req) = Some offer"
      "makeAnswer offer (uc_localIp (uas_cfg u)) (uc_rtpPort (uas_cfg u)) = Some answer"
      "sip_body fin = sdp_generate answer"
      "remoteRtp r = \<lparr>ep_ip = connectionAddress offer, ep_port = audioPort offer\<rparr>"
      "res_payloadType r = hd (payloadTypes answer)" "res_dtmfPayloadType r = dtmfPayloadType answer"
      "sip_get r180 ''To'' = map_option (\<lambda>t. if headerParam t ''tag'' = None then t @ '';tag='' @ localTag v else t) (sip_get req ''To'')"
      "sip_get fin ''To'' = sip_get r180 ''To''"
proof -
  define u1 where "u1 = u\<lparr>haveDialog := True, answered := False, uas_callId := cid, inviteCSeq := n\<rparr>"
  obtain u2 tag where t: "newTag rnd u1 = (u2, tag)" by (cases "newTag rnd u1")
  define u3 where "u3 = u2\<lparr>localTag := tag, lastInvite := req\<rparr>"
  obtain u4 r100 where m100: "makeResponse rnd u3 req 100 [] = (u4, r100)" by (cases "makeResponse rnd u3 req 100 []")
  obtain u5 r180 where m180: "makeResponse rnd u4 req 180 [] = (u5, r180)" by (cases "makeResponse rnd u4 req 180 []")
  have ntag: "snd (newTag rnd u) = tag" using t by (auto simp: u1_def newTag_def Let_def split: if_splits)
  have k2: "uas_cfg u2 = uas_cfg u" "forcedTag u2 = forcedTag u" "haveDialog u2" "\<not> answered u2" "uas_callId u2 = cid"
    "inviteCSeq u2 = n"
    using same_dialogD [OF newTag_dialog [OF t]] by (simp_all add: u1_def)
  note k4 = makeResponse_keeps [OF m100] and k5 = makeResponse_keeps [OF m180]
  have k: "uas_cfg u5 = uas_cfg u" "forcedTag u5 = forcedTag u" "haveDialog u5" "\<not> answered u5" "uas_callId u5 = cid"
    "inviteCSeq u5 = n" "localTag u5 = tag" "lastInvite u5 = req" "localTag u4 = tag"
    using k2 k4 k5 by (simp_all add: u3_def)
  have ne: "tag \<noteq> []" by (rule newTag_not_Nil [OF t])
  note f100 = makeResponse_fields [OF m100] and f180 = makeResponse_fields [OF m180]
  have eq: "handle_new_call rnd u req cid n =
    (case parseSdp (sip_body req) of
       None \<Rightarrow> (let (u, r400) = makeResponse rnd u5 req 400 ''Bad Request (SDP)''
             in (u\<lparr>haveDialog := False\<rparr>, uas_result_init\<lparr>responses := [r100, r180, r400]\<rparr>))
     | Some offer \<Rightarrow>
         (case makeAnswer offer (uc_localIp (uas_cfg u5)) (uc_rtpPort (uas_cfg u5)) of
            None \<Rightarrow> (let (u, r488) = makeResponse rnd u5 req 488 []
                  in (u\<lparr>haveDialog := False\<rparr>, uas_result_init\<lparr>responses := [r100, r180, r488]\<rparr>))
          | Some answer \<Rightarrow>
              (let (u, ok) = makeResponse rnd u5 req 200 ''OK'';
                   ok = sip_set ok ''Contact'' (''<sip:'' @ uc_localIp (uas_cfg u) @ '':'' @ to_string (uint (uc_sipPort (uas_cfg u))) @ ''>'');
                   ok = sip_set ok ''Content-Type'' ''application/sdp'';
                   ok = ok\<lparr>sip_body := sdp_generate answer\<rparr>
               in (u\<lparr>last2xxInvite := ok, answered := True\<rparr>,
                   \<lparr>responses = [r100, r180, ok], media = MediaStart,
                    remoteRtp = \<lparr>ep_ip = connectionAddress offer, ep_port = audioPort offer\<rparr>,
                    res_payloadType = hd (payloadTypes answer), res_dtmfPayloadType = dtmfPayloadType answer\<rparr>))))"
    unfolding handle_new_call_def Let_def u1_def [symmetric] t prod.case u3_def [symmetric] m100 m180 by (rule refl)
  show ?thesis
  proof (cases "parseSdp (sip_body req)")
    case None
    obtain u6 fin where m: "makeResponse rnd u5 req 400 ''Bad Request (SDP)'' = (u6, fin)"
      by (cases "makeResponse rnd u5 req 400 ''Bad Request (SDP)''")
    have vr: "v = u6\<lparr>haveDialog := False\<rparr>" "r = uas_result_init\<lparr>responses := [r100, r180, fin]\<rparr>"
      using assms unfolding eq None option.case m Let_def prod.case by simp_all
    note f = makeResponse_fields [OF m] and k6 = makeResponse_keeps [OF m]
    show ?thesis
      by (rule refused [of r100 r180 fin])
        (simp_all add: vr k6 uas_result_init_def f f100 f180 ne ntag None k)
  next
    case (Some offer)
    note offer = Some
    show ?thesis
    proof (cases "makeAnswer offer (uc_localIp (uas_cfg u5)) (uc_rtpPort (uas_cfg u5))")
      case None
      obtain u6 fin where m: "makeResponse rnd u5 req 488 [] = (u6, fin)" by (cases "makeResponse rnd u5 req 488 []")
      have "0 \<notin> set (payloadTypes offer) \<and> 8 \<notin> set (payloadTypes offer)"
        using None by (simp add: makeAnswer_def offersPcmu_def offersPcma_def Let_def split: if_splits)
      moreover have vr: "v = u6\<lparr>haveDialog := False\<rparr>" "r = uas_result_init\<lparr>responses := [r100, r180, fin]\<rparr>"
        using assms unfolding eq offer None option.case m Let_def prod.case by simp_all
      note f = makeResponse_fields [OF m] and k6 = makeResponse_keeps [OF m]
      ultimately show ?thesis
        by (intro refused [of r100 r180 fin])
          (simp_all add: vr k6 uas_result_init_def f f100 f180 ne ntag offer k)
    next
      case (Some answer)
      obtain u6 ok where m: "makeResponse rnd u5 req 200 ''OK'' = (u6, ok)" by (cases "makeResponse rnd u5 req 200 ''OK''")
      define fin where "fin = (sip_set (sip_set ok ''Contact'' (''<sip:'' @ uc_localIp (uas_cfg u6) @ '':''
         @ to_string (uint (uc_sipPort (uas_cfg u6))) @ ''>'')) ''Content-Type'' ''application/sdp'')\<lparr>sip_body := sdp_generate answer\<rparr>"
      note f = makeResponse_fields [OF m] and k6 = makeResponse_keeps [OF m]
      have vr: "v = u6\<lparr>last2xxInvite := fin, answered := True\<rparr>" "r = \<lparr>responses = [r100, r180, fin], media = MediaStart,
                    remoteRtp = \<lparr>ep_ip = connectionAddress offer, ep_port = audioPort offer\<rparr>,
                    res_payloadType = hd (payloadTypes answer), res_dtmfPayloadType = dtmfPayloadType answer\<rparr>"
        using assms unfolding eq offer option.case Some m Let_def prod.case fin_def [symmetric] by simp_all
      have fin: "echoes req fin" "statusCode fin = 200" "sip_body fin = sdp_generate answer" "sip_get fin ''To'' = sip_get ok ''To''"
        using f by (simp_all add: fin_def get_set_other)
      have to: "sip_get r180 ''To'' = map_option (\<lambda>t. if headerParam t ''tag'' = None then t @ '';tag='' @ tag else t) (sip_get req ''To'')"
        "sip_get ok ''To'' = sip_get r180 ''To''"
        unfolding f(3) f180(3) new_to_local [of u4 rnd req 180, unfolded k(9), OF ne]
          new_to_local [of u5 rnd req 200, unfolded k(7), OF ne] by simp_all
      have lt: "localTag v = tag" using vr(1) k k6 by simp
      note to = to(1) [folded lt] to(2)
      show ?thesis
        by (rule accepted [of r100 r180 fin offer answer])
          (use to in \<open>simp_all add: vr k6 fin f100 f180 lt ne ntag offer Some [unfolded k(1)] k\<close>)
    qed
  qed
qed

section \<open>The invariant\<close>

definition tags_ok :: "sip_uas \<Rightarrow> bool" where
  "tags_ok u \<longleftrightarrow> (forcedTag u = [] \<or> tag_ok (forcedTag u)) \<and> (localTag u = [] \<or> tag_ok (localTag u))"

definition uas_inv :: "sip_uas \<Rightarrow> bool" where
  "uas_inv u \<longleftrightarrow> tags_ok u \<and> (haveDialog u \<longrightarrow> answered u \<and> localTag u \<noteq> []
     \<and> echoes (lastInvite u) (last2xxInvite u) \<and> statusCode (last2xxInvite u) = 200
     \<and> sip_get (lastInvite u) ''Call-ID'' = Some (uas_callId u))"

lemma uas_inv_same: "same_dialog u v \<Longrightarrow> uas_inv v = uas_inv u"
  using same_dialogD [of u v] by (simp add: uas_inv_def tags_ok_def)

lemma reply_elim:
  assumes "reply rnd u req code reason = (v, r)"
  obtains m where "same_dialog u v" "r = uas_result_init\<lparr>responses := [m]\<rparr>" "echoes req m" "statusCode m = code"
    "makeResponse rnd u req code reason = (v, m)"
proof -
  obtain w m where m: "makeResponse rnd u req code reason = (w, m)" by (cases "makeResponse rnd u req code reason")
  then have "w = v" "r = uas_result_init\<lparr>responses := [m]\<rparr>" using assms by (simp_all add: reply_def)
  then show ?thesis using that m makeResponse_dialog [OF m] makeResponse_fields(1,2) [OF m] by blast
qed

lemma options_elim:
  assumes "handle_options rnd u req = (v, r)"
  obtains m where "same_dialog u v" "r = uas_result_init\<lparr>responses := [m]\<rparr>" "echoes req m" "statusCode m = 200"
proof -
  obtain w m where m: "makeResponse rnd u req 200 ''OK'' = (w, m)" by (cases "makeResponse rnd u req 200 ''OK''")
  then have "w = v" "r = uas_result_init\<lparr>responses := [sip_set (sip_set m ''Allow'' allow_methods) ''Accept'' ''application/sdp'']\<rparr>"
    using assms by (simp_all add: handle_options_def)
  then show ?thesis using that makeResponse_dialog [OF m] makeResponse_fields(1,2) [OF m] by simp
qed

lemma other_elim:
  assumes "handle_other rnd u req = (v, r)"
  obtains m where "same_dialog u v" "r = uas_result_init\<lparr>responses := [m]\<rparr>" "echoes req m" "statusCode m = 405"
proof -
  obtain w m where m: "makeResponse rnd u req 405 ''Method Not Allowed'' = (w, m)"
    by (cases "makeResponse rnd u req 405 ''Method Not Allowed''")
  then have "w = v" "r = uas_result_init\<lparr>responses := [sip_set m ''Allow'' allow_methods]\<rparr>"
    using assms by (simp_all add: handle_other_def)
  then show ?thesis using that makeResponse_dialog [OF m] makeResponse_fields(1,2) [OF m] by simp
qed

text \<open>CANCEL, in a state that satisfies the invariant: only the 200 for the CANCEL itself.\<close>

lemma cancel_elim:
  assumes "handle_cancel rnd u req = (v, r)" "uas_inv u"
  obtains m where "same_dialog u v" "r = uas_result_init\<lparr>responses := [m]\<rparr>" "echoes req m" "statusCode m = 200"
proof -
  obtain w m where m: "makeResponse rnd u req 200 ''OK'' = (w, m)" by (cases "makeResponse rnd u req 200 ''OK''")
  note d = makeResponse_dialog [OF m]
  have "haveDialog w \<longrightarrow> answered w" using assms(2) same_dialogD [OF d] by (simp add: uas_inv_def)
  then have "w = v" "r = uas_result_init\<lparr>responses := [m]\<rparr>"
    using assms(1) m by (auto simp: handle_cancel_def split: if_splits)
  then show ?thesis using that d makeResponse_fields(1,2) [OF m] by blast
qed

lemma bye_elim:
  assumes "handle_bye rnd u req = (v, r)"
  obtains (ends) m w where "haveDialog u" "sip_get req ''Call-ID'' = Some (uas_callId u)" "same_dialog u w"
      "v = w\<lparr>haveDialog := False, answered := False\<rparr>" "r = uas_result_init\<lparr>responses := [m], media := MediaStop\<rparr>"
      "echoes req m" "statusCode m = 200"
  | (no_call) m where "\<not> (haveDialog u \<and> sip_get req ''Call-ID'' = Some (uas_callId u))" "same_dialog u v"
      "r = uas_result_init\<lparr>responses := [m]\<rparr>" "echoes req m" "statusCode m = 481"
proof (cases "haveDialog u \<and> sip_get req ''Call-ID'' = Some (uas_callId u)")
  case True
  obtain w m where m: "makeResponse rnd u req 200 ''OK'' = (w, m)" by (cases "makeResponse rnd u req 200 ''OK''")
  then have "v = w\<lparr>haveDialog := False, answered := False\<rparr>" "r = uas_result_init\<lparr>responses := [m], media := MediaStop\<rparr>"
    using assms True by (simp_all add: handle_bye_def)
  then show ?thesis using ends True makeResponse_dialog [OF m] makeResponse_fields(1,2) [OF m] by blast
next
  case False
  then have "reply rnd u req 481 [] = (v, r)" using assms by (auto simp: handle_bye_def)
  then show ?thesis by (rule reply_elim) (rule no_call [OF False])
qed

definition cseq_number :: "string \<Rightarrow> int" where
  "cseq_number h = (case parseCSeq h of None \<Rightarrow> - 1 | Some c \<Rightarrow> cs_number c)"

lemma invite_elim:
  assumes "handle_invite rnd u req = (v, r)"
  obtains (malformed) "sip_get req ''Call-ID'' = None \<or> sip_get req ''CSeq'' = None" "reply rnd u req 400 [] = (v, r)"
  | (duplicate) cid cs where "sip_get req ''Call-ID'' = Some cid" "sip_get req ''CSeq'' = Some cs"
      "haveDialog u" "cid = uas_callId u" "cseq_number cs = inviteCSeq u" "v = u"
      "r = uas_result_init\<lparr>responses := (if answered u then [last2xxInvite u] else [])\<rparr>"
  | (busy) cid cs where "sip_get req ''Call-ID'' = Some cid" "sip_get req ''CSeq'' = Some cs"
      "haveDialog u" "cid \<noteq> uas_callId u" "reply rnd u req 486 [] = (v, r)"
  | (fresh) cid cs where "sip_get req ''Call-ID'' = Some cid" "sip_get req ''CSeq'' = Some cs"
      "\<not> haveDialog u \<or> cid = uas_callId u \<and> cseq_number cs \<noteq> inviteCSeq u"
      "handle_new_call rnd u req cid (cseq_number cs) = (v, r)"
proof (cases "sip_get req ''Call-ID''")
  case None
  then show ?thesis using assms malformed by (simp add: handle_invite_def)
next
  case (Some cid)
  note cid = Some
  show ?thesis
  proof (cases "sip_get req ''CSeq''")
    case None
    then show ?thesis using assms malformed cid by (simp add: handle_invite_def)
  next
    case (Some cs)
    have h: "handle_invite rnd u req =
      (if haveDialog u \<and> cid = uas_callId u \<and> cseq_number cs = inviteCSeq u then
               (u, uas_result_init\<lparr>responses := (if answered u then [last2xxInvite u] else [])\<rparr>)
             else if haveDialog u \<and> cid \<noteq> uas_callId u then reply rnd u req 486 []
             else handle_new_call rnd u req cid (cseq_number cs))"
      by (simp add: handle_invite_def cid Some cseq_number_def Let_def)
    consider (d) "haveDialog u \<and> cid = uas_callId u \<and> cseq_number cs = inviteCSeq u"
      | (b) "haveDialog u \<and> cid \<noteq> uas_callId u"
      | (n) "\<not> haveDialog u \<or> cid = uas_callId u \<and> cseq_number cs \<noteq> inviteCSeq u" by blast
    then show ?thesis
    proof cases
      case d
      show ?thesis by (rule duplicate [OF cid Some]) (use d assms h in auto)
    next
      case b
      show ?thesis by (rule busy [OF cid Some]) (use b assms h in simp_all)
    next
      case n
      then have "\<not> (haveDialog u \<and> cid = uas_callId u \<and> cseq_number cs = inviteCSeq u)"
        "\<not> (haveDialog u \<and> cid \<noteq> uas_callId u)" by blast+
      then have "handle_new_call rnd u req cid (cseq_number cs) = (v, r)" using assms h by (simp only: if_False)
      then show ?thesis by (rule fresh [OF cid Some n])
    qed
  qed
qed

lemma newTag_tags_ok: "tags_ok u \<Longrightarrow> tag_ok (snd (newTag rnd u))"
  using newTag_ok [of rnd u] by (cases "newTag rnd u") (simp add: tags_ok_def)

lemma new_call_inv:
  assumes "handle_new_call rnd u req cid n = (v, r)" "uas_inv u" "sip_get req ''Call-ID'' = Some cid"
  shows "uas_inv v"
proof -
  have t: "tags_ok u" "tag_ok (snd (newTag rnd u))" using assms(2) newTag_tags_ok by (simp_all add: uas_inv_def)
  show ?thesis
  proof (rule new_call_elim [OF assms(1)], goal_cases)
    case (1 r100 r180 fin)
    then show ?case using t by (simp add: uas_inv_def tags_ok_def)
  next
    case (2 r100 r180 fin offer answer)
    then show ?case using t assms(3) by (simp add: uas_inv_def tags_ok_def)
  qed
qed

lemma invite_inv:
  assumes "handle_invite rnd u req = (v, r)" "uas_inv u"
  shows "uas_inv v"
proof (rule invite_elim [OF assms(1)], goal_cases)
  case 1
  then show ?case using assms(2) uas_inv_same by (auto elim!: reply_elim)
next
  case 3
  then show ?case using assms(2) uas_inv_same by (auto elim!: reply_elim)
next
  case (4 cid cs)
  then show ?case using new_call_inv assms(2) by blast
qed (use assms in simp)

definition uas_step :: "(nat \<Rightarrow> u32) \<Rightarrow> sip_uas \<Rightarrow> sip_message \<Rightarrow> sip_uas" where
  "uas_step rnd u req = fst (uas_handle rnd u req)"

text \<open>The cases of the handler's chain of methods.\<close>

lemma method_chain:
  "(if a then x else if b then y else if c then z else if d then x else if e then p else if f then q else t) = r \<Longrightarrow>
   x = r \<or> b \<and> y = r \<or> c \<and> z = r \<or> e \<and> p = r \<or> f \<and> q = r \<or> t = r"
  by (auto split: if_splits)

lemmas uas_handle_chain = method_chain [OF trans [OF uas_handle_def [symmetric]]]

lemma uas_handle_inv:
  assumes "uas_handle rnd u req = (v, r)" "uas_inv u"
  shows "uas_inv v"
proof -
  have s: "same_dialog u w \<Longrightarrow> uas_inv w" for w using assms(2) uas_inv_same by blast
  consider "v = u" | "handle_options rnd u req = (v, r)" | "handle_invite rnd u req = (v, r)"
    | "handle_cancel rnd u req = (v, r)" | "handle_bye rnd u req = (v, r)" | "handle_other rnd u req = (v, r)"
    using uas_handle_chain [OF assms(1)] by blast
  then show ?thesis
  proof cases
    case 2 then show ?thesis by (rule options_elim) (rule s)
  next
    case 3 then show ?thesis by (rule invite_inv [OF _ assms(2)])
  next
    case 4 then show ?thesis by (rule cancel_elim [OF _ assms(2)]) (rule s)
  next
    case 5
    then show ?thesis
    proof (rule bye_elim, goal_cases)
      case (1 m w)
      then show ?case using s [of w] by (simp add: uas_inv_def tags_ok_def)
    qed (rule s)
  next
    case 6 then show ?thesis by (rule other_elim) (rule s)
  qed (use assms(2) in simp)
qed

interpretation uasm: machine "uas_step rnd" uas_inv for rnd
proof
  fix u req assume "uas_inv u"
  then show "uas_inv (uas_step rnd u req)"
    using uas_handle_inv [of rnd u req] by (cases "uas_handle rnd u req") (simp add: uas_step_def)
qed

text \<open>The state after a sequence of messages.\<close>

definition uas_run :: "(nat \<Rightarrow> u32) \<Rightarrow> uas_config \<Rightarrow> sip_message list \<Rightarrow> sip_uas" where
  "uas_run rnd c msgs = foldl (uas_step rnd) (uas_new c) msgs"

lemma uas_run_inv: "uas_inv (uas_run rnd c msgs)"
  unfolding uas_run_def by (rule uasm.inv_run) (simp add: uas_inv_def tags_ok_def uas_new_def)

section \<open>Responses are well-formed messages\<close>

definition headers_ok :: "sip_message \<Rightarrow> bool" where
  "headers_ok m \<longleftrightarrow> list_all header_ok (sip_headers m)"

definition resp_ok :: "sip_message \<Rightarrow> bool" where
  "resp_ok m \<longleftrightarrow> start_ok m \<and> headers_ok m"

definition cfg_ok :: "uas_config \<Rightarrow> bool" where
  "cfg_ok c \<longleftrightarrow> crlf_free (uc_userAgent c) \<and> crlf_free (uc_localIp c)"

lemma headers_ok_set: "headers_ok m \<Longrightarrow> header_ok (n, v) \<Longrightarrow> headers_ok (sip_set m n v)"
  by (auto simp: headers_ok_def sip_set_def sip_remove_def Let_def list_all_iff)

lemma headers_ok_set_opt: "headers_ok m \<Longrightarrow> (\<And>v. x = Some v \<Longrightarrow> header_ok (n, v)) \<Longrightarrow> headers_ok (set_opt m n x)"
  by (auto simp: set_opt_def headers_ok_set split: option.split)

lemma headers_ok_adds:
  "headers_ok m \<Longrightarrow> \<forall>v \<in> set vs. header_ok (n, v) \<Longrightarrow> headers_ok (foldl (\<lambda>m v. sip_add m n v) m vs)"
  by (induction vs arbitrary: m) (simp_all add: headers_ok_def sip_add_def)

lemma find_in_set: "find P xs = Some x \<Longrightarrow> x \<in> set xs"
  by (induction xs) (auto split: if_splits)

lemma headers_ok_get: "headers_ok m \<Longrightarrow> sip_get m n = Some v \<Longrightarrow> crlf_free v"
  using find_in_set [of "\<lambda>h. iequals (fst h) n" "sip_headers m"]
  by (fastforce simp: sip_get_def headers_ok_def list_all_iff header_ok_def)

lemma headers_ok_getAll: "headers_ok m \<Longrightarrow> v \<in> set (sip_getAll m n) \<Longrightarrow> crlf_free v"
  by (auto simp: sip_getAll_def headers_ok_def list_all_iff header_ok_def)

lemma name_ok [simp]:
  "header_ok (''Via'', v) = crlf_free v" "header_ok (''From'', v) = crlf_free v" "header_ok (''To'', v) = crlf_free v"
  "header_ok (''Call-ID'', v) = crlf_free v" "header_ok (''CSeq'', v) = crlf_free v" "header_ok (''Server'', v) = crlf_free v"
  "header_ok (''Allow'', v) = crlf_free v" "header_ok (''Accept'', v) = crlf_free v" "header_ok (''Contact'', v) = crlf_free v"
  "header_ok (''Content-Type'', v) = crlf_free v"
  by (simp_all add: header_ok_def trimmed_def is_ws_def)

lemma new_to_ok:
  assumes "headers_ok req" "tags_ok u" "new_to rnd u req code = Some v"
  shows "crlf_free v"
proof -
  obtain t where t: "sip_get req ''To'' = Some t" "v = snd (response_to rnd u code t)"
    using assms(3) by (auto simp: new_to_def)
  then have free: "crlf_free t" using headers_ok_get assms(1) by blast
  have "crlf_free (snd (newTag rnd u))" "localTag u \<noteq> [] \<Longrightarrow> crlf_free (localTag u)"
    using newTag_tags_ok [OF assms(2)] assms(2) by (auto simp: tags_ok_def tag_ok_def)
  then show ?thesis using free t(2)
    by (auto simp: response_to_def crlf_free_append split: prod.splits if_splits)
qed

lemma reasonFor_ok: "crlf_free (reasonFor c)"
  by (auto simp: reasonFor_def)

lemma makeResponse_ok:
  assumes "makeResponse rnd u req code reason = (v, m)" "headers_ok req" "tags_ok u" "cfg_ok (uas_cfg u)"
    "100 \<le> code" "code \<le> 999" "crlf_free reason"
  shows "resp_ok m"
proof -
  let ?i = "sip_message_init\<lparr>isRequest := False, statusCode := code, reasonPhrase := (if reason = [] then reasonFor code else reason)\<rparr>"
  have "headers_ok ?i" by (simp add: headers_ok_def sip_message_init_def)
  then have "headers_ok (foldl (\<lambda>m v. sip_add m ''Via'' v) ?i (sip_getAll req ''Via''))"
    using headers_ok_getAll [OF assms(2)] by (intro headers_ok_adds) simp_all
  then have p: "headers_ok (resp_to_part req code reason)"
    unfolding resp_to_part_def using headers_ok_get [OF assms(2)] by (intro headers_ok_set_opt) simp_all
  have "headers_ok m"
    unfolding makeResponse_split [OF assms(1)] resp_rest_def
    using p new_to_ok [OF assms(2,3)] headers_ok_get [OF assms(2)] assms(4)
    by (intro headers_ok_set headers_ok_set_opt) (simp_all add: cfg_ok_def)
  moreover have "start_ok m"
    using makeResponse_fields [OF assms(1)] assms(5-7) reasonFor_ok
    by (simp add: start_ok_def version_ok_def starts_with_def)
  ultimately show ?thesis by (simp add: resp_ok_def)
qed

lemma resp_ok_set: "resp_ok m \<Longrightarrow> header_ok (n, v) \<Longrightarrow> resp_ok (sip_set m n v)"
  by (simp add: resp_ok_def headers_ok_set start_ok_def)

lemma resp_ok_body [simp]: "resp_ok (m\<lparr>sip_body := b\<rparr>) = resp_ok m"
  by (simp add: resp_ok_def headers_ok_def start_ok_def)

definition wire_inv :: "sip_uas \<Rightarrow> bool" where
  "wire_inv u \<longleftrightarrow> uas_inv u \<and> cfg_ok (uas_cfg u) \<and> (haveDialog u \<longrightarrow> resp_ok (last2xxInvite u))"

lemma wire_same: "same_dialog u v \<Longrightarrow> wire_inv v = wire_inv u"
  using same_dialogD [of u v] uas_inv_same [of u v] by (simp add: wire_inv_def)

definition all_ok :: "sip_uas \<times> uas_result \<Rightarrow> bool" where
  "all_ok vr \<longleftrightarrow> wire_inv (fst vr) \<and> list_all resp_ok (responses (snd vr))"

lemma tags_of_wire: "wire_inv u \<Longrightarrow> tags_ok u \<and> cfg_ok (uas_cfg u)"
  by (simp add: wire_inv_def uas_inv_def)

lemma reply_ok:
  assumes "wire_inv u" "headers_ok req" "100 \<le> code" "code \<le> 999" "crlf_free reason"
  shows "all_ok (reply rnd u req code reason)"
proof -
  obtain w m where m: "makeResponse rnd u req code reason = (w, m)" by (cases "makeResponse rnd u req code reason")
  have "resp_ok m" using makeResponse_ok [OF m assms(2)] tags_of_wire [OF assms(1)] assms(3-5) by blast
  moreover have "wire_inv w" using assms(1) wire_same [OF makeResponse_dialog [OF m]] by simp
  ultimately show ?thesis by (simp add: reply_def m all_ok_def uas_result_init_def)
qed

lemma options_other_ok:
  assumes "wire_inv u" "headers_ok req"
  shows "all_ok (handle_options rnd u req)" "all_ok (handle_other rnd u req)"
proof -
  note t = tags_of_wire [OF assms(1)]
  have a: "crlf_free allow_methods" by (simp add: allow_methods_def)
  obtain w m where m: "makeResponse rnd u req 200 ''OK'' = (w, m)" by (cases "makeResponse rnd u req 200 ''OK''")
  have "resp_ok m" by (rule makeResponse_ok [OF m assms(2)]) (use t in simp_all)
  moreover have "wire_inv w" using assms(1) wire_same [OF makeResponse_dialog [OF m]] by simp
  ultimately show "all_ok (handle_options rnd u req)"
    using a by (simp add: handle_options_def m all_ok_def uas_result_init_def resp_ok_set)
  obtain w' m' where m': "makeResponse rnd u req 405 ''Method Not Allowed'' = (w', m')"
    by (cases "makeResponse rnd u req 405 ''Method Not Allowed''")
  have "resp_ok m'" by (rule makeResponse_ok [OF m' assms(2)]) (use t in simp_all)
  moreover have "wire_inv w'" using assms(1) wire_same [OF makeResponse_dialog [OF m']] by simp
  ultimately show "all_ok (handle_other rnd u req)"
    using a by (simp add: handle_other_def m' all_ok_def uas_result_init_def resp_ok_set)
qed

lemma cancel_bye_ok:
  assumes "wire_inv u" "headers_ok req"
  shows "all_ok (handle_cancel rnd u req)" "all_ok (handle_bye rnd u req)"
proof -
  note t = tags_of_wire [OF assms(1)]
  obtain w m where m: "makeResponse rnd u req 200 ''OK'' = (w, m)" by (cases "makeResponse rnd u req 200 ''OK''")
  have ok: "resp_ok m" by (rule makeResponse_ok [OF m assms(2)]) (use t in simp_all)
  have w: "wire_inv w" using assms(1) wire_same [OF makeResponse_dialog [OF m]] by simp
  then have "haveDialog w \<longrightarrow> answered w" by (simp add: wire_inv_def uas_inv_def)
  then show "all_ok (handle_cancel rnd u req)"
    using ok w by (auto simp: handle_cancel_def m all_ok_def uas_result_init_def)
  show "all_ok (handle_bye rnd u req)"
  proof (cases "haveDialog u \<and> sip_get req ''Call-ID'' = Some (uas_callId u)")
    case True
    have "wire_inv (w\<lparr>haveDialog := False, answered := False\<rparr>)" using w by (simp add: wire_inv_def uas_inv_def tags_ok_def)
    then show ?thesis using True ok by (simp add: handle_bye_def m all_ok_def uas_result_init_def)
  next
    case False
    then have "handle_bye rnd u req = reply rnd u req 481 []" by (auto simp: handle_bye_def)
    then show ?thesis using reply_ok [OF assms] by simp
  qed
qed

lemma new_call_ok:
  assumes "wire_inv u" "headers_ok req" "sip_get req ''Call-ID'' = Some cid"
  shows "all_ok (handle_new_call rnd u req cid n)"
proof -
  define u1 where "u1 = u\<lparr>haveDialog := True, answered := False, uas_callId := cid, inviteCSeq := n\<rparr>"
  obtain u2 tag where t: "newTag rnd u1 = (u2, tag)" by (cases "newTag rnd u1")
  define u3 where "u3 = u2\<lparr>localTag := tag, lastInvite := req\<rparr>"
  obtain v r where vr: "handle_new_call rnd u req cid n = (v, r)" by (cases "handle_new_call rnd u req cid n")
  have "tags_ok u1" using tags_of_wire [OF assms(1)] by (simp add: u1_def tags_ok_def)
  then have t3: "tags_ok u3 \<and> cfg_ok (uas_cfg u3)"
    using tags_of_wire [OF assms(1)] newTag_tags_ok [of u1 rnd] same_dialogD [OF newTag_dialog [OF t]]
    by (simp add: u3_def u1_def tags_ok_def t [unfolded u1_def])
  have good: "resp_ok m \<and> (tags_ok y \<and> cfg_ok (uas_cfg y))"
    if "makeResponse rnd x req code reason = (y, m)" "tags_ok x \<and> cfg_ok (uas_cfg x)" "100 \<le> code" "code \<le> 999"
      "crlf_free reason" for x y m code reason
    using makeResponse_ok [OF that(1) assms(2)] that makeResponse_keeps [OF that(1)] by (simp add: tags_ok_def)
  obtain u4 r100 where m100: "makeResponse rnd u3 req 100 [] = (u4, r100)" by (cases "makeResponse rnd u3 req 100 []")
  note g100 = good [OF m100 t3, simplified]
  obtain u5 r180 where m180: "makeResponse rnd u4 req 180 [] = (u5, r180)" by (cases "makeResponse rnd u4 req 180 []")
  note g180 = good [OF m180 conjunct2 [OF g100], simplified]
  obtain a400 r400 where m400: "makeResponse rnd u5 req 400 ''Bad Request (SDP)'' = (a400, r400)"
    by (cases "makeResponse rnd u5 req 400 ''Bad Request (SDP)''")
  note g400 = good [OF m400 conjunct2 [OF g180], simplified]
  obtain a488 r488 where m488: "makeResponse rnd u5 req 488 [] = (a488, r488)" by (cases "makeResponse rnd u5 req 488 []")
  note g488 = good [OF m488 conjunct2 [OF g180], simplified]
  obtain a200 r200 where m200: "makeResponse rnd u5 req 200 ''OK'' = (a200, r200)" by (cases "makeResponse rnd u5 req 200 ''OK''")
  note g200 = good [OF m200 conjunct2 [OF g180], simplified]
  have contact: "crlf_free (''<sip:'' @ uc_localIp (uas_cfg a200) @ '':'' @ to_string (uint (uc_sipPort (uas_cfg a200))) @ ''>'')"
    using g200 by (auto simp: cfg_ok_def crlf_free_append)
  have "list_all resp_ok (responses r) \<and> cfg_ok (uas_cfg v) \<and> (haveDialog v \<longrightarrow> resp_ok (last2xxInvite v))"
    using vr g100 g180 g400 g488 g200 contact
    unfolding handle_new_call_def Let_def u1_def [symmetric] t prod.case u3_def [symmetric] m100 m180 m400 m488 m200
    by (auto simp: uas_result_init_def resp_ok_set split: option.splits)
  moreover have "uas_inv v" using new_call_inv [OF vr] assms by (simp add: wire_inv_def)
  ultimately show ?thesis by (simp add: vr all_ok_def wire_inv_def)
qed

lemma uas_handle_ok:
  assumes "wire_inv u" "headers_ok req"
  shows "all_ok (uas_handle rnd u req)"
proof -
  have inv: "all_ok (handle_invite rnd u req)"
  proof (cases "handle_invite rnd u req")
    case (Pair v r)
    show ?thesis
    proof (rule invite_elim [OF Pair], goal_cases)
      case 1
      show ?case using reply_ok [OF assms, of 400 "[]" rnd] by (simp add: Pair 1(2))
    next
      case (2 cid cs)
      show ?case using assms(1) by (simp add: Pair 2 all_ok_def uas_result_init_def wire_inv_def uas_inv_def)
    next
      case (3 cid cs)
      show ?case using reply_ok [OF assms, of 486 "[]" rnd] by (simp add: Pair 3(5))
    next
      case (4 cid cs)
      show ?case using new_call_ok [OF assms 4(1), of rnd "cseq_number cs"] by (simp add: Pair 4(4))
    qed
  qed
  have "all_ok (u, uas_result_init)" using assms(1) by (simp add: all_ok_def uas_result_init_def)
  then show ?thesis
    using options_other_ok [OF assms] cancel_bye_ok [OF assms] inv by (simp add: uas_handle_def)
qed

lemma uas_run_wire: "cfg_ok c \<Longrightarrow> list_all headers_ok msgs \<Longrightarrow> wire_inv (uas_run rnd c msgs)"
proof (induction msgs rule: rev_induct)
  case Nil
  then show ?case by (simp add: uas_run_def wire_inv_def uas_inv_def tags_ok_def uas_new_def)
next
  case (snoc m msgs)
  then have "all_ok (uas_handle rnd (uas_run rnd c msgs) m)" by (intro uas_handle_ok) simp_all
  then show ?case by (simp add: uas_run_def uas_step_def all_ok_def)
qed

section \<open>Properties\<close>

lemma uas_handle_elim:
  assumes "uas_handle rnd u req = (v, r)" "uas_inv u"
  obtains (silent) "v = u" "r = uas_result_init"
  | (single) m where "same_dialog u v" "r = uas_result_init\<lparr>responses := [m]\<rparr>" "echoes req m"
  | (bye) m w where "same_dialog u w" "v = w\<lparr>haveDialog := False, answered := False\<rparr>"
      "r = uas_result_init\<lparr>responses := [m], media := MediaStop\<rparr>" "echoes req m" "haveDialog u"
      "sip_get req ''Call-ID'' = Some (uas_callId u)" "sip_method req = ''BYE''"
  | (again) "v = u" "r = uas_result_init\<lparr>responses := [last2xxInvite u]\<rparr>" "haveDialog u" "sip_method req = ''INVITE''"
      "sip_get req ''Call-ID'' = Some (uas_callId u)"
  | (invite) cid cs where "handle_new_call rnd u req cid (cseq_number cs) = (v, r)"
      "sip_get req ''Call-ID'' = Some cid" "sip_get req ''CSeq'' = Some cs"
      "sip_method req = ''INVITE''" "\<not> haveDialog u \<or> cid = uas_callId u"
proof -
  consider (s) "(v, r) = (u, uas_result_init)" | (o) "handle_options rnd u req = (v, r)"
    | (i) "handle_invite rnd u req = (v, r)" "sip_method req = ''INVITE''"
    | (c) "handle_cancel rnd u req = (v, r)" | (b) "handle_bye rnd u req = (v, r)" "sip_method req = ''BYE''"
    | (t) "handle_other rnd u req = (v, r)"
    using uas_handle_chain [OF assms(1)] by blast
  then show ?thesis
  proof cases
    case s then show ?thesis using silent by simp
  next
    case o then show ?thesis by (rule options_elim) (rule single)
  next
    case c then show ?thesis by (rule cancel_elim [OF _ assms(2)]) (rule single)
  next
    case t then show ?thesis by (rule other_elim) (rule single)
  next
    case b
    show ?thesis
    proof (rule bye_elim [OF b(1)], goal_cases)
      case (1 m w)
      show ?case by (rule bye [OF 1(3,4,5,6,1,2) b(2)])
    qed (rule single)
  next
    case i
    show ?thesis
    proof (rule invite_elim [OF i(1)], goal_cases)
      case 1
      show ?case by (rule reply_elim [OF 1(2)]) (rule single)
    next
      case (2 cid cs)
      have "answered u" using assms(2) 2(3) by (simp add: uas_inv_def)
      then show ?case using again 2 i(2) by simp
    next
      case (3 cid cs)
      show ?case by (rule reply_elim [OF 3(5)]) (rule single)
    next
      case (4 cid cs)
      then show ?case using invite i(2) by blast
    qed
  qed
qed

text \<open>Two messages for the witnesses: an INVITE with a PCMA offer, and one without a usable offer.\<close>

definition demo_invite :: "string \<Rightarrow> string \<Rightarrow> string \<Rightarrow> sip_message" where
  "demo_invite cid cseq b = sip_message_init\<lparr>sip_method := ''INVITE'', requestUri := ''sip:b@h'',
     sip_headers := [(''Via'', ''v2''), (''via'', ''v1''), (''From'', ''<sip:a@h>;tag=1''), (''To'', ''<sip:b@h>''),
       (''Call-ID'', cid), (''CSeq'', cseq)], sip_body := b\<rparr>"

definition demo_offer :: string where
  "demo_offer = ''c=IN IP4 h\<newline>m=audio 4000 RTP/AVP 8 101\<newline>a=rtpmap:101 telephone-event/8000''"

definition demo_request :: "string \<Rightarrow> string \<Rightarrow> sip_message" where
  "demo_request meth cid = sip_message_init\<lparr>sip_method := meth, requestUri := ''sip:b@h'',
     sip_headers := [(''Via'', ''v''), (''To'', ''<sip:b@h>;tag=2''), (''Call-ID'', cid), (''CSeq'', ''9 X'')]\<rparr>"

definition demo_rnd :: "nat \<Rightarrow> u32" where
  "demo_rnd n = 255"



lemma sip_get_Cons: "sip_get (m\<lparr>sip_headers := (n, v) # hs\<rparr>) k = (if iequals n k then Some v else sip_get (m\<lparr>sip_headers := hs\<rparr>) k)"
  by (simp add: sip_get_def)

lemma demo_fields:
  "sip_get (demo_request meth cid) ''Call-ID'' = Some cid" "sip_get (demo_request meth cid) ''To'' = Some ''<sip:b@h>;tag=2''"
  "isRequest (demo_request meth cid)" "sip_method (demo_request meth cid) = meth"
  "sip_get (demo_invite cid cs b) ''Call-ID'' = Some cid" "sip_get (demo_invite cid cs b) ''CSeq'' = Some cs"
  "sip_get (demo_invite cid cs b) ''To'' = Some ''<sip:b@h>''"
  "isRequest (demo_invite cid cs b)" "sip_method (demo_invite cid cs b) = ''INVITE''" "sip_body (demo_invite cid cs b) = b"
  by (simp_all add: demo_request_def demo_invite_def sip_message_init_def sip_get_def iequals_def lower_def)

lemma demo_offer_parses:
  "\<exists>offer. parseSdp demo_offer = Some offer \<and> (0 \<in> set (payloadTypes offer) \<or> 8 \<in> set (payloadTypes offer))"
proof -
  have "map_option payloadTypes (parseSdp demo_offer) = Some [8, 101]" unfolding demo_offer_def by code_simp
  then show ?thesis by (cases "parseSdp demo_offer") auto
qed

lemma handle_invite_fresh:
  assumes "isRequest req" "sip_method req = ''INVITE''" "sip_get req ''Call-ID'' = Some cid" "sip_get req ''CSeq'' = Some cs"
    "\<not> haveDialog u"
  shows "uas_handle rnd u req = handle_new_call rnd u req cid (cseq_number cs)"
  using assms by (simp add: uas_handle_def handle_invite_def cseq_number_def Let_def)

text \<open>C1. When the agent is free it answers exactly the calls it can serve: a fresh INVITE starts media
if and only if its body parses as SDP with PCMU or PCMA; then media goes to the address and port of the
offer with the payload type and telephone-event type of the answer, the responses are 100, 180 and a
200 whose body is that answer, and the dialog is that of the request.\<close>

theorem uas_accepts:
  assumes "\<not> haveDialog u" "isRequest req" "sip_method req = ''INVITE''"
    and "sip_get req ''Call-ID'' = Some cid" "sip_get req ''CSeq'' = Some cs" and "uas_handle rnd u req = (v, r)"
  shows "(media r = MediaStart \<longleftrightarrow> (\<exists>offer. parseSdp (sip_body req) = Some offer
      \<and> (0 \<in> set (payloadTypes offer) \<or> 8 \<in> set (payloadTypes offer))))
    \<and> (haveDialog v \<longleftrightarrow> media r = MediaStart)
    \<and> (media r = MediaStart \<longrightarrow> (\<exists>offer answer. parseSdp (sip_body req) = Some offer
        \<and> makeAnswer offer (uc_localIp (uas_cfg u)) (uc_rtpPort (uas_cfg u)) = Some answer
        \<and> remoteRtp r = \<lparr>ep_ip = connectionAddress offer, ep_port = audioPort offer\<rparr>
        \<and> res_payloadType r = hd (payloadTypes answer) \<and> res_dtmfPayloadType r = dtmfPayloadType answer
        \<and> map statusCode (responses r) = [100, 180, 200] \<and> sip_body (last (responses r)) = sdp_generate answer
        \<and> uas_callId v = cid))"
proof -
  have h: "handle_new_call rnd u req cid (cseq_number cs) = (v, r)"
    using handle_invite_fresh [OF assms(2-5,1), of rnd] assms(6) by simp
  show ?thesis
  proof (rule new_call_elim [OF h], goal_cases)
    case (1 r100 r180 fin)
    then show ?case by auto
  next
    case (2 r100 r180 fin offer answer)
    then have "0 \<in> set (payloadTypes offer) \<or> 8 \<in> set (payloadTypes offer)" using makeAnswer_fields(7) by blast
    with 2 show ?case by simp
  qed
qed

text \<open>The witnesses' call: the state and result after one acceptable INVITE.\<close>

definition demo_call :: "sip_uas \<times> uas_result" where
  "demo_call = uas_handle demo_rnd (uas_run demo_rnd uas_config_init []) (demo_invite ''c1'' ''1 INVITE'' demo_offer)"

lemma demo_idle: "\<not> haveDialog (uas_run demo_rnd uas_config_init [])"
  by (simp add: uas_run_def uas_new_def)

theorem uas_accepts_witness:
  "media (snd demo_call) = MediaStart \<longleftrightarrow> (\<exists>offer. parseSdp demo_offer = Some offer
      \<and> (0 \<in> set (payloadTypes offer) \<or> 8 \<in> set (payloadTypes offer)))"
  using uas_accepts [OF demo_idle demo_fields(8,9,5,6) prod.collapse [symmetric], of demo_rnd "''c1''" "''1 INVITE''" demo_offer]
  unfolding demo_call_def [symmetric] demo_fields(10) by blast

lemma demo_new_call:
  "handle_new_call demo_rnd (uas_run demo_rnd uas_config_init []) (demo_invite ''c1'' ''1 INVITE'' demo_offer) ''c1''
     (cseq_number ''1 INVITE'') = (fst demo_call, snd demo_call)"
  using handle_invite_fresh [OF demo_fields(8,9,5,6) demo_idle, of demo_rnd "''c1''" "''1 INVITE''" demo_offer]
  by (simp add: demo_call_def)

lemma demo_call_facts:
  "media (snd demo_call) = MediaStart" "haveDialog (fst demo_call)" "uas_callId (fst demo_call) = ''c1''"
  by (rule new_call_elim [OF demo_new_call]; use demo_offer_parses in \<open>auto simp: demo_fields\<close>)+

lemma demo_call_run: "fst demo_call = uas_run demo_rnd uas_config_init [demo_invite ''c1'' ''1 INVITE'' demo_offer]"
  by (simp add: demo_call_def uas_run_def uas_step_def)

text \<open>C36. Retransmissions are absorbed: after an INVITE has been accepted, the same INVITE again gets just
the stored 200, byte for byte, starts no media and changes no state.\<close>

theorem uas_retransmission:
  assumes "uas_handle rnd (uas_run rnd c msgs) req = (v, r)" "media r = MediaStart"
  shows "uas_handle rnd v req = (v, uas_result_init\<lparr>responses := [last (responses r)]\<rparr>)"
proof -
  let ?u = "uas_run rnd c msgs"
  have req: "isRequest req" using assms by (auto simp: uas_handle_def uas_result_init_def split: if_splits)
  show ?thesis
  proof (rule uas_handle_elim [OF assms(1) uas_run_inv], goal_cases)
    case (5 cid cs)
    show ?case
    proof (rule new_call_elim [OF 5(1)], goal_cases)
      case (2 r100 r180 fin offer answer)
      then show ?case using 5 req
        by (simp add: uas_handle_def handle_invite_def cseq_number_def)
    qed (use assms(2) in simp)
  qed (use assms(2) in \<open>auto simp: uas_result_init_def\<close>)
qed

theorem uas_retransmission_witness:
  "uas_handle demo_rnd (fst demo_call) (demo_invite ''c1'' ''1 INVITE'' demo_offer)
    = (fst demo_call, uas_result_init\<lparr>responses := [last (responses (snd demo_call))]\<rparr>)"
  using uas_retransmission [OF prod.collapse [symmetric], of demo_rnd uas_config_init "[]"
      "demo_invite ''c1'' ''1 INVITE'' demo_offer"] demo_call_facts(1)
  unfolding demo_call_def [symmetric] by blast

text \<open>One call at a time: while a dialog is up, an INVITE of another call gets exactly one response,
486, starts no media, and leaves the dialog (its call, tag, sequence number and stored answer) alone.\<close>

theorem uas_busy:
  assumes "haveDialog u" "isRequest req" "sip_method req = ''INVITE''"
    and "sip_get req ''Call-ID'' = Some cid" "sip_get req ''CSeq'' = Some cs" "cid \<noteq> uas_callId u"
    and "uas_handle rnd u req = (v, r)"
  shows "map statusCode (responses r) = [486] \<and> media r = MediaNone \<and> same_dialog u v"
proof -
  have "reply rnd u req 486 [] = (v, r)" using assms by (simp add: uas_handle_def handle_invite_def Let_def)
  then show ?thesis by (rule reply_elim) (simp add: uas_result_init_def)
qed

theorem uas_busy_witness:
  "let vr = uas_handle demo_rnd (fst demo_call) (demo_invite ''c2'' ''1 INVITE'' demo_offer)
   in map statusCode (responses (snd vr)) = [486] \<and> media (snd vr) = MediaNone \<and> same_dialog (fst demo_call) (fst vr)"
  unfolding Let_def
  by (rule uas_busy [where u = "fst demo_call" and req = "demo_invite ''c2'' ''1 INVITE'' demo_offer" and rnd = demo_rnd,
      OF demo_call_facts(2) demo_fields(8,9,5,6) _ prod.collapse [symmetric]]) (simp add: demo_call_facts(3))

text \<open>C35. BYE ends exactly the call it names: with the dialog's Call-ID it gets 200, stops the media and
leaves the agent free, so that the same BYE again gets 481; any other BYE gets 481, stops nothing and
leaves the dialog alone.\<close>

theorem uas_bye:
  assumes "isRequest req" "sip_method req = ''BYE''" "uas_handle rnd u req = (v, r)"
  shows "(if haveDialog u \<and> sip_get req ''Call-ID'' = Some (uas_callId u)
      then map statusCode (responses r) = [200] \<and> media r = MediaStop \<and> \<not> haveDialog v
        \<and> map statusCode (responses (snd (uas_handle rnd v req))) = [481]
      else map statusCode (responses r) = [481] \<and> media r = MediaNone \<and> same_dialog u v)"
proof -
  have b: "handle_bye rnd u req = (v, r)" using assms by (simp add: uas_handle_def)
  show ?thesis
  proof (rule bye_elim [OF b], goal_cases)
    case (1 m w)
    obtain v2 r2 where h2: "handle_bye rnd v req = (v2, r2)" by (cases "handle_bye rnd v req")
    then have "uas_handle rnd v req = (v2, r2)" using assms(1,2) by (simp add: uas_handle_def)
    moreover have "map statusCode (responses r2) = [481]"
      by (rule bye_elim [OF h2]) (use 1(4) in \<open>simp_all add: uas_result_init_def\<close>)
    ultimately show ?case using 1 by (simp add: uas_result_init_def)
  next
    case (2 m)
    then show ?case by (auto simp: uas_result_init_def)
  qed
qed

theorem uas_bye_witness:
  "let req = demo_request ''BYE'' ''c1''; (v, r) = uas_handle demo_rnd (fst demo_call) req
   in map statusCode (responses r) = [200] \<and> media r = MediaStop \<and> \<not> haveDialog v
      \<and> map statusCode (responses (snd (uas_handle demo_rnd v req))) = [481]"
  using uas_bye [where u = "fst demo_call" and req = "demo_request ''BYE'' ''c1''" and rnd = demo_rnd,
      OF demo_fields(3) demo_fields(4) prod.collapse [symmetric]]
    demo_call_facts(2,3) by (simp add: Let_def split_beta demo_fields(1))

text \<open>CANCEL never ends a call: an INVITE is always decided in the call that handles it, so in every
reachable state a dialog is already answered, and a CANCEL gets exactly one 200, no 487, stops no media
and leaves the dialog alone.\<close>

theorem uas_cancel:
  assumes "isRequest req" "sip_method req = ''CANCEL''" "uas_handle rnd (uas_run rnd c msgs) req = (v, r)"
  shows "(haveDialog (uas_run rnd c msgs) \<longrightarrow> answered (uas_run rnd c msgs))
    \<and> map statusCode (responses r) = [200] \<and> media r = MediaNone \<and> same_dialog (uas_run rnd c msgs) v"
proof -
  have "handle_cancel rnd (uas_run rnd c msgs) req = (v, r)" using assms by (simp add: uas_handle_def)
  then show ?thesis
    by (rule cancel_elim [OF _ uas_run_inv]) (use uas_run_inv [of rnd c msgs] in \<open>simp add: uas_result_init_def uas_inv_def\<close>)
qed

theorem uas_cancel_witness:
  "let vr = uas_handle demo_rnd (fst demo_call) (demo_request ''CANCEL'' ''c1'')
   in answered (fst demo_call) \<and> map statusCode (responses (snd vr)) = [200] \<and> media (snd vr) = MediaNone
      \<and> same_dialog (fst demo_call) (fst vr)"
  using uas_cancel [where req = "demo_request ''CANCEL'' ''c1''" and rnd = demo_rnd and c = uas_config_init
      and msgs = "[demo_invite ''c1'' ''1 INVITE'' demo_offer]", OF demo_fields(3) demo_fields(4) prod.collapse [symmetric]]
    demo_call_facts(2)
  unfolding demo_call_run [symmetric] Let_def by blast

text \<open>One dialog, one tag: when an INVITE whose To has no tag is accepted, the 180 and the 200 carry the
same To, the request's with the agent's tag appended, and \<open>headerParam\<close> reads that tag back.\<close>

theorem uas_dialog_tag:
  assumes "uas_handle rnd (uas_run rnd c msgs) req = (v, r)" "media r = MediaStart"
    and "sip_get req ''To'' = Some t" "headerParam t ''tag'' = None"
  shows "sip_get (responses r ! 1) ''To'' = Some (t @ '';tag='' @ localTag v)
    \<and> sip_get (responses r ! 2) ''To'' = Some (t @ '';tag='' @ localTag v)
    \<and> headerParam (t @ '';tag='' @ localTag v) ''tag'' = Some (localTag v) \<and> localTag v \<noteq> []"
proof -
  have inv: "uas_inv v" by (rule uas_handle_inv [OF assms(1) uas_run_inv])
  show ?thesis
  proof (rule uas_handle_elim [OF assms(1) uas_run_inv], goal_cases)
    case (5 cid cs)
    show ?case
    proof (rule new_call_elim [OF 5(1)], goal_cases)
      case (2 r100 r180 fin offer answer)
      have "tag_ok (localTag v)" using inv 2(13) by (simp add: uas_inv_def tags_ok_def)
      then have "headerParam (t @ '';tag='' @ localTag v) ''tag'' = Some (localTag v)"
        using headerParam_tag [OF assms(4)] by blast
      then show ?case using 2(1,13,25,26) assms(3,4) by simp
    qed (use assms(2) in simp)
  qed (use assms(2) in \<open>auto simp: uas_result_init_def\<close>)
qed

theorem uas_dialog_tag_witness:
  "let v = fst demo_call; r = snd demo_call in sip_get (responses r ! 1) ''To'' = Some (''<sip:b@h>'' @ '';tag='' @ localTag v)
    \<and> sip_get (responses r ! 2) ''To'' = Some (''<sip:b@h>'' @ '';tag='' @ localTag v)
    \<and> headerParam (''<sip:b@h>'' @ '';tag='' @ localTag v) ''tag'' = Some (localTag v) \<and> localTag v \<noteq> []"
proof -
  have n: "headerParam ''<sip:b@h>'' ''tag'' = None" by code_simp
  show ?thesis
    using uas_dialog_tag [where rnd = demo_rnd and c = uas_config_init and msgs = "[]"
        and req = "demo_invite ''c1'' ''1 INVITE'' demo_offer", OF prod.collapse [symmetric] _ demo_fields(7) n]
      demo_call_facts(1)
    unfolding demo_call_def [symmetric] by (simp only: Let_def simp_thms)
qed

text \<open>What the agent sends can be parsed: fed any messages that the parser accepted (or built the same
way), every response it ever produces serialises to a datagram that \<open>parseSip\<close> accepts and returns
as that same response with its Content-Length, whatever the peers put in the headers it echoes.\<close>

theorem uas_wire_responses:
  assumes "cfg_ok c" "list_all headers_ok (msgs @ [req])"
    and "resp \<in> set (responses (snd (uas_handle rnd (uas_run rnd c msgs) req)))"
    and "int (length (sip_body resp)) \<le> long_max"
  shows "parseSip (serialize resp) = Some (sip_norm resp)"
proof -
  have "wire_inv (uas_run rnd c msgs)" using assms(1,2) by (intro uas_run_wire) simp_all
  then have "all_ok (uas_handle rnd (uas_run rnd c msgs) req)" using assms(2) by (intro uas_handle_ok) simp_all
  then have "resp_ok resp" using assms(3) by (auto simp: all_ok_def list_all_iff)
  then have "sip_wf resp" using assms(4) by (simp add: sip_wf_def resp_ok_def headers_ok_def)
  then show ?thesis by (rule sip_roundtrip)
qed

lemma demo_options_response:
  "hd (responses (snd (uas_handle demo_rnd (uas_run demo_rnd uas_config_init []) (demo_request ''OPTIONS'' ''c1''))))
    \<in> set (responses (snd (uas_handle demo_rnd (uas_run demo_rnd uas_config_init []) (demo_request ''OPTIONS'' ''c1''))))"
  "sip_body (hd (responses (snd (uas_handle demo_rnd (uas_run demo_rnd uas_config_init []) (demo_request ''OPTIONS'' ''c1''))))) = []"
  using makeResponse_fields(6) [OF prod.collapse [symmetric],
      of demo_rnd "uas_run demo_rnd uas_config_init []" "demo_request ''OPTIONS'' ''c1''" 200 "''OK''"]
  by (simp_all add: uas_handle_def demo_fields handle_options_def split_beta Let_def uas_result_init_def)

theorem uas_wire_responses_witness:
  "let resp = hd (responses (snd (uas_handle demo_rnd (uas_run demo_rnd uas_config_init []) (demo_request ''OPTIONS'' ''c1''))))
   in parseSip (serialize resp) = Some (sip_norm resp)"
  unfolding Let_def
proof (rule uas_wire_responses [OF _ _ demo_options_response(1)])
  show "int (length (sip_body (hd (responses (snd (uas_handle demo_rnd (uas_run demo_rnd uas_config_init [])
      (demo_request ''OPTIONS'' ''c1''))))))) \<le> long_max"
    unfolding demo_options_response(2) by (simp add: long_max_def)
qed (simp_all add: cfg_ok_def uas_config_init_def headers_ok_def demo_request_def)

end
