(* ===== verification/Ws_Client.thy ===== *)
theory Ws_Client
  imports Net_Os
begin

text \<open>
  src/src/ws/WsClient.cpp and src/include/sipdemo/WsClient.h, POSIX branches. The record has the members
  of the class; \<open>ws_reader\<close> is \<open>readerThread_.joinable()\<close>. The mutex makes each of \<open>connected\<close>,
  \<open>sendBinary\<close>, \<open>sendText\<close>, \<open>close\<close> and the pong of the reader one atomic operation on the record, so
  the model is a state machine over whole operations (the theory Ws_Threads takes them apart). The
  reader reads outside the mutex; what other threads write to the atomic \<open>readerStop_\<close> meanwhile is read through \<open>os_stop\<close>.

  Loops on partial reads and writes are recursive functions that terminate because every iteration
  makes progress; the reader itself may run forever and is a partial function.
\<close>

section \<open>URL\<close>

record url_parts =
  up_host :: string
  up_port :: u16
  up_path :: string

definition parseWsUrl :: "string \<Rightarrow> url_parts option" where
  "parseWsUrl url =
    (if \<not> starts_with ''ws://'' url then None
     else
       (let rest = drop 5 url;
            slash = find_char (CHR ''/'') rest 0;
            hostPort = (case slash of None \<Rightarrow> rest | Some k \<Rightarrow> substr rest 0 k);
            path = (case slash of None \<Rightarrow> ''/'' | Some k \<Rightarrow> drop k rest);
            p = \<lparr>up_host = [], up_port = 80, up_path = (if path = [] then ''/'' else path)\<rparr>;
            p = (case rfind_char (CHR '':'') hostPort of
                   Some colon \<Rightarrow>
                     if find_char (CHR '']'') hostPort 0 = None then
                       p\<lparr>up_host := substr hostPort 0 colon,
                         up_port := word_of_int (atoi (drop (colon + 1) hostPort))\<rparr>
                     else p\<lparr>up_host := hostPort, up_port := 80\<rparr>
                 | None \<Rightarrow> p\<lparr>up_host := hostPort, up_port := 80\<rparr>)
        in if up_host p = [] \<or> up_port p = 0 then None else Some p))"

section \<open>Handshake key\<close>

definition b64 :: string where
  "b64 = ''ABCDEFGHIJKLMNOPQRSTUVWXYZabcdefghijklmnopqrstuvwxyz0123456789+/''"

definition b64_char :: "u32 \<Rightarrow> nat \<Rightarrow> char" where
  "b64_char n shift = b64 ! unat (drop_bit shift n AND 63)"

text \<open>The loop over the 16 raw bytes and the last, short group.\<close>

function key_loop :: "bytes \<Rightarrow> nat \<Rightarrow> string" where
  "key_loop raw i =
    (if i + 2 < 16 then
       (let n = push_bit 16 (ucast (raw ! i)) OR push_bit 8 (ucast (raw ! (i + 1))) OR ucast (raw ! (i + 2)) :: u32
        in [b64_char n 18, b64_char n 12, b64_char n 6, b64_char n 0] @ key_loop raw (i + 3))
     else
       (let n = push_bit 16 (ucast (raw ! i)) :: u32
        in [b64_char n 18, b64_char n 12, CHR ''='', CHR ''='']))"
  by pat_completeness auto
termination by (relation "measure (\<lambda>(raw, i). 16 - i)") auto

declare key_loop.simps [simp del]

definition randomWsKey :: "'w net_os \<Rightarrow> 'w \<Rightarrow> string \<times> 'w" where
  "randomWsKey os w =
    (let (seed, w) = os_random os w; raw = map (os_uniform_byte os seed) [0..<16]
     in (key_loop raw 0, w))"

section \<open>Partial writes and reads\<close>

function sendAll :: "'w net_os \<Rightarrow> int \<Rightarrow> bytes \<Rightarrow> nat \<Rightarrow> 'w \<Rightarrow> bool \<times> 'w" where
  "sendAll os fd data off w =
    (if off < length data then
       (case os_send os fd (drop off data) w of
          (n, w) \<Rightarrow> if n \<le> 0 then (False, w) else sendAll os fd data (off + nat n) w)
     else (True, w))"
  by pat_completeness auto
termination by (relation "measure (\<lambda>(os, fd, data, off, w). length data - off)") auto

declare sendAll.simps [simp del]

record ws_client =
  ws_fd :: int
  ws_connected :: bool
  ws_url :: string
  ws_readerStop :: bool
  ws_reader :: bool

definition ws_client_init :: ws_client where
  "ws_client_init = \<lparr>ws_fd = kInvalidFd, ws_connected = False, ws_url = [], ws_readerStop = False, ws_reader = False\<rparr>"

definition reader_stopped :: "'w net_os \<Rightarrow> ws_client \<Rightarrow> 'w \<Rightarrow> bool" where
  "reader_stopped os c w \<longleftrightarrow> ws_readerStop c \<or> os_stop os w"

text \<open>\<open>acc\<close> is the part of the buffer filled so far; \<open>None\<close> is the result \<open>false\<close>.\<close>

function readExact :: "'w net_os \<Rightarrow> ws_client \<Rightarrow> nat \<Rightarrow> bytes \<Rightarrow> 'w \<Rightarrow> bytes option \<times> 'w" where
  "readExact os c len acc w =
    (if length acc < len \<and> \<not> reader_stopped os c w then
       (case os_recv os (ws_fd c) (len - length acc) w of
          (None, w) \<Rightarrow> (None, w)
        | (Some d, w) \<Rightarrow> if d = [] then (None, w) else readExact os c len (acc @ d) w)
     else (if length acc = len then Some acc else None, w))"
  by pat_completeness auto
termination
  by (relation "measure (\<lambda>(os, c, len, acc, w). len - length acc)")
    (auto simp flip: length_greater_0_conv intro!: diff_less_mono2)

declare readExact.simps [simp del]

section \<open>Closing\<close>

definition ws_closeFdUnlocked :: "'w net_os \<Rightarrow> ws_client \<Rightarrow> 'w \<Rightarrow> ws_client \<times> 'w" where
  "ws_closeFdUnlocked os c w =
    (let (c, w) = (if ws_fd c \<noteq> kInvalidFd then (c\<lparr>ws_fd := kInvalidFd\<rparr>, os_close os (ws_fd c) w) else (c, w))
     in (c\<lparr>ws_connected := False\<rparr>, w))"

text \<open>\<open>close\<close> also waits for the reader to finish.\<close>

definition ws_close :: "'w net_os \<Rightarrow> ws_client \<Rightarrow> 'w \<Rightarrow> ws_client \<times> 'w" where
  "ws_close os c w =
    (let (c, w) = ws_closeFdUnlocked os (c\<lparr>ws_readerStop := True\<rparr>) w
     in (c\<lparr>ws_reader := False\<rparr>, w))"

section \<open>Sending frames\<close>

definition mask_bytes :: "bytes \<Rightarrow> bytes \<Rightarrow> bytes" where
  "mask_bytes mk data = map (\<lambda>i. data ! i XOR mk ! (i mod 4)) [0..<length data]"

definition random_mask :: "'w net_os \<Rightarrow> 'w \<Rightarrow> bytes \<times> 'w" where
  "random_mask os w =
    (let (a, w) = os_random os w; (b, w) = os_random os w; (c, w) = os_random os w; (d, w) = os_random os w
     in ([ucast a, ucast b, ucast c, ucast d], w))"

text \<open>The header up to the length; \<open>None\<close> when the payload is too long.\<close>

definition frame_header :: "u8 \<Rightarrow> nat \<Rightarrow> bytes option" where
  "frame_header opcode len =
    (let first = 0x80 OR (opcode AND 0x0f)
     in if len < 126 then Some [first, 0x80 OR of_nat len]
        else if len \<le> 0xffff then
          Some [first, 0x80 OR 126, of_nat (drop_bit 8 len AND 0xff), of_nat (len AND 0xff)]
        else None)"

definition sendFrameUnlocked :: "'w net_os \<Rightarrow> ws_client \<Rightarrow> u8 \<Rightarrow> bytes \<Rightarrow> 'w \<Rightarrow> bool \<times> ws_client \<times> 'w" where
  "sendFrameUnlocked os c opcode data w =
    (if \<not> ws_connected c \<or> ws_fd c = kInvalidFd then (False, c, w)
     else
       (case frame_header opcode (length data) of
          None \<Rightarrow> (False, c, w)
        | Some header \<Rightarrow>
            (let (mk, w) = random_mask os w;
                 frame = header @ mk @ mask_bytes mk data;
                 (ok, w) = sendAll os (ws_fd c) frame 0 w
             in if ok then (True, c, w)
                else (let (c, w) = ws_closeFdUnlocked os c w in (False, c, w)))))"

definition ws_sendBinary :: "'w net_os \<Rightarrow> ws_client \<Rightarrow> bytes \<Rightarrow> 'w \<Rightarrow> bool \<times> ws_client \<times> 'w" where
  "ws_sendBinary os c data w = sendFrameUnlocked os c 0x2 data w"

definition text_bytes :: "string \<Rightarrow> bytes" where
  "text_bytes s = map of_char s"

definition ws_sendText :: "'w net_os \<Rightarrow> ws_client \<Rightarrow> string \<Rightarrow> 'w \<Rightarrow> bool \<times> ws_client \<times> 'w" where
  "ws_sendText os c t w = sendFrameUnlocked os c 0x1 (text_bytes t) w"

section \<open>Reading frames\<close>

definition read_payload_length :: "'w net_os \<Rightarrow> ws_client \<Rightarrow> u8 \<Rightarrow> 'w \<Rightarrow> u64 option \<times> 'w" where
  "read_payload_length os c b w =
    (let payloadLen = ucast (b AND 0x7f) :: u64
     in if payloadLen = 126 then
          (case readExact os c 2 [] w of
             (None, w) \<Rightarrow> (None, w)
           | (Some ext, w) \<Rightarrow> (Some (push_bit 8 (ucast (ext ! 0)) OR ucast (ext ! 1)), w))
        else if payloadLen = 127 then
          (case readExact os c 8 [] w of
             (None, w) \<Rightarrow> (None, w)
           | (Some ext, w) \<Rightarrow> (Some (foldl (\<lambda>l i. push_bit 8 l OR ucast (ext ! i)) 0 [0..<8]), w))
        else (Some payloadLen, w))"

text \<open>One frame of the reader loop, up to the unmasked payload; \<open>None\<close> where the loop breaks.\<close>

definition ws_read_frame :: "'w net_os \<Rightarrow> ws_client \<Rightarrow> 'w \<Rightarrow> (u8 \<times> bytes) option \<times> 'w" where
  "ws_read_frame os c w =
    (case readExact os c 2 [] w of
       (None, w) \<Rightarrow> (None, w)
     | (Some hdr, w) \<Rightarrow>
        (let opcode = hdr ! 0 AND 0x0f; masked = (hdr ! 1 AND 0x80 \<noteq> 0)
         in case read_payload_length os c (hdr ! 1) w of
              (None, w) \<Rightarrow> (None, w)
            | (Some payloadLen, w) \<Rightarrow>
                (case (if masked then readExact os c 4 [] w else (Some [0, 0, 0, 0], w)) of
                   (None, w) \<Rightarrow> (None, w)
                 | (Some mk, w) \<Rightarrow>
                     if payloadLen > push_bit 20 1 then (None, w)
                     else
                       (case (if payloadLen > 0 then readExact os c (unat payloadLen) [] w else (Some [], w)) of
                          (None, w) \<Rightarrow> (None, w)
                        | (Some payload, w) \<Rightarrow>
                            (Some (opcode, if masked then mask_bytes mk payload else payload), w)))))"

partial_function (option) readerLoop :: "'w net_os \<Rightarrow> ws_client \<Rightarrow> 'w \<Rightarrow> (ws_client \<times> 'w) option" where
  "readerLoop os c w =
    (if reader_stopped os c w then Some (ws_closeFdUnlocked os c w)
     else
       (case ws_read_frame os c w of
          (None, w) \<Rightarrow> Some (ws_closeFdUnlocked os c w)
        | (Some (opcode, payload), w) \<Rightarrow>
            if opcode = 0x8 then Some (ws_closeFdUnlocked os c w)
            else
              (let (c, w) = (if opcode = 0x9 \<and> ws_connected c
                             then snd (sendFrameUnlocked os c 0xA payload w) else (c, w))
               in readerLoop os c w)))"

section \<open>Connecting\<close>

definition CRLF2 :: string where
  "CRLF2 = [CHR 0x0D, CHR 0x0A, CHR 0x0D, CHR 0x0A]"

definition ws_request :: "url_parts \<Rightarrow> string \<Rightarrow> string" where
  "ws_request p key =
    (let nl = [CHR 0x0D, CHR 0x0A]
     in ''GET '' @ up_path p @ '' HTTP/1.1'' @ nl
        @ ''Host: '' @ up_host p @ '':'' @ to_string (uint (up_port p)) @ nl
        @ ''Upgrade: websocket'' @ nl
        @ ''Connection: Upgrade'' @ nl
        @ ''Sec-WebSocket-Key: '' @ key @ nl
        @ ''Sec-WebSocket-Version: 13'' @ nl
        @ nl)"

definition bytes_text :: "bytes \<Rightarrow> string" where
  "bytes_text d = map (\<lambda>b. char_of (unat b)) d"

text \<open>The response up to a blank line; \<open>None\<close> where the client gives up.\<close>

function read_response :: "'w net_os \<Rightarrow> int \<Rightarrow> string \<Rightarrow> 'w \<Rightarrow> string option \<times> 'w" where
  "read_response os fd resp w =
    (if find_str CRLF2 resp 0 = None then
       (case os_recv os fd 1024 w of
          (None, w) \<Rightarrow> (None, w)
        | (Some d, w) \<Rightarrow>
            if d = [] then (None, w)
            else if length (resp @ bytes_text d) > 8192 then (None, w)
            else read_response os fd (resp @ bytes_text d) w)
     else (Some resp, w))"
  by pat_completeness auto
termination
  by (relation "measure (\<lambda>(os, fd, resp, w). 8193 - length resp)")
    (auto simp: bytes_text_def simp flip: length_greater_0_conv intro!: diff_less_mono2)

declare read_response.simps [simp del]

definition ws_connect :: "'w net_os \<Rightarrow> ws_client \<Rightarrow> string \<Rightarrow> 'w \<Rightarrow> bool \<times> ws_client \<times> 'w" where
  "ws_connect os c url w =
    (let (c, w) = ws_close os c w; c = c\<lparr>ws_readerStop := False\<rparr>
     in case parseWsUrl url of
          None \<Rightarrow> (False, c, w)
        | Some parts \<Rightarrow>
            (case os_getaddrinfo os (up_host parts) (to_string (uint (up_port parts))) w of
               (None, w) \<Rightarrow> (False, c, w)
             | (Some a, w) \<Rightarrow>
                 (let (fd, w) = os_socket os SockStream w
                  in if fd = kInvalidFd then (False, c, w)
                     else
                       (let (rc, w) = os_connect os fd a w
                        in if rc \<noteq> 0 then (False, c, os_close os fd w)
                           else
                             (let (key, w) = randomWsKey os w;
                                  (ok, w) = sendAll os fd (text_bytes (ws_request parts key)) 0 w
                              in if \<not> ok then (False, c, os_close os fd w)
                                 else
                                   (case read_response os fd [] w of
                                      (None, w) \<Rightarrow> (False, c, os_close os fd w)
                                    | (Some resp, w) \<Rightarrow>
                                        if find_str ''101'' resp 0 = None then (False, c, os_close os fd w)
                                        else (True, c\<lparr>ws_fd := fd, ws_url := url, ws_connected := True,
                                                      ws_reader := True\<rparr>, w)))))))"

section \<open>Frames\<close>

text \<open>The frame format of RFC 6455 with the three length fields, final and unfragmented.\<close>

definition len_field :: "bool \<Rightarrow> nat \<Rightarrow> bytes" where
  "len_field masked n =
    (let mb = (if masked then 0x80 else 0)
     in if n < 126 then [mb OR of_nat n]
        else if n \<le> 0xffff then [mb OR 126, of_nat (n div 256), of_nat n]
        else [mb OR 127] @ map (\<lambda>i. ucast (drop_bit (8 * (7 - i)) (of_nat n :: u64))) [0..<8])"

definition rfc_frame :: "bytes option \<Rightarrow> u8 \<Rightarrow> bytes \<Rightarrow> bytes" where
  "rfc_frame m opcode data =
    (0x80 OR (opcode AND 0x0f)) # len_field (m \<noteq> None) (length data)
      @ (case m of None \<Rightarrow> data | Some mk \<Rightarrow> mk @ mask_bytes mk data)"

lemma length_mask_bytes [simp]: "length (mask_bytes mk d) = length d"
  by (simp add: mask_bytes_def)

lemma mask_bytes_invol [simp]: "mask_bytes mk (mask_bytes mk d) = d"
  by (rule nth_equalityI) (simp_all add: mask_bytes_def xor.assoc)

lemma low7_id: "n < 128 \<Longrightarrow> (of_nat n :: u8) AND 0x7f = of_nat n"
proof -
  assume n: "n < 128"
  then have "take_bit 7 (of_nat n :: u8) = of_nat n"
    by (simp add: word_unat_eq_iff unsigned_take_bit_eq take_bit_nat_eq_self unat_of_nat)
  then show ?thesis unfolding mask_consts by (simp add: take_bit_eq_mask)
qed

lemma high_bit_clear: "n < 128 \<Longrightarrow> (of_nat n :: u8) AND 0x80 = 0"
proof -
  assume n: "n < 128"
  have "(of_nat n :: u8) AND 0x80 = (of_nat n AND 0x7f) AND 0x80" by (simp add: low7_id [OF n])
  also have "\<dots> = of_nat n AND (0x7f AND 0x80)" by (simp only: and.assoc)
  finally show ?thesis by simp
qed

lemma mask_bit_fields:
  assumes "n < 128"
  shows "((if m then 0x80 else 0) OR of_nat n :: u8) AND 0x7f = of_nat n"
    "((if m then 0x80 else 0) OR of_nat n :: u8) AND 0x80 \<noteq> 0 \<longleftrightarrow> m"
  using low7_id [OF assms] high_bit_clear [OF assms] by (simp_all add: bit.conj_disj_distrib2)

lemma opcode_field: "(0x80 OR (opcode AND 0x0f) :: u8) AND 0x0f = opcode AND 0x0f"
  by (simp add: bit.conj_disj_distrib2 and.assoc)

lemma frame_header_rfc:
  "frame_header opcode n =
    (if n \<le> 0xffff then Some ((0x80 OR (opcode AND 0x0f)) # len_field True n) else None)"
proof -
  have "x AND 255 = take_bit 8 x" for x :: nat
    using take_bit_eq_mask [of 8 x] by (simp add: mask_eq_exp_minus_1)
  then have "of_nat (x AND 255) = (of_nat x :: u8)" for x :: nat
    by (simp add: word_of_nat_eq_iff)
  moreover have "drop_bit 8 n = n div 256" by (simp add: drop_bit_eq_div)
  ultimately show ?thesis by (simp add: frame_header_def len_field_def Let_def)
qed

lemma be64: "foldl (\<lambda>l i. push_bit 8 l OR ucast (map (\<lambda>i. ucast (drop_bit (8 * (7 - i)) (n :: u64)) :: u8) [0..<8] ! i)) 0 [0..<8] = n"
proof -
  have "foldl (\<lambda>l i. push_bit 8 l OR ucast (map (\<lambda>i. ucast (drop_bit (8 * (7 - i)) (n :: u64)) :: u8) [0..<8] ! i)) 0 [0..<k] = drop_bit (8 * (8 - k)) n"
    if "k \<le> 8" for k using that
  proof (induction k)
    case 0
    show ?case by (simp add: bit_word_eqI bit_simps) 
  next
    case (Suc k)
    then have "8 * (8 - k) = 8 * (7 - k) + 8" by simp
    with Suc show ?case
      by (auto intro!: bit_word_eqI simp: bit_simps)
  qed
  from this [of 8] show ?thesis by simp
qed


lemma be16: "n \<le> 0xffff \<Longrightarrow>
    push_bit 8 (ucast (of_nat (n div 256) :: u8)) OR ucast (of_nat n :: u8) = (of_nat n :: u64)"
proof -
  assume n: "n \<le> 0xffff"
  have u: "unat (of_nat n :: u64) = n" using n by (simp add: unat_of_nat)
  have hi: "of_nat (n div 256) = (ucast (drop_bit 8 (of_nat n :: u64)) :: u8)"
    unfolding word_unat_eq_iff unsigned_ucast_eq unsigned_drop_bit_eq u
    using n by (simp add: unat_of_nat drop_bit_eq_div take_bit_eq_mod)
  have lo: "of_nat n = (ucast (of_nat n :: u64) :: u8)"
    by (simp add: word_unat_eq_iff unsigned_ucast_eq unat_of_nat take_bit_eq_mod mod_mod_cancel)
  have top: "bit n k \<Longrightarrow> k < 16" for k
  proof (rule ccontr)
    assume b: "bit n k" and "\<not> k < 16"
    then have "n < 2 ^ k" using n power_increasing [of 16 k "2 :: nat"] by simp
    with b show False by (simp add: bit_iff_odd)
  qed
  show ?thesis unfolding hi lo
    by (rule bit_word_eqI) (use top in \<open>auto simp: bit_simps; fastforce\<close>)
qed

section \<open>Reading against any fragmentation\<close>

definition reader_runs :: "'w net_os \<Rightarrow> ws_client \<Rightarrow> bool" where
  "reader_runs os c \<longleftrightarrow> \<not> ws_readerStop c \<and> (\<forall>w. \<not> os_stop os w)"

lemma readExact_ok:
  assumes "tcp_laws os sent coming" "reader_runs os c" "length acc + length d = len" "coming w (ws_fd c) = d @ rest"
  shows "\<exists>w'. readExact os c len acc w = (Some (acc @ d), w') \<and> sent w' = sent w
    \<and> coming w' = (coming w)(ws_fd c := rest)"
  using assms(3,4)
proof (induction "length d" arbitrary: d acc w rule: less_induct)
  case less
  note run = assms(2) [unfolded reader_runs_def]
  show ?case
  proof (cases d)
    case Nil
    then show ?thesis using less.prems by (subst readExact.simps) (auto simp: fun_eq_iff)
  next
    case (Cons x xs)
    obtain r w1 where r: "os_recv os (ws_fd c) (len - length acc) w = (r, w1)" by fastforce
    obtain e where e: "r = Some e" "e \<noteq> []" "length e \<le> length d" "d @ rest = e @ coming w1 (ws_fd c)"
        "sent w1 = sent w" "coming w1 = (coming w)(ws_fd c := coming w1 (ws_fd c))"
      using tcp_law_recv [OF assms(1) r] less.prems Cons by auto
    then obtain d' where d': "d = e @ d'" "coming w1 (ws_fd c) = d' @ rest"
      by (auto simp: append_eq_append_conv2)
    have step: "readExact os c len acc w = readExact os c len (acc @ e) w1"
      by (subst readExact.simps) (use r e(1,2) less.prems Cons run in \<open>auto simp: reader_stopped_def\<close>)
    obtain w' where "readExact os c len (acc @ e) w1 = (Some ((acc @ e) @ d'), w')" "sent w' = sent w1"
      "coming w' = (coming w1)(ws_fd c := rest)"
      using less.hyps [of d' "acc @ e" w1] less.prems d' e(2) by auto
    then show ?thesis using step d'(1) e(5,6) by (metis append.assoc fun_upd_upd)
  qed
qed


lemma read_length_ok:
  assumes "tcp_laws os sent coming" "reader_runs os c" "n \<le> 2 ^ 20"
    and "coming w (ws_fd c) = tl (len_field m n) @ rest"
  shows "\<exists>w'. read_payload_length os c (hd (len_field m n)) w = (Some (of_nat n), w') \<and> sent w' = sent w
    \<and> coming w' = (coming w)(ws_fd c := rest)"
proof -
  note ok = readExact_ok [where acc = "[]", OF assms(1,2)]
  consider "n < 126" | "126 \<le> n" "n \<le> 0xffff" | "0xffff < n" by linarith
  then show ?thesis
  proof cases
    case 1
    have "ucast (of_nat n :: u8) = (of_nat n :: u64)"
      using 1 by (simp add: word_unat_eq_iff unsigned_ucast_eq unat_of_nat take_bit_eq_mod)
    moreover have "(of_nat n :: u64) \<noteq> 126" "(of_nat n :: u64) \<noteq> 127"
      using 1 by (simp_all add: word_unat_eq_iff unat_of_nat)
    moreover have "((if m then 0x80 else 0) OR of_nat n :: u8) AND 0x7f = of_nat n"
      using mask_bit_fields(1) [of n m] 1 by simp
    ultimately show ?thesis using 1 assms(4)
      by (auto simp: read_payload_length_def len_field_def Let_def fun_eq_iff)
  next
    case 2
    obtain w' where w': "readExact os c 2 [] w = (Some [of_nat (n div 256), of_nat n], w')"
      "sent w' = sent w" "coming w' = (coming w)(ws_fd c := rest)"
      using ok [of "[of_nat (n div 256), of_nat n]" 2 w rest] 2 assms(4) by (auto simp: len_field_def Let_def)
    have "((if m then 0x80 else 0) OR 126 :: u8) AND 0x7f = 126" using mask_bit_fields(1) [of 126 m] by simp
    then show ?thesis using 2 w' be16 [of n] by (simp add: read_payload_length_def len_field_def Let_def)
  next
    case 3
    let ?ext = "map (\<lambda>i. ucast (drop_bit (8 * (7 - i)) (of_nat n :: u64)) :: u8) [0..<8]"
    obtain w' where w': "readExact os c 8 [] w = (Some ?ext, w')"
      "sent w' = sent w" "coming w' = (coming w)(ws_fd c := rest)"
      using ok [of ?ext 8 w rest] 3 assms(4) by (auto simp: len_field_def Let_def)
    have "((if m then 0x80 else 0) OR 127 :: u8) AND 0x7f = 127" using mask_bit_fields(1) [of 127 m] by simp
    then show ?thesis using 3 w' be64 [of "of_nat n"]
      by (simp add: read_payload_length_def len_field_def Let_def del: upt_Suc foldl_append)
  qed
qed

lemma len_field_head: "(hd (len_field m n) AND 0x80 \<noteq> 0) \<longleftrightarrow> m" "len_field m n \<noteq> []"
  using mask_bit_fields(2) [of n m] mask_bit_fields(2) [of 126 m] mask_bit_fields(2) [of 127 m]
  by (auto simp: len_field_def Let_def)

lemma ws_read_frame_ok:
  assumes "tcp_laws os sent coming" "reader_runs os c" "length data \<le> 2 ^ 20"
    and "\<forall>mk. m = Some mk \<longrightarrow> length mk = 4" "coming w (ws_fd c) = rfc_frame m op data @ rest"
  shows "\<exists>w'. ws_read_frame os c w = (Some (op AND 0x0f, data), w') \<and> sent w' = sent w
    \<and> coming w' = (coming w)(ws_fd c := rest)"
proof -
  note ok = readExact_ok [where acc = "[]", OF assms(1,2)]
  let ?masked = "m \<noteq> None" and ?n = "length data"
  let ?l = "len_field ?masked ?n"
  let ?body = "case m of None \<Rightarrow> data | Some mk \<Rightarrow> mk @ mask_bytes mk data"
  let ?b0 = "0x80 OR (op AND 0x0f) :: u8"
  have l: "?l = hd ?l # tl ?l" using len_field_head(2) by (metis list.collapse)
  have frame: "rfc_frame m op data @ rest = [?b0, hd ?l] @ tl ?l @ ?body @ rest"
    unfolding rfc_frame_def by (subst l) (simp split: option.split)
  obtain w1 where w1: "readExact os c 2 [] w = (Some [?b0, hd ?l], w1)" "sent w1 = sent w"
      "coming w1 = (coming w)(ws_fd c := tl ?l @ ?body @ rest)"
    using ok [of "[?b0, hd ?l]" 2 w "tl ?l @ ?body @ rest"] assms(5) unfolding frame by auto
  obtain w2 where w2: "read_payload_length os c (hd ?l) w1 = (Some (of_nat ?n), w2)" "sent w2 = sent w1"
      "coming w2 = (coming w1)(ws_fd c := ?body @ rest)"
    using read_length_ok [OF assms(1,2,3), of w1 ?masked "?body @ rest"] w1(3) by auto
  have n: "\<not> (of_nat ?n :: u64) > push_bit 20 1" "unat (of_nat ?n :: u64) = ?n"
    "(0 < (of_nat ?n :: u64)) = (data \<noteq> [])"
    using assms(3) by (auto simp: word_less_nat_alt unat_of_nat push_bit_eq_mult)
  obtain mk where mk: "length mk = 4" "m = None \<or> m = Some mk"
    using assms(4) that [of "[0, 0, 0, 0]"] that by (cases m) auto
  let ?cipher = "if m = None then data else mask_bytes mk data"
  obtain w3 where w3: "(if ?masked then readExact os c 4 [] w2 else (Some [0, 0, 0, 0], w2))
      = (Some (if ?masked then mk else [0, 0, 0, 0]), w3)" "sent w3 = sent w2"
      "coming w3 = (coming w2)(ws_fd c := ?cipher @ rest)"
    using ok [of mk 4 w2 "mask_bytes mk data @ rest"] w2(3) mk by (cases m) (auto simp: fun_eq_iff)
  have lc: "length ?cipher = ?n" by simp
  have "\<exists>w4. (if data \<noteq> [] then readExact os c ?n [] w3 else (Some [], w3)) = (Some ?cipher, w4)
      \<and> sent w4 = sent w3 \<and> coming w4 = (coming w3)(ws_fd c := rest)"
  proof (cases "data = []")
    case False
    have "coming w3 (ws_fd c) = ?cipher @ rest" unfolding w3(3) by simp
    with ok [of ?cipher ?n w3 rest] lc False show ?thesis by (simp split del: if_split)
  qed (use w3(3) in \<open>simp add: mask_bytes_def fun_eq_iff\<close>)
  then obtain w4 where w4: "(if data \<noteq> [] then readExact os c ?n [] w3 else (Some [], w3)) = (Some ?cipher, w4)"
      "sent w4 = sent w3" "coming w4 = (coming w3)(ws_fd c := rest)"
    by blast
  have "ws_read_frame os c w = (Some (op AND 0x0f, data), w4)"
    unfolding ws_read_frame_def w1(1) using w2(1) w3(1) w4(1) mk n len_field_head(1) [of ?masked ?n]
    by (simp add: opcode_field split del: if_split) (simp split: if_splits)
  then show ?thesis using w1(2,3) w2(2,3) w3(2,3) w4(2,3) by simp
qed

section \<open>Writing\<close>

lemma sendAll_prefix:
  assumes "tcp_laws os sent coming" "sendAll os fd data off w = (ok, w')"
  shows "\<exists>k \<le> length data - off. sent w' = (sent w)(fd := sent w fd @ take k (drop off data))
    \<and> coming w' = coming w \<and> (ok \<longrightarrow> k = length data - off)"
  using assms(2)
proof (induction "length data - off" arbitrary: off w rule: less_induct)
  case less
  show ?case
  proof (cases "off < length data")
    case False
    with less.prems show ?thesis by (intro exI [of _ 0]) (simp add: sendAll.simps [of os fd data off w])
  next
    case True
    obtain n w1 where n: "os_send os fd (drop off data) w = (n, w1)" by fastforce
    note l = tcp_law_send [OF assms(1) n]
    show ?thesis
    proof (cases "n \<le> 0")
      case True
      with less.prems n l \<open>off < length data\<close> show ?thesis
        by (intro exI [of _ 0]) (simp add: sendAll.simps [of os fd data off w])
    next
      case False
      then have "sendAll os fd data (off + nat n) w1 = (ok, w')"
        using less.prems n \<open>off < length data\<close> by (simp add: sendAll.simps [of os fd data off w])
      moreover have "length data - (off + nat n) < length data - off" using False \<open>off < length data\<close> by simp
      ultimately obtain k where k: "k \<le> length data - (off + nat n)"
        "sent w' = (sent w1)(fd := sent w1 fd @ take k (drop (off + nat n) data))" "coming w' = coming w1"
        "ok \<longrightarrow> k = length data - (off + nat n)"
        using less.hyps by blast
      have n': "nat n \<le> length data - off" using l(1) by simp
      have "take (nat n) (drop off data) @ take k (drop (off + nat n) data) = take (nat n + k) (drop off data)"
        using take_add [of "nat n" k "drop off data"] by (simp add: add.commute [of "nat n" off])
      then show ?thesis using k l n' by (intro exI [of _ "nat n + k"]) auto
    qed
  qed
qed

lemma random_mask_ok:
  assumes "tcp_laws os sent coming" "random_mask os w = (mk, w')"
  shows "length mk = 4" "sent w' = sent w" "coming w' = coming w"
  using assms(2) by (auto simp: random_mask_def dest!: tcp_law_random [OF assms(1)] split: prod.splits)

lemma ws_closeFd_facts:
  assumes "ws_closeFdUnlocked os c w = (c', w')"
  shows "c' = c\<lparr>ws_fd := kInvalidFd, ws_connected := False\<rparr>"
    "tcp_laws os sent coming \<Longrightarrow> sent w' = sent w"
    "fd_laws os opened \<Longrightarrow> opened w' = opened w - (if ws_fd c = kInvalidFd then {} else {ws_fd c})"
  using assms by (auto simp: ws_closeFdUnlocked_def tcp_law_close fd_law_close split: if_splits)

text \<open>A frame goes out whole, or not at all, or the connection is closed after a part of it.\<close>

lemma sendFrame_elim:
  assumes "tcp_laws os sent coming" "sendFrameUnlocked os c op data w = (ok, c', w')"
  obtains (sent) mk where "ok" "c' = c" "ws_connected c" "ws_fd c \<noteq> kInvalidFd" "length data \<le> 0xffff" "length mk = 4"
      "sent w' = (sent w)(ws_fd c := sent w (ws_fd c) @ rfc_frame (Some mk) op data)" "coming w' = coming w"
    | (refused) "\<not> ok" "c' = c" "w' = w" "\<not> ws_connected c \<or> ws_fd c = kInvalidFd \<or> 0xffff < length data"
    | (broken) part where "\<not> ok" "ws_connected c" "ws_fd c \<noteq> kInvalidFd"
      "c' = c\<lparr>ws_fd := kInvalidFd, ws_connected := False\<rparr>"
      "sent w' = (sent w)(ws_fd c := sent w (ws_fd c) @ part)"
proof (cases "\<not> ws_connected c \<or> ws_fd c = kInvalidFd \<or> 0xffff < length data")
  case True
  then show ?thesis using assms(2) refused by (auto simp: sendFrameUnlocked_def frame_header_rfc split: if_splits)
next
  case False
  obtain mk w1 where m: "random_mask os w = (mk, w1)" by fastforce
  let ?frame = "rfc_frame (Some mk) op data"
  obtain b w2 where s: "sendAll os (ws_fd c) ?frame 0 w1 = (b, w2)" by fastforce
  note m' = random_mask_ok [OF assms(1) m]
  obtain k where k: "sent w2 = (sent w)(ws_fd c := sent w (ws_fd c) @ take k ?frame)" "coming w2 = coming w"
      "b \<longrightarrow> k = length ?frame" using sendAll_prefix [OF assms(1) s] m' by auto
  have h: "frame_header op (length data) = Some ((0x80 OR (op AND 0x0f)) # len_field True (length data))"
    using False by (simp add: frame_header_rfc)
  have f: "((0x80 OR (op AND 0x0f)) # len_field True (length data)) @ mk @ mask_bytes mk data = ?frame"
    by (simp add: rfc_frame_def)
  have eq: "(ok, c', w') = (if b then (True, c, w2) else (False, ws_closeFdUnlocked os c w2))"
    using assms(2) False unfolding sendFrameUnlocked_def h option.case m Let_def prod.case f s by (auto split: if_splits prod.splits)
  show ?thesis
  proof (cases b)
    case True
    with eq k m' False sent [of mk] show ?thesis by simp
  next
    case b: False
    then have "\<not> ok" and c: "ws_closeFdUnlocked os c w2 = (c', w')" using eq by simp_all
    moreover note ws_closeFd_facts(1) [OF c]
    moreover have "sent w' = (sent w)(ws_fd c := sent w (ws_fd c) @ take k ?frame)"
      using ws_closeFd_facts(2) [OF c assms(1)] k(1) by simp
    ultimately show ?thesis using False by (intro broken [of "take k ?frame"]) simp_all
  qed
qed


section \<open>The stream of frames the client writes\<close>

datatype ws_op = WsBinary bytes | WsText string | WsPong bytes | WsClose

type_synonym 'w ws_state = "ws_client \<times> 'w"

text \<open>One atomic operation of some thread, with the frame it reports as sent.\<close>

fun ws_do :: "'w net_os \<Rightarrow> 'w ws_state \<Rightarrow> ws_op \<Rightarrow> 'w ws_state \<times> (u8 \<times> bytes) list" where
  "ws_do os (c, w) (WsBinary d) = (case ws_sendBinary os c d w of (ok, st) \<Rightarrow> (st, if ok then [(0x2, d)] else []))"
| "ws_do os (c, w) (WsText t) = (case ws_sendText os c t w of (ok, st) \<Rightarrow> (st, if ok then [(0x1, text_bytes t)] else []))"
| "ws_do os (c, w) (WsPong d) =
    (if ws_connected c then (case sendFrameUnlocked os c 0xA d w of (ok, st) \<Rightarrow> (st, if ok then [(0xA, d)] else []))
     else ((c, w), []))"
| "ws_do os (c, w) WsClose = (ws_close os c w, [])"

fun ws_run :: "'w net_os \<Rightarrow> 'w ws_state \<Rightarrow> ws_op list \<Rightarrow> 'w ws_state \<times> (u8 \<times> bytes) list" where
  "ws_run os st [] = (st, [])"
| "ws_run os st (x # xs) =
    (let (st, a) = ws_do os st x; (st, b) = ws_run os st xs in (st, a @ b))"

definition client_frame :: "bytes \<Rightarrow> u8 \<times> bytes \<Rightarrow> bool" where
  "client_frame f x \<longleftrightarrow> length (snd x) \<le> 0xffff \<and> (\<exists>mk. length mk = 4 \<and> f = rfc_frame (Some mk) (fst x) (snd x))"

text \<open>The bytes written on \<open>fd\<close> since \<open>base\<close>: whole frames, and a part of one only once closed.\<close>

definition whole_frames :: "('w \<Rightarrow> int \<Rightarrow> bytes) \<Rightarrow> int \<Rightarrow> bytes \<Rightarrow> (u8 \<times> bytes) list \<Rightarrow> 'w ws_state \<Rightarrow> bool" where
  "whole_frames sent fd base acc st \<longleftrightarrow> (case st of (c, w) \<Rightarrow>
    (ws_connected c \<longrightarrow> ws_fd c = fd) \<and>
    (\<exists>frames part. sent w fd = base @ concat frames @ part \<and> list_all2 client_frame frames acc
       \<and> (ws_connected c \<longrightarrow> part = [])))"

lemma whole_framesI:
  "(ws_connected c \<Longrightarrow> ws_fd c = fd) \<Longrightarrow> sent w fd = base @ concat frames @ part \<Longrightarrow>
    list_all2 client_frame frames acc \<Longrightarrow> (ws_connected c \<Longrightarrow> part = []) \<Longrightarrow> whole_frames sent fd base acc (c, w)"
  by (auto simp: whole_frames_def)

lemma sendFrame_whole:
  assumes "tcp_laws os sent coming" "whole_frames sent fd base acc (c, w)" "sendFrameUnlocked os c op d w = (ok, c', w')"
  shows "whole_frames sent fd base (acc @ (if ok then [(op, d)] else [])) (c', w')"
  using assms(1,3)
proof (cases rule: sendFrame_elim)
  case (sent mk)
  from assms(2) sent obtain frames where f: "ws_fd c = fd" "sent w fd = base @ concat frames"
    "list_all2 client_frame frames acc" by (auto simp: whole_frames_def)
  have "client_frame (rfc_frame (Some mk) op d) (op, d)" using sent by (auto simp: client_frame_def)
  with f(3) have "list_all2 client_frame (frames @ [rfc_frame (Some mk) op d]) (acc @ [(op, d)])"
    by (simp add: list_all2_appendI)
  then show ?thesis using f sent by (intro whole_framesI [where part = "[]"]) auto
next
  case refused
  then show ?thesis using assms(2) by simp
next
  case (broken part)
  from assms(2) broken obtain frames where f: "ws_fd c = fd" "sent w fd = base @ concat frames"
    "list_all2 client_frame frames acc" by (auto simp: whole_frames_def)
  then show ?thesis using broken by (intro whole_framesI [where part = part]) auto
qed

lemma sendFrame_whole_state:
  "tcp_laws os sent coming \<Longrightarrow> whole_frames sent fd base acc (c, w) \<Longrightarrow> sendFrameUnlocked os c op d w = (ok, st) \<Longrightarrow>
    whole_frames sent fd base (acc @ (if ok then [(op, d)] else [])) st"
  by (cases st, hypsubst, rule sendFrame_whole)

lemma ws_close_facts:
  assumes "ws_close os c w = (c', w')"
  shows "ws_fd c' = kInvalidFd" "\<not> ws_connected c'" "\<not> ws_reader c'" "ws_url c' = ws_url c"
    "tcp_laws os sent coming \<Longrightarrow> sent w' = sent w"
    "fd_laws os opened \<Longrightarrow> opened w' = opened w - (if ws_fd c = kInvalidFd then {} else {ws_fd c})"
proof -
  obtain c1 w1 where c: "ws_closeFdUnlocked os (c\<lparr>ws_readerStop := True\<rparr>) w = (c1, w1)" by fastforce
  then have w: "c' = c1\<lparr>ws_reader := False\<rparr>" "w' = w1" using assms by (simp_all add: ws_close_def)
  show "ws_fd c' = kInvalidFd" "\<not> ws_connected c'" "\<not> ws_reader c'" "ws_url c' = ws_url c"
    unfolding w ws_closeFd_facts(1) [OF c] by simp_all
  show "tcp_laws os sent coming \<Longrightarrow> sent w' = sent w" unfolding w by (rule ws_closeFd_facts(2) [OF c])
  show "fd_laws os opened \<Longrightarrow> opened w' = opened w - (if ws_fd c = kInvalidFd then {} else {ws_fd c})"
    using ws_closeFd_facts(3) [OF c, of opened] unfolding w by simp
qed

lemma ws_do_whole:
  assumes "tcp_laws os sent coming" "whole_frames sent fd base acc st" "ws_do os st x = (st', a)"
  shows "whole_frames sent fd base (acc @ a) st'"
proof -
  obtain c w where st: "st = (c, w)" by fastforce
  note o = assms(2) [unfolded st]
  show ?thesis
  proof (cases x)
    case WsClose
    obtain c' w' where c: "ws_close os c w = (c', w')" by fastforce
    note f = ws_close_facts(2) [OF c] ws_close_facts(5) [OF c assms(1)]
    from o obtain frames part where "sent w fd = base @ concat frames @ part" "list_all2 client_frame frames acc"
      by (auto simp: whole_frames_def)
    then have "whole_frames sent fd base acc (c', w')" using f by (intro whole_framesI [where part = part]) simp_all
    then show ?thesis using assms(3) c WsClose st by simp
  next
    case (WsBinary d)
    obtain ok st1 where f: "sendFrameUnlocked os c 2 d w = (ok, st1)" by (meson surj_pair)
    then show ?thesis using sendFrame_whole_state [OF assms(1) o f] assms(3) WsBinary st
      by (simp add: ws_sendBinary_def split del: if_split)
  next
    case (WsText t)
    obtain ok st1 where f: "sendFrameUnlocked os c 1 (text_bytes t) w = (ok, st1)" by (meson surj_pair)
    then show ?thesis using sendFrame_whole_state [OF assms(1) o f] assms(3) WsText st
      by (simp add: ws_sendText_def split del: if_split)
  next
    case (WsPong d)
    obtain ok st1 where f: "sendFrameUnlocked os c 0xA d w = (ok, st1)" by (meson surj_pair)
    then show ?thesis using sendFrame_whole_state [OF assms(1) o f] assms(3) WsPong st o
      by (cases "ws_connected c") (simp_all split del: if_split)
  qed
qed

lemma ws_run_whole:
  assumes "tcp_laws os sent coming" "whole_frames sent fd base acc st" "ws_run os st xs = (st', a)"
  shows "whole_frames sent fd base (acc @ a) st'"
  using assms(2,3)
proof (induction xs arbitrary: st acc a st')
  case (Cons x xs)
  obtain st1 a1 where x: "ws_do os st x = (st1, a1)" by fastforce
  obtain st2 a2 where xs: "ws_run os st1 xs = (st2, a2)" by fastforce
  have "whole_frames sent fd base ((acc @ a1) @ a2) st2"
    by (rule Cons.IH [OF ws_do_whole [OF assms(1) Cons.prems(1) x] xs])
  then show ?case using Cons.prems(2) x xs by simp
qed simp

section \<open>The reader\<close>

text \<open>A frame as the peer sends it: masked or not, opcode, payload.\<close>

type_synonym peer_frame = "bytes option \<times> u8 \<times> bytes"

definition peer_bytes :: "peer_frame \<Rightarrow> bytes" where
  "peer_bytes = (\<lambda>(m, op, d). rfc_frame m op d)"

definition peer_frame_ok :: "peer_frame \<Rightarrow> bool" where
  "peer_frame_ok = (\<lambda>(m, op, d). (\<forall>mk. m = Some mk \<longrightarrow> length mk = 4) \<and> length d \<le> 2 ^ 20 \<and> op AND 0x0f = op)"

text \<open>The pings that get an answer: those with a payload that a client frame can carry.\<close>

definition pings :: "peer_frame list \<Rightarrow> (u8 \<times> bytes) list" where
  "pings fs = map (\<lambda>(m, op, d). (0xA, d)) (filter (\<lambda>(m, op, d). op = 0x9 \<and> length d \<le> 0xffff) fs)"

definition sends_work :: "'w net_os \<Rightarrow> bool" where
  "sends_work os \<longleftrightarrow> (\<forall>fd d w. d \<noteq> [] \<longrightarrow> fst (os_send os fd d w) > 0)"

lemma sendAll_works:
  assumes "sends_work os"
  shows "fst (sendAll os fd data off w)"
proof (induction "length data - off" arbitrary: off w rule: less_induct)
  case less
  show ?case
  proof (cases "off < length data")
    case True
    obtain n w1 where n: "os_send os fd (drop off data) w = (n, w1)" by fastforce
    have "0 < n" using assms [unfolded sends_work_def, rule_format, of "drop off data" fd w] True n by simp
    then show ?thesis using less [of "off + nat n" w1] True n
      by (subst sendAll.simps) simp
  qed (subst sendAll.simps, simp)
qed

lemma sendFrame_works:
  assumes "sends_work os" "ws_connected c" "ws_fd c \<noteq> kInvalidFd" "length d \<le> 0xffff"
  shows "fst (sendFrameUnlocked os c op d w)"
  using assms sendAll_works [OF assms(1)] by (auto simp: sendFrameUnlocked_def frame_header_rfc split: prod.splits) (metis fst_conv)


lemma readExact_end:
  assumes "tcp_laws os sent coming" "coming w (ws_fd c) = []" "0 < len"
  shows "\<exists>w'. readExact os c len [] w = (None, w') \<and> sent w' = sent w"
proof -
  obtain r w1 where r: "os_recv os (ws_fd c) len w = (r, w1)" by fastforce
  from tcp_law_recv_end [OF assms(1) r assms(2)]
  show ?thesis using assms(3) r by (subst readExact.simps) auto
qed

lemma ws_read_frame_end:
  assumes "tcp_laws os sent coming" "coming w (ws_fd c) = []"
  shows "\<exists>w'. ws_read_frame os c w = (None, w') \<and> sent w' = sent w"
  using readExact_end [where len = 2, OF assms] by (auto simp: ws_read_frame_def)

lemma readerLoop_end:
  assumes "tcp_laws os sent coming" "\<not> reader_stopped os c w"
    and "ws_read_frame os c w = (r, w1)" "r = None \<or> (\<exists>d. r = Some (0x8, d))" "sent w1 = sent w"
  shows "\<exists>w'. readerLoop os c w = Some (c\<lparr>ws_fd := kInvalidFd, ws_connected := False\<rparr>, w') \<and> sent w' = sent w"
proof -
  obtain c' w' where c: "ws_closeFdUnlocked os c w1 = (c', w')" by fastforce
  have "readerLoop os c w = Some (c', w')"
    by (subst readerLoop.simps) (use assms(2,3,4) c in auto)
  then show ?thesis using ws_closeFd_facts(1) [OF c] ws_closeFd_facts(2) [OF c assms(1)] assms(5) by simp
qed

lemma readerLoop_frame:
  assumes "reader_runs os c" "ws_read_frame os c w = (Some (op, d), w1)" "op \<noteq> 0x8"
  shows "readerLoop os c w =
    (let (c, w) = (if op = 0x9 \<and> ws_connected c then snd (sendFrameUnlocked os c 0xA d w1) else (c, w1))
     in readerLoop os c w)"
  using assms by (subst readerLoop.simps) (simp add: reader_runs_def reader_stopped_def)

lemma readerLoop_pongs:
  assumes laws: "tcp_laws os sent coming" "reader_runs os c" "sends_work os"
    and c: "ws_connected c" "ws_fd c \<noteq> kInvalidFd"
    and "\<forall>(m, op, d)\<in>set fs. peer_frame_ok (m, op, d) \<and> op \<noteq> 0x8"
    and tail: "tail = [] \<or> (\<exists>m d rest. peer_frame_ok (m, 0x8, d) \<and> tail = peer_bytes (m, 0x8, d) @ rest)"
    and "coming w (ws_fd c) = concat (map peer_bytes fs) @ tail"
  shows "\<exists>w' frames. readerLoop os c w = Some (c\<lparr>ws_fd := kInvalidFd, ws_connected := False\<rparr>, w')
    \<and> sent w' (ws_fd c) = sent w (ws_fd c) @ concat frames \<and> list_all2 client_frame frames (pings fs)"
  using assms(6,8)
proof (induction fs arbitrary: w)
  case Nil
  have run: "\<not> reader_stopped os c w" using laws(2) by (simp add: reader_runs_def reader_stopped_def)
  have "\<exists>r w1. ws_read_frame os c w = (r, w1) \<and> (r = None \<or> (\<exists>d. r = Some (0x8, d))) \<and> sent w1 = sent w"
    using tail
  proof
    assume "tail = []"
    then show ?thesis using ws_read_frame_end [OF laws(1), of w c] Nil.prems by auto
  next
    assume "\<exists>m d rest. peer_frame_ok (m, 0x8, d) \<and> tail = peer_bytes (m, 0x8, d) @ rest"
    then obtain m d rest where "peer_frame_ok (m, 0x8, d)" "tail = peer_bytes (m, 0x8, d) @ rest" by blast
    then show ?thesis
      using ws_read_frame_ok [OF laws(1,2), of d m w "0x8" rest] Nil.prems by (auto simp: peer_frame_ok_def peer_bytes_def)
  qed
  then show ?case using readerLoop_end [OF laws(1) run] by (fastforce simp: pings_def intro: exI [of _ "[]"])
next
  case (Cons f fs)
  obtain m op d where f: "f = (m, op, d)" by (cases f)
  have ok: "peer_frame_ok (m, op, d)" "op \<noteq> 0x8" using Cons.prems(1) f by simp_all
  have "coming w (ws_fd c) = rfc_frame m op d @ concat (map peer_bytes fs) @ tail"
    using Cons.prems(2) f by (simp add: peer_bytes_def)
  then obtain w1 where w1: "ws_read_frame os c w = (Some (op, d), w1)" "sent w1 = sent w"
      "coming w1 (ws_fd c) = concat (map peer_bytes fs) @ tail"
    using ws_read_frame_ok [OF laws(1,2), of d m w op] ok by (auto simp: peer_frame_ok_def)
  note loop = readerLoop_frame [OF laws(2) w1(1) ok(2)]
  have fs: "\<forall>(m, op, d)\<in>set fs. peer_frame_ok (m, op, d) \<and> op \<noteq> 0x8" using Cons.prems(1) by simp
  show ?case
  proof (cases "op = 0x9")
    case False
    then have "pings (f # fs) = pings fs" by (simp add: pings_def f)
    then show ?thesis using Cons.IH [OF fs w1(3)] loop False w1(2) by simp
  next
    case ping: True
    obtain b c2 w2 where s: "sendFrameUnlocked os c 0xA d w1 = (b, c2, w2)" by (metis surj_pair)
    show ?thesis using laws(1) s
    proof (cases rule: sendFrame_elim)
      case (sent mk)
      have "coming w2 (ws_fd c) = concat (map peer_bytes fs) @ tail" using sent w1(3) by simp
      from Cons.IH [OF fs this] obtain w' frames where IH:
        "readerLoop os c w2 = Some (c\<lparr>ws_fd := kInvalidFd, ws_connected := False\<rparr>, w')"
        "sent w' (ws_fd c) = sent w2 (ws_fd c) @ concat frames" "list_all2 client_frame frames (pings fs)" by blast
      have "pings (f # fs) = (0xA, d) # pings fs" using ping sent by (simp add: pings_def f)
      moreover have "client_frame (rfc_frame (Some mk) 0xA d) (0xA, d)" using sent by (auto simp: client_frame_def)
      ultimately show ?thesis using IH loop ping c s sent w1(2)
        by (intro exI [of _ w'] exI [of _ "rfc_frame (Some mk) 0xA d # frames"]) simp
    next
      case refused
      then have "pings (f # fs) = pings fs" using c by (simp add: pings_def f)
      then show ?thesis using Cons.IH [OF fs w1(3)] loop ping c s refused w1(2) by simp
    next
      case (broken part)
      have "length d \<le> 0xffff"
      proof (rule ccontr)
        assume "\<not> length d \<le> 0xffff"
        then have "c2 = c" using s c by (simp add: sendFrameUnlocked_def frame_header_rfc)
        then have "ws_connected c2" using c(1) by simp
        then show False unfolding broken(4) by simp
      qed
      then show ?thesis using sendFrame_works [OF laws(3) c(1,2), where d = d and op = "0xA" and w = w1] s broken by simp
    qed
  qed
qed

section \<open>The handshake key\<close>

text \<open>A base64 decoder (RFC 4648) to compare with.\<close>

definition b64_index :: "char \<Rightarrow> u32" where
  "b64_index c = of_nat (length (takeWhile (\<lambda>x. x \<noteq> c) b64))"

fun b64_decode :: "string \<Rightarrow> bytes" where
  "b64_decode (a # b # c # d # r) =
    (let n = push_bit 18 (b64_index a) OR push_bit 12 (b64_index b)
           OR (if c = CHR ''='' then 0 else push_bit 6 (b64_index c)) OR (if d = CHR ''='' then 0 else b64_index d)
     in ucast (drop_bit 16 n) # (if c = CHR ''='' then [] else [ucast (drop_bit 8 n)])
        @ (if d = CHR ''='' then [] else [ucast n]) @ b64_decode r)"
| "b64_decode _ = []"

lemma b64_facts: "length b64 = 64" "distinct b64" "CHR ''='' \<notin> set b64"
  by (simp_all add: b64_def)

lemma takeWhile_nth_distinct: "distinct xs \<Longrightarrow> i < length xs \<Longrightarrow> takeWhile (\<lambda>x. x \<noteq> xs ! i) xs = take i xs"
proof (induction xs arbitrary: i)
  case (Cons x xs)
  then show ?case by (cases i) (auto simp: nth_eq_iff_index_eq)
qed simp

lemma b64_char_facts:
  "b64_index (b64_char n s) = drop_bit s n AND 63" "b64_char n s \<noteq> CHR ''=''"
proof -
  have i: "unat (drop_bit s n AND 63) < length b64"
    using word_and_le1 [of "drop_bit s n" 63] by (simp add: b64_facts word_le_nat_alt)
  show "b64_char n s \<noteq> CHR ''=''" unfolding b64_char_def using b64_facts(3) nth_mem [OF i] by metis
  have "length (takeWhile (\<lambda>x. x \<noteq> b64_char n s) b64) = unat (drop_bit s n AND 63)"
    unfolding b64_char_def takeWhile_nth_distinct [OF b64_facts(2) i] using i by simp
  then show "b64_index (b64_char n s) = drop_bit s n AND 63" unfolding b64_index_def by simp
qed

lemma mask6: "(63 :: u32) = mask 6"
  by (simp add: mask_eq_exp_minus_1)

lemma u8_eqI:
  fixes a b :: u8
  assumes "bit a 0 = bit b 0" "bit a 1 = bit b 1" "bit a 2 = bit b 2" "bit a 3 = bit b 3"
    "bit a 4 = bit b 4" "bit a 5 = bit b 5" "bit a 6 = bit b 6" "bit a 7 = bit b 7"
  shows "a = b"
proof (rule bit_word_eqI)
  fix n assume "n < LENGTH(8)"
  then have "n \<in> {0, 1, 2, 3, 4, 5, 6, 7}" by auto
  then show "bit a n = bit b n" using assms by blast
qed

lemma u8_high_bits: "8 \<le> n \<Longrightarrow> \<not> bit (x :: u8) n"
  by (auto dest: bit_imp_le_length)

lemma b64_group:
  fixes a b c :: u8
  defines "n \<equiv> push_bit 16 (ucast a) OR push_bit 8 (ucast b) OR ucast c :: u32"
  shows "b64_decode (b64_char n 18 # b64_char n 12 # b64_char n 6 # b64_char n 0 # r) = a # b # c # b64_decode r"
proof -
  let ?m = "push_bit 18 (drop_bit 18 n AND 63) OR push_bit 12 (drop_bit 12 n AND 63)
    OR push_bit 6 (drop_bit 6 n AND 63) OR (drop_bit 0 n AND 63)"
  have "ucast (drop_bit 16 ?m) = a" "ucast (drop_bit 8 ?m) = b" "ucast ?m = c"
    unfolding n_def mask6 by (rule u8_eqI; simp add: bit_simps u8_high_bits)+
  then show ?thesis by (simp add: b64_char_facts)
qed

lemma b64_last:
  fixes a :: u8
  defines "n \<equiv> push_bit 16 (ucast a) :: u32"
  shows "b64_decode [b64_char n 18, b64_char n 12, CHR ''='', CHR ''=''] = [a]"
proof -
  let ?m = "push_bit 18 (drop_bit 18 n AND 63) OR push_bit 12 (drop_bit 12 n AND 63)"
  have "ucast (drop_bit 16 ?m) = a"
    unfolding n_def mask6 by (rule u8_eqI; simp add: bit_simps u8_high_bits)
  then show ?thesis by (simp add: b64_char_facts)
qed

lemma drop_three: "i + 2 < length xs \<Longrightarrow> drop i xs = xs ! i # xs ! (i + 1) # xs ! (i + 2) # drop (i + 3) xs"
  by (simp add: Cons_nth_drop_Suc numeral_eq_Suc)

lemma key_loop_ok:
  assumes "length raw = 16"
  shows "b64_decode (key_loop raw 0) = raw" "length (key_loop raw 0) = 24"
proof -
  have "i \<le> 5 \<Longrightarrow> b64_decode (key_loop raw (3 * i)) = drop (3 * i) raw
      \<and> length (key_loop raw (3 * i)) = 4 * (6 - i)" for i
  proof (induction "5 - i" arbitrary: i)
    case 0
    then have i: "i = 5" by simp
    have "drop 15 raw = [raw ! 15]" using assms by (simp add: Cons_nth_drop_Suc [symmetric])
    then show ?case unfolding i by (simp add: key_loop.simps [of raw 15] Let_def b64_last del: b64_decode.simps)
  next
    case (Suc k)
    let ?j = "3 * i"
    have j: "?j + 2 < 16" "?j + 3 = 3 * (i + 1)" "i + 1 \<le> 5" using Suc.hyps(2) by simp_all
    have d: "drop ?j raw = raw ! ?j # raw ! (?j + 1) # raw ! (?j + 2) # drop (3 * (i + 1)) raw"
      using drop_three [of ?j raw] j(1) assms by (simp add: algebra_simps)
    have "6 - i = Suc (5 - i)" "3 * i + 3 = 3 + 3 * i" using j by simp_all
    then show ?case using Suc.hyps(1) [of "i + 1"] Suc.hyps(2) j unfolding d
      by (subst (1 2) key_loop.simps) (simp add: Let_def b64_group add.commute [of "3 * i" 3] del: b64_decode.simps)
  qed
  from this [of 0] show "b64_decode (key_loop raw 0) = raw" "length (key_loop raw 0) = 24" by simp_all
qed


section \<open>URLs\<close>

definition plain_host :: "string \<Rightarrow> bool" where
  "plain_host h \<longleftrightarrow> h \<noteq> [] \<and> CHR ''/'' \<notin> set h \<and> CHR '':'' \<notin> set h \<and> CHR '']'' \<notin> set h"

lemma digits_plain: "c \<in> set (to_string i) \<Longrightarrow> 0 \<le> i \<Longrightarrow> c \<noteq> CHR ''/'' \<and> c \<noteq> CHR '':'' \<and> c \<noteq> CHR '']''"
  using to_dec_digits [of c "nat i"] by (auto simp: to_string_def is_digit_def)

lemma parseWsUrl_port:
  assumes "plain_host h" "port \<noteq> 0" "path = [] \<or> hd path = CHR ''/''"
  shows "parseWsUrl (''ws://'' @ h @ '':'' @ to_string (uint port) @ path)
    = Some \<lparr>up_host = h, up_port = port, up_path = (if path = [] then ''/'' else path)\<rparr>"
proof -
  let ?p = "to_string (uint port)" and ?hp = "h @ CHR '':'' # to_string (uint port)"
  have colon: "CHR '':'' \<notin> set ?p" and slash: "CHR ''/'' \<notin> set ?hp" and bracket: "CHR '']'' \<notin> set ?hp"
    using assms(1) digits_plain [of _ "uint port"] by (auto simp: plain_host_def)
  have port: "word_of_int (atoi ?p) = port"
    using atoi_to_string [of "uint port"] uint_lt2p [of port] order_trans [OF _ uint_ge_0 [of port], of "- (2 ^ 31)"] by simp
  have r: "rfind_char (CHR '':'') ?hp = Some (length h)" "find_char (CHR '']'') ?hp 0 = None"
    using rfind_char_last [OF colon] bracket by (simp_all add: find_char_none)
  have s: "starts_with ''ws://'' (''ws://'' @ h @ '':'' @ ?p @ path)" by (simp add: starts_with_def)
  have d: "drop 5 (''ws://'' @ h @ '':'' @ ?p @ path) = ?hp @ path" by simp
  have f: "find_char (CHR ''/'') (?hp @ path) 0 = (if path = [] then None else Some (length ?hp))"
    using assms(3) slash find_char_first [of "CHR ''/''" ?hp "tl path"]
    by (cases path) (auto simp: find_char_none)
  have h: "substr ?hp 0 (length h) = h" "drop (length h + 1) ?hp = ?p" "h \<noteq> []"
    using assms(1) by (simp_all add: substr_def plain_host_def)
  show ?thesis
    unfolding parseWsUrl_def Let_def d f
    using s r h port assms(2) by (cases "path = []") (simp_all add: substr_def)
qed

lemma parseWsUrl_sound:
  assumes "parseWsUrl url = Some p"
  shows "prefix ''ws://'' url \<and> up_host p \<noteq> [] \<and> CHR ''/'' \<notin> set (up_host p) \<and> up_port p \<noteq> 0
    \<and> up_path p \<noteq> [] \<and> hd (up_path p) = CHR ''/''"
proof -
  let ?rest = "drop 5 url"
  show ?thesis
  proof (cases "find_char (CHR ''/'') ?rest 0")
    case None
    then have "CHR ''/'' \<notin> set ?rest" by (simp add: find_char_def find_str_def)
    then have "CHR ''/'' \<notin> set (substr ?rest 0 k)" for k by (auto simp: substr_def dest: in_set_takeD)
    then show ?thesis using assms None \<open>CHR ''/'' \<notin> set ?rest\<close>
      by (auto simp: parseWsUrl_def Let_def starts_with_def split: if_splits option.splits)
  next
    case (Some k)
    then have k: "k < length ?rest" "?rest ! k = CHR ''/''" using find_char_bound [OF Some] by simp_all
    have "find_in ''/'' ?rest = Some k" using Some by (simp add: find_char_def find_str_def)
    then have "k = length (takeWhile (\<lambda>x. x \<noteq> CHR ''/'') ?rest)" by (simp add: find_in_char split: if_splits)
    then have "take k ?rest = takeWhile (\<lambda>x. x \<noteq> CHR ''/'') ?rest" by (metis takeWhile_eq_take)
    then have "CHR ''/'' \<notin> set (take k ?rest)" by (auto dest: set_takeWhileD)
    then have "CHR ''/'' \<notin> set (substr (substr ?rest 0 k) 0 m)" "CHR ''/'' \<notin> set (substr ?rest 0 k)" for m
      by (auto simp: substr_def simp del: take_take dest: in_set_takeD)
    moreover have "drop k ?rest \<noteq> []" "hd (drop k ?rest) = CHR ''/''" using k by (simp_all add: hd_drop_conv_nth add.commute)
    ultimately show ?thesis using assms Some
      by (auto simp: parseWsUrl_def Let_def starts_with_def split: if_splits option.splits)
  qed
qed

section \<open>Descriptors\<close>

lemma sendAll_opened: "fd_laws os opened \<Longrightarrow> sendAll os fd data off w = (ok, w') \<Longrightarrow> opened w' = opened w"
proof (induction os fd data off w rule: sendAll.induct)
  case (1 os fd data off w)
  obtain n v where n: "os_send os fd (drop off data) w = (n, v)" by fastforce
  note same = fd_law_same(7) [OF 1(2) n]
  show ?case
  proof (cases "off < length data \<and> \<not> n \<le> 0")
    case True
    then have "sendAll os fd data (off + nat n) v = (ok, w')" using 1(3) n by (simp add: sendAll.simps [of os fd data off w])
    then show ?thesis using 1(1) [OF _ n [symmetric]] True 1(2) same by simp
  next
    case False
    then show ?thesis using 1(3) n same by (auto simp: sendAll.simps [of os fd data off w] split: if_splits)
  qed
qed

lemma read_response_opened:
  "fd_laws os opened \<Longrightarrow> read_response os fd resp w = (r, w') \<Longrightarrow> opened w' = opened w"
proof (induction os fd resp w rule: read_response.induct)
  case (1 os fd resp w)
  obtain q v where q: "os_recv os fd 1024 w = (q, v)" by fastforce
  note same = fd_law_same(8) [OF 1(2) q]
  show ?case
    using 1(3) q same 1(1) [OF _ q [symmetric]] 1(2)
    by (subst (asm) read_response.simps) (auto split: if_splits option.splits)
qed


definition own_fd :: "ws_client \<Rightarrow> int set" where
  "own_fd c = (if ws_fd c = kInvalidFd then {} else {ws_fd c})"

text \<open>What an attempt leaves behind, given the world \<open>w\<close> after the previous connection was closed.\<close>

definition connect_result :: "('w \<Rightarrow> int set) \<Rightarrow> 'w \<Rightarrow> string \<Rightarrow> bool \<times> ws_client \<times> 'w \<Rightarrow> bool" where
  "connect_result opened w url = (\<lambda>(ok, c', w').
    (if ok then 0 \<le> ws_fd c' \<and> ws_fd c' \<notin> opened w \<and> opened w' = insert (ws_fd c') (opened w)
       \<and> ws_connected c' \<and> ws_reader c' \<and> ws_url c' = url
     else ws_fd c' = kInvalidFd \<and> \<not> ws_connected c' \<and> \<not> ws_reader c' \<and> opened w' = opened w))"

lemma ws_connect_result:
  assumes laws: "fd_laws os opened" and c: "ws_close os c w = (c0, w0)"
  shows "connect_result opened w0 url (ws_connect os c url w)"
proof -
  let ?c = "c0\<lparr>ws_readerStop := False\<rparr>"
  have fail: "connect_result opened w0 url (False, ?c, v)" if "opened v = opened w0" for v
    using that ws_close_facts(1-3) [OF c] by (simp add: connect_result_def)
  show ?thesis
  proof (cases "parseWsUrl url")
    case None
    then show ?thesis unfolding ws_connect_def c Let_def prod.case None option.case by (intro fail) simp
  next
    case (Some parts)
    obtain q w1 where q: "os_getaddrinfo os (up_host parts) (to_string (uint (up_port parts))) w0 = (q, w1)" by fastforce
    have o1: "opened w1 = opened w0" by (rule fd_law_same(5) [OF laws q])
    obtain fd w2 where s: "os_socket os SockStream w1 = (fd, w2)" by fastforce
    note o2 = fd_law_socket [OF laws s]
    show ?thesis
    proof (cases "q = None \<or> fd = kInvalidFd")
      case True
      then show ?thesis
        using fail [of w1] fail [of w2] o1 o2 Some q s c by (cases q) (auto simp: ws_connect_def)
    next
      case False
      then obtain a where a: "q = Some a" and fd: "fd \<noteq> kInvalidFd" by auto
      have fresh: "0 \<le> fd" "fd \<notin> opened w0" and open2: "opened w2 = insert fd (opened w0)" using o1 o2 fd by auto
      have closed: "opened (os_close os fd v) = opened w0" if "opened v = insert fd (opened w0)" for v
        using that fresh fd_law_close [OF laws] by simp
      obtain rc w3 where rc: "os_connect os fd a w2 = (rc, w3)" by fastforce
      obtain key w4 where k: "randomWsKey os w3 = (key, w4)" by fastforce
      obtain ok w5 where snd: "sendAll os fd (text_bytes (ws_request parts key)) 0 w4 = (ok, w5)" by fastforce
      obtain resp w6 where r: "read_response os fd [] w5 = (resp, w6)" by fastforce
      have o3: "opened w3 = insert fd (opened w0)" using fd_law_same(6) [OF laws rc] open2 by simp
      have o4: "opened w4 = insert fd (opened w0)"
        using k o3 by (auto simp: randomWsKey_def dest: fd_law_same(9) [OF laws] split: prod.splits)
      have o5: "opened w5 = insert fd (opened w0)" using sendAll_opened [OF laws snd] o4 by simp
      have o6: "opened w6 = insert fd (opened w0)" using read_response_opened [OF laws r] o5 by simp
      have win: "connect_result opened w0 url (True, ?c\<lparr>ws_fd := fd, ws_url := url, ws_connected := True, ws_reader := True\<rparr>, w6)"
        using fresh o6 by (simp add: connect_result_def)
      have "ws_connect os c url w =
        (if rc \<noteq> 0 then (False, ?c, os_close os fd w3) else if \<not> ok then (False, ?c, os_close os fd w5)
         else (case resp of None \<Rightarrow> (False, ?c, os_close os fd w6)
           | Some t \<Rightarrow> if find_str ''101'' t 0 = None then (False, ?c, os_close os fd w6)
               else (True, ?c\<lparr>ws_fd := fd, ws_url := url, ws_connected := True, ws_reader := True\<rparr>, w6)))"
        using fd unfolding ws_connect_def c Let_def prod.case Some option.case q a s rc k snd r
        by (simp split: option.split)
      then show ?thesis using fail closed o3 o5 o6 win by (auto split: option.splits)
    qed
  qed
qed

section \<open>Properties\<close>

definition demo_client :: ws_client where
  "demo_client = ws_client_init\<lparr>ws_fd := 3, ws_connected := True\<rparr>"

lemma demo_client_facts:
  "ws_connected demo_client" "ws_fd demo_client = 3" "ws_fd demo_client \<noteq> kInvalidFd"
  "reader_runs demo_os demo_client" "sends_work demo_os" "demo_sent demo_world_init = (\<lambda>fd. [])"
  by (simp_all add: demo_client_def ws_client_init_def kInvalidFd_def reader_runs_def demo_os_def sends_work_def
      demo_sent_def demo_world_init_def fun_eq_iff)

text \<open>C10. A frame the client reports as sent is read back by the reader as it is: whatever the mask, the
partial writes of the sender and the partial reads of the receiver, and whatever follows on the stream,
the reader returns the opcode and the payload and stops right after the frame.\<close>

theorem ws_frame_roundtrip:
  assumes "tcp_laws os sent coming" "sendFrameUnlocked os c op data w = (True, c', w')"
    and "tcp_laws os2 sent2 coming2" "reader_runs os2 c2"
    and "coming2 w2 (ws_fd c2) = drop (length (sent w (ws_fd c))) (sent w' (ws_fd c)) @ rest"
  shows "\<exists>w3. ws_read_frame os2 c2 w2 = (Some (op AND 0x0f, data), w3) \<and> coming2 w3 (ws_fd c2) = rest"
  using assms(1,2)
proof (cases rule: sendFrame_elim)
  case (sent mk)
  have "coming2 w2 (ws_fd c2) = rfc_frame (Some mk) op data @ rest" using assms(5) sent by simp
  then show ?thesis using ws_read_frame_ok [OF assms(3,4), of data "Some mk" w2 op rest] sent by auto
qed simp_all

theorem ws_frame_roundtrip_witness:
  "let w' = snd (snd (sendFrameUnlocked demo_os demo_client 2 [1, 2, 3, 4] demo_world_init))
   in \<exists>w3. ws_read_frame demo_os demo_client (demo_world_init\<lparr>dw_in := (\<lambda>fd. demo_sent w' 3 @ [7])\<rparr>)
       = (Some (2 AND 0x0f, [1, 2, 3, 4]), w3) \<and> dw_in w3 3 = [7]"
proof -
  obtain b c' w' where s: "sendFrameUnlocked demo_os demo_client 2 [1, 2, 3, 4] demo_world_init = (b, c', w')"
    by (metis surj_pair)
  have "b" using sendFrame_works [OF demo_client_facts(5,1,3), of "[1, 2, 3, 4]" 2 demo_world_init] s by simp
  then have "sendFrameUnlocked demo_os demo_client 2 [1, 2, 3, 4] demo_world_init = (True, c', w')" using s by simp
  from ws_frame_roundtrip [OF demo_tcp_laws this demo_tcp_laws demo_client_facts(4),
      of "demo_world_init\<lparr>dw_in := (\<lambda>fd. demo_sent w' 3 @ [7])\<rparr>" "[7]"]
  show ?thesis by (simp add: s demo_client_facts)
qed

text \<open>The stream stays in step: over any interleaving of binary and text sends, pongs and closes, what the
client writes on its connection is a sequence of whole frames, one per operation that reported success, in
order; only when the connection is closed can a part of a frame follow, and nothing follows that.\<close>

theorem ws_stream_whole:
  assumes "tcp_laws os sent coming" "ws_connected c" "ws_run os (c, w) ops = ((c', w'), accepted)"
  shows "\<exists>frames part. sent w' (ws_fd c) = sent w (ws_fd c) @ concat frames @ part
    \<and> list_all2 client_frame frames accepted \<and> (ws_connected c' \<longrightarrow> part = [] \<and> ws_fd c' = ws_fd c)"
proof -
  have "whole_frames sent (ws_fd c) (sent w (ws_fd c)) [] (c, w)"
    by (rule whole_framesI [where frames = "[]" and part = "[]"]) simp_all
  from ws_run_whole [OF assms(1) this assms(3)] show ?thesis by (auto simp: whole_frames_def)
qed

theorem ws_stream_whole_witness:
  "\<exists>frames. demo_sent (snd (fst (ws_run demo_os (demo_client, demo_world_init) [WsBinary [1, 2], WsText ''a'']))) 3
       = concat frames \<and> list_all2 client_frame frames [(2, [1, 2]), (1, [97])]"
proof -
  obtain c' w' acc where r: "ws_run demo_os (demo_client, demo_world_init) [WsBinary [1, 2], WsText ''a''] = ((c', w'), acc)"
    by (metis surj_pair)
  have "map_prod (ws_connected \<circ> fst) id (ws_run demo_os (demo_client, demo_world_init) [WsBinary [1, 2], WsText ''a''])
    = (True, [(2, [1, 2]), (1, [97])])" by code_simp
  then have "ws_connected c'" "acc = [(2, [1, 2]), (1, [97])]" unfolding r by simp_all
  with ws_stream_whole [OF demo_tcp_laws demo_client_facts(1) r] show ?thesis
    unfolding r by (auto simp: demo_client_facts)
qed

text \<open>C38. The reader answers every ping: on a stream of frames (masked or not, up to a megabyte each, in any
fragmentation) that ends or has a close frame, it terminates with the connection closed, having written
exactly one masked pong per ping, in order, with the ping's payload; only a ping of more than 65535 bytes
gets none.\<close>

theorem ws_reader_pongs:
  assumes "tcp_laws os sent coming" "reader_runs os c" "sends_work os" "ws_connected c" "ws_fd c \<noteq> kInvalidFd"
    and "\<forall>(m, op, d)\<in>set fs. peer_frame_ok (m, op, d) \<and> op \<noteq> 0x8"
    and "tail = [] \<or> (\<exists>m d rest. peer_frame_ok (m, 0x8, d) \<and> tail = peer_bytes (m, 0x8, d) @ rest)"
    and "coming w (ws_fd c) = concat (map peer_bytes fs) @ tail"
  shows "\<exists>c' w' frames. readerLoop os c w = Some (c', w') \<and> \<not> ws_connected c' \<and> ws_fd c' = kInvalidFd
    \<and> sent w' (ws_fd c) = sent w (ws_fd c) @ concat frames \<and> list_all2 client_frame frames (pings fs)"
  using readerLoop_pongs [OF assms] by auto

theorem ws_reader_pongs_witness:
  "\<exists>c' w' frames. readerLoop demo_os demo_client (demo_world_init\<lparr>dw_in := (\<lambda>fd.
        rfc_frame None 0x9 [1, 2] @ rfc_frame (Some [1, 2, 3, 4]) 0x1 [5] @ rfc_frame None 0x8 [] @ [9])\<rparr>) = Some (c', w')
     \<and> \<not> ws_connected c' \<and> demo_sent w' 3 = concat frames \<and> list_all2 client_frame frames [(0xA, [1, 2])]"
proof -
  let ?fs = "[(None, 0x9, [1, 2]), (Some [1, 2, 3, 4], 0x1, [5])] :: peer_frame list"
  let ?tail = "peer_bytes (None, 0x8, []) @ [9]"
  let ?w = "demo_world_init\<lparr>dw_in := (\<lambda>fd. concat (map peer_bytes ?fs) @ ?tail)\<rparr>"
  have fs: "\<forall>(m, op, d)\<in>set ?fs. peer_frame_ok (m, op, d) \<and> op \<noteq> 0x8" by (simp add: peer_frame_ok_def)
  have tail: "?tail = [] \<or> (\<exists>m d rest. peer_frame_ok (m, 0x8, d) \<and> ?tail = peer_bytes (m, 0x8, d) @ rest)"
    by (rule disjI2, rule exI [of _ None], rule exI [of _ "[]"]) (auto simp: peer_frame_ok_def)
  have p: "pings ?fs = [(0xA, [1, 2])]" by (simp add: pings_def)
  have w: "demo_sent ?w = (\<lambda>fd. [])" by (simp add: demo_sent_def demo_world_init_def fun_eq_iff)
  show ?thesis
    using ws_reader_pongs [OF demo_tcp_laws demo_client_facts(4,5,1,3) fs tail, where w = ?w]
    unfolding p w by (auto simp: demo_client_facts(2) peer_bytes_def)
qed

text \<open>Connecting leaks nothing: on every path out of \<open>connect\<close> the previous descriptor is closed; a failed
attempt (bad URL, no address, no socket, no connection, a failed write, a refused or oversized answer) leaves
no descriptor open and the client disconnected; a successful one opens exactly the one it holds.\<close>

theorem ws_connect_no_leak:
  assumes "fd_laws os opened" "ws_connect os c url w = (ok, c', w')"
  shows "opened w' = (opened w - own_fd c) \<union> own_fd c' \<and> (ws_connected c' \<longleftrightarrow> ok)
    \<and> (ok \<longleftrightarrow> ws_fd c' \<noteq> kInvalidFd) \<and> (ok \<longrightarrow> ws_fd c' \<notin> opened w - own_fd c \<and> ws_url c' = url)"
proof -
  obtain c0 w0 where c: "ws_close os c w = (c0, w0)" by fastforce
  have "opened w0 = opened w - own_fd c" using ws_close_facts(6) [OF c assms(1)] by (simp add: own_fd_def)
  then show ?thesis using ws_connect_result [OF assms(1) c, of url] assms(2)
    by (auto simp: connect_result_def own_fd_def kInvalidFd_def split: if_splits)
qed

theorem ws_connect_no_leak_witness:
  "let (ok, c', w') = ws_connect demo_os demo_client ''wss://h:8080/stream'' (demo_world_init\<lparr>dw_next := 4, dw_open := [3]\<rparr>)
   in \<not> ok \<and> \<not> ws_connected c' \<and> ws_fd c' = kInvalidFd \<and> set (dw_open w') \<inter> {0..<int (dw_next w')} = {}"
proof -
  let ?w = "demo_world_init\<lparr>dw_next := 4, dw_open := [3]\<rparr>"
  obtain ok c' w' where r: "ws_connect demo_os demo_client ''wss://h:8080/stream'' ?w = (ok, c', w')" by (metis surj_pair)
  have "parseWsUrl ''wss://h:8080/stream'' = None" by (simp add: parseWsUrl_def starts_with_def)
  then have "\<not> ok" using r by (auto simp: ws_connect_def split: prod.splits)
  with ws_connect_no_leak [OF demo_fd_laws r] show ?thesis
    by (auto simp: r own_fd_def demo_client_facts kInvalidFd_def)
qed

text \<open>The handshake key is the base64 of its 16 random bytes: 24 characters that a base64 decoder turns back
into exactly those bytes.\<close>

theorem ws_key_base64:
  "b64_decode (fst (randomWsKey os w)) = map (os_uniform_byte os (fst (os_random os w))) [0..<16]
    \<and> length (fst (randomWsKey os w)) = 24"
  using key_loop_ok [of "map (os_uniform_byte os (fst (os_random os w))) [0..<16]"]
  by (simp add: randomWsKey_def split_beta del: upt_rec_numeral)

text \<open>URLs: a URL with a host, a port and an optional path is taken apart into exactly these, and whatever is
accepted has a nonempty host without slash, a nonzero port and a path that starts with a slash.\<close>

theorem ws_url_parse:
  assumes "plain_host h" "port \<noteq> 0" "path = [] \<or> hd path = CHR ''/''"
  shows "parseWsUrl (''ws://'' @ h @ '':'' @ to_string (uint port) @ path)
      = Some \<lparr>up_host = h, up_port = port, up_path = (if path = [] then ''/'' else path)\<rparr>
    \<and> (parseWsUrl url = Some p \<longrightarrow> up_host p \<noteq> [] \<and> CHR ''/'' \<notin> set (up_host p) \<and> up_port p \<noteq> 0
        \<and> up_path p \<noteq> [] \<and> hd (up_path p) = CHR ''/'')"
  using parseWsUrl_port [OF assms] parseWsUrl_sound [of url p] by blast


theorem ws_url_parse_witness:
  "parseWsUrl (''ws://'' @ ''127.0.0.1'' @ '':'' @ to_string (uint (8080 :: u16)) @ ''/stream'')
    = Some \<lparr>up_host = ''127.0.0.1'', up_port = 8080, up_path = ''/stream''\<rparr>"
  using ws_url_parse [of "''127.0.0.1''" 8080 "''/stream''"] by (simp add: plain_host_def)

end
