(* ===== verification/Lock_Discipline.thy ===== *)
theory Lock_Discipline
  imports Prelude
begin

text \<open>
  The contract of threads that share data and mutexes: which thread owns which mutex, when a thread is
  inside a critical section, which data its next step reads or writes, and how each datum is meant to be
  protected. From the laws of single steps follow, for every run, mutual exclusion and that only
  unprotected data can be raced for. A second contract is about ending: steps use up a bounded amount of work
  and something can always go on, so any schedule that keeps giving the threads their turns gets to the
  end. The media session and the WebSocket client interpret both.
\<close>

datatype ('m, 't) policy = Guarded 'm | Owned 't | Constant | Unprotected

locale lock_discipline =
  fixes step :: "'s \<Rightarrow> 'e \<Rightarrow> 's"
    and owner :: "'s \<Rightarrow> 'm \<Rightarrow> 't option"
    and inside :: "'s \<Rightarrow> 't \<Rightarrow> 'm \<Rightarrow> bool"
    and acc :: "'s \<Rightarrow> 't \<Rightarrow> 'x \<Rightarrow> bool \<Rightarrow> bool"
    and policy :: "'x \<Rightarrow> ('m, 't) policy"
    and mover :: "'e \<Rightarrow> 't"
  assumes others: "t \<noteq> mover e \<Longrightarrow> inside (step s e) t mu = inside s t mu"
    and moved:
      "owner (step s e) mu = owner s mu \<and> inside (step s e) (mover e) mu = inside s (mover e) mu
       \<or> owner s mu = None \<and> owner (step s e) mu = Some (mover e) \<and> inside (step s e) (mover e) mu
       \<or> inside s (mover e) mu \<and> owner (step s e) mu = None \<and> \<not> inside (step s e) (mover e) mu"
    and guarded: "acc s t x wr \<Longrightarrow> policy x = Guarded mu \<Longrightarrow> inside s t mu"
    and owned: "acc s t x wr \<Longrightarrow> policy x = Owned u \<Longrightarrow> t = u"
    and unwritten: "acc s t x wr \<Longrightarrow> policy x = Constant \<Longrightarrow> \<not> wr"
begin

definition locked :: "'s \<Rightarrow> bool" where
  "locked s \<longleftrightarrow> (\<forall>t mu. owner s mu = Some t \<longleftrightarrow> inside s t mu)"

lemma locked_step: "locked s \<Longrightarrow> locked (step s e)"
  unfolding locked_def
proof (intro allI)
  fix t mu
  assume "\<forall>t mu. owner s mu = Some t \<longleftrightarrow> inside s t mu"
  then have l: "owner s mu = Some u \<longleftrightarrow> inside s u mu" for u by blast
  show "owner (step s e) mu = Some t \<longleftrightarrow> inside (step s e) t mu"
    using moved [of s e mu] others [of t e s mu] l [of t] l [of "mover e"] by (cases "t = mover e") auto
qed

lemma locked_run: "locked s \<Longrightarrow> locked (foldl step s es)"
  by (induction es arbitrary: s) (simp_all add: locked_step)

lemma exclusive: "locked s \<Longrightarrow> inside s t mu \<Longrightarrow> inside s u mu \<Longrightarrow> t = u"
  unfolding locked_def by (metis option.inject)

lemma race_unprotected:
  assumes "locked s" "acc s t x True" "acc s u x wr" "t \<noteq> u"
  shows "policy x = Unprotected"
proof (cases "policy x")
  case (Guarded mu)
  from exclusive [OF assms(1) guarded [OF assms(2) this] guarded [OF assms(3) this]] assms(4) show ?thesis by simp
next
  case (Owned v)
  from owned [OF assms(2) this] owned [OF assms(3) this] assms(4) show ?thesis by simp
qed (use unwritten [OF assms(2)] in auto)

end

section \<open>Ending under a fair schedule\<close>

locale fair_run =
  fixes step :: "'s \<Rightarrow> 'e \<Rightarrow> 's"
    and enabled :: "'s \<Rightarrow> 'e \<Rightarrow> bool"
    and inv :: "'s \<Rightarrow> bool"
    and finished :: "'s \<Rightarrow> bool"
    and work :: "'s \<Rightarrow> nat"
    and allowed :: "'e \<Rightarrow> bool"
    and needed :: "'e set"
  assumes inv_step: "inv s \<Longrightarrow> allowed e \<Longrightarrow> inv (step s e)"
    and idle: "\<not> enabled s e \<Longrightarrow> step s e = s"
    and works: "inv s \<Longrightarrow> allowed e \<Longrightarrow> enabled s e \<Longrightarrow> work (step s e) < work s"
    and needed_allowed: "e \<in> needed \<Longrightarrow> allowed e"
    and progress: "inv s \<Longrightarrow> \<not> finished s \<Longrightarrow> \<exists>e \<in> needed. enabled s e"
    and stays: "inv s \<Longrightarrow> allowed e \<Longrightarrow> finished s \<Longrightarrow> finished (step s e)"
begin

lemma inv_steps: "inv s \<Longrightarrow> list_all allowed es \<Longrightarrow> inv (foldl step s es)"
  by (induction es arbitrary: s) (simp_all add: inv_step)

lemma work_steps: "inv s \<Longrightarrow> list_all allowed es \<Longrightarrow> work (foldl step s es) \<le> work s"
proof (induction es arbitrary: s)
  case (Cons e es)
  then have "work (foldl step (step s e) es) \<le> work (step s e)" by (simp add: inv_step)
  moreover have "work (step s e) \<le> work s" using Cons.prems works [of s e] idle [of s e] by (cases "enabled s e") auto
  ultimately show ?case by simp
qed simp

lemma finished_steps: "inv s \<Longrightarrow> list_all allowed es \<Longrightarrow> finished s \<Longrightarrow> finished (foldl step s es)"
  by (induction es arbitrary: s) (simp_all add: inv_step stays)

lemma round_works:
  "inv s \<Longrightarrow> list_all allowed es \<Longrightarrow> e \<in> set es \<Longrightarrow> enabled s e \<Longrightarrow> work (foldl step s es) < work s"
proof (induction es arbitrary: s)
  case (Cons a es)
  show ?case
  proof (cases "enabled s a")
    case True
    then have "work (step s a) < work s" using Cons.prems works by simp
    then show ?thesis using work_steps [of "step s a" es] Cons.prems inv_step by force
  next
    case False
    then show ?thesis using Cons.prems Cons.IH [of s] idle [of s a] by auto
  qed
qed simp

text \<open>As many rounds, each with a turn for everything needed, as there is work left.\<close>

lemma rounds:
  assumes "inv s" "list_all (\<lambda>r. needed \<subseteq> set r \<and> list_all allowed r) rs" "work s \<le> length rs"
  shows "finished (foldl step s (concat rs))"
  using assms
proof (induction rs arbitrary: s)
  case Nil
  show ?case
  proof (rule ccontr)
    assume "\<not> finished (foldl step s (concat []))"
    then obtain e where "e \<in> needed" "enabled s e" using progress Nil(1) by auto
    then show False using works [OF Nil(1) needed_allowed] Nil(3) by fastforce
  qed
next
  case (Cons r rs)
  show ?case
  proof (cases "finished s")
    case True
    have "list_all allowed (concat (r # rs))" using Cons.prems(2) by (auto simp: list_all_iff)
    then show ?thesis using finished_steps [OF Cons.prems(1) _ True] by blast
  next
    case False
    then obtain e where e: "e \<in> needed" "enabled s e" using progress Cons.prems(1) by blast
    then have "work (foldl step s r) < work s" using round_works [OF Cons.prems(1), of r e] Cons.prems(2) by auto
    then show ?thesis using Cons.IH [of "foldl step s r"] Cons.prems inv_steps by simp
  qed
qed

end

end
