(* ===== verification/Ws_Threads.thy ===== *)
theory Ws_Threads
  imports Ws_Client Lock_Discipline
begin

text \<open>
  \<open>WsClient\<close> (src/src/ws/WsClient.cpp) under threads: the reader that \<open>connect\<close> starts, any number of
  callers of \<open>sendBinary\<close>, \<open>sendText\<close> and \<open>connected\<close>, and a caller of \<open>close\<close>. In the theory
  Ws_Client an operation is one step; here each system call is one, so the sends of a frame, the reader's
  receives and a close can come between one another. A receive is two steps, because it blocks: the
  call, which reads \<open>fd_\<close>, and its return, which waits until data, an end or an error is there. When that is
  so belongs to the system and the peer: \<open>ready fd w\<close> is a parameter. Closing a descriptor does not make
  a receive return that another thread has begun on it (on Linux the call keeps the connection open).

  Shown: a thread that is not interrupted does what the sequential model does; frames never mix on the wire, whoever sends them; \<open>connected_\<close> is free of data races, and \<open>fd_\<close> is
  not, since the reader reads it without the mutex; \<open>close\<close> returns if the reader's receive does, and not
  before: with a silent gateway it waits for ever.
\<close>

section \<open>Sending a frame\<close>

datatype send_pc = SBegin u8 bytes | SMore u8 bytes int bytes nat | SFail

datatype send_next = Going send_pc | Sent u8 bytes | Refused

text \<open>\<open>sendFrameUnlocked\<close>, one call of the system at a time.\<close>

definition send_step :: "'w net_os \<Rightarrow> send_pc \<Rightarrow> ws_client \<Rightarrow> 'w \<Rightarrow> send_next \<times> ws_client \<times> 'w" where
  "send_step os pc c w =
    (case pc of
       SBegin opcode data \<Rightarrow>
         (if \<not> ws_connected c \<or> ws_fd c = kInvalidFd then (Refused, c, w)
          else
            (case frame_header opcode (length data) of
               None \<Rightarrow> (Refused, c, w)
             | Some header \<Rightarrow>
                 (let (mk, w) = random_mask os w
                  in (Going (SMore opcode data (ws_fd c) (header @ mk @ mask_bytes mk data) 0), c, w))))
     | SMore opcode data fd frame off \<Rightarrow>
         (if off < length frame then
            (let (n, w) = os_send os fd (drop off frame) w
             in (Going (if n \<le> 0 then SFail else SMore opcode data fd frame (off + nat n)), c, w))
          else (Sent opcode data, c, w))
     | SFail \<Rightarrow> (let (c, w) = ws_closeFdUnlocked os c w in (Refused, c, w)))"

section \<open>Threads\<close>

datatype ws_thread = WsReader | WsCaller nat | WsCloser

text \<open>The buffer that \<open>readExact\<close> is filling.\<close>

datatype read_stage =
    SHeader
  | SLength16 u8 bool
  | SLength64 u8 bool
  | SMask u8 u64
  | SPayload u8 "bytes option" u64

definition stage_length :: "read_stage \<Rightarrow> nat" where
  "stage_length st = (case st of SHeader \<Rightarrow> 2 | SLength16 _ _ \<Rightarrow> 2 | SLength64 _ _ \<Rightarrow> 8 | SMask _ _ \<Rightarrow> 4 | SPayload _ _ n \<Rightarrow> unat n)"

datatype reader_pc =
    RdTest
  | RdRead read_stage bytes
  | RdRecv read_stage bytes int
  | RdPong bytes
  | RdIn bytes
  | RdSend send_pc
  | RdLeave
  | RdLeaveIn
  | RdEnd

datatype caller_pc = CIdle | CWant u8 bytes | CIn send_pc | CAsk | CAskIn

datatype closer_pc = ClIdle | ClWant | ClIn | ClJoin | ClDone

record 'w ws_threads =
  wt_c :: ws_client
  wt_w :: 'w
  wt_owner :: "ws_thread option"
  wt_reader :: reader_pc
  wt_caller :: "nat \<Rightarrow> caller_pc"
  wt_closer :: closer_pc

text \<open>After \<open>connect\<close>: the reader at the top of its loop.\<close>

definition ws_threads_of :: "'w ws_state \<Rightarrow> 'w ws_threads" where
  "ws_threads_of st = \<lparr>wt_c = fst st, wt_w = snd st, wt_owner = None, wt_reader = RdTest,
     wt_caller = (\<lambda>_. CIdle), wt_closer = ClIdle\<rparr>"

section \<open>The reader\<close>

text \<open>Where the loop body goes on once a buffer is full.\<close>

definition after_payload :: "u8 \<Rightarrow> bytes \<Rightarrow> reader_pc" where
  "after_payload opcode payload =
    (if opcode = 0x8 then RdLeave else if opcode = 0x9 then RdPong payload else RdTest)"

definition after_mask :: "u8 \<Rightarrow> bytes option \<Rightarrow> u64 \<Rightarrow> reader_pc" where
  "after_mask opcode mk payloadLen =
    (if payloadLen > push_bit 20 1 then RdLeave
     else if payloadLen > 0 then RdRead (SPayload opcode mk payloadLen) []
     else after_payload opcode [])"

definition after_length :: "u8 \<Rightarrow> bool \<Rightarrow> u64 \<Rightarrow> reader_pc" where
  "after_length opcode masked payloadLen =
    (if masked then RdRead (SMask opcode payloadLen) [] else after_mask opcode None payloadLen)"

definition stage_done :: "read_stage \<Rightarrow> bytes \<Rightarrow> reader_pc" where
  "stage_done st d =
    (case st of
       SHeader \<Rightarrow>
         (let opcode = d ! 0 AND 0x0f; masked = (d ! 1 AND 0x80 \<noteq> 0); payloadLen = ucast (d ! 1 AND 0x7f) :: u64
          in if payloadLen = 126 then RdRead (SLength16 opcode masked) []
             else if payloadLen = 127 then RdRead (SLength64 opcode masked) []
             else after_length opcode masked payloadLen)
     | SLength16 opcode masked \<Rightarrow> after_length opcode masked (push_bit 8 (ucast (d ! 0)) OR ucast (d ! 1))
     | SLength64 opcode masked \<Rightarrow> after_length opcode masked (foldl (\<lambda>l i. push_bit 8 l OR ucast (d ! i)) 0 [0..<8])
     | SMask opcode payloadLen \<Rightarrow> after_mask opcode (Some d) payloadLen
     | SPayload opcode mk _ \<Rightarrow> after_payload opcode (case mk of None \<Rightarrow> d | Some mk \<Rightarrow> mask_bytes mk d))"

type_synonym 'w ws_stepped = "('w ws_threads \<times> (u8 \<times> bytes) list) option"

definition ws_acquire :: "ws_thread \<Rightarrow> 'w ws_threads \<Rightarrow> 'w ws_threads option" where
  "ws_acquire t s = (if wt_owner s = None then Some (s\<lparr>wt_owner := Some t\<rparr>) else None)"

definition silent :: "'w ws_threads option \<Rightarrow> 'w ws_stepped" where
  "silent r = map_option (\<lambda>s. (s, [])) r"

definition ws_reader_step :: "'w net_os \<Rightarrow> (int \<Rightarrow> 'w \<Rightarrow> bool) \<Rightarrow> 'w ws_threads \<Rightarrow> 'w ws_stepped" where
  "ws_reader_step os ready s = (let c = wt_c s; w = wt_w s in
    case wt_reader s of
      RdTest \<Rightarrow> silent (Some (s\<lparr>wt_reader := if reader_stopped os c w then RdLeave else RdRead SHeader []\<rparr>))
    | RdRead st acc \<Rightarrow>
        silent (Some (s\<lparr>wt_reader :=
          if length acc < stage_length st \<and> \<not> reader_stopped os c w then RdRecv st acc (ws_fd c)
          else if length acc = stage_length st then stage_done st acc
          else RdLeave\<rparr>))
    | RdRecv st acc fd \<Rightarrow>
        (if ready fd w then
           (case os_recv os fd (stage_length st - length acc) w of
              (None, w) \<Rightarrow> silent (Some (s\<lparr>wt_w := w, wt_reader := RdLeave\<rparr>))
            | (Some d, w) \<Rightarrow> silent (Some (s\<lparr>wt_w := w, wt_reader := if d = [] then RdLeave else RdRead st (acc @ d)\<rparr>)))
         else None)
    | RdPong payload \<Rightarrow> silent (map_option (\<lambda>s. s\<lparr>wt_reader := RdIn payload\<rparr>) (ws_acquire WsReader s))
    | RdIn payload \<Rightarrow>
        silent (Some (if ws_connected c then s\<lparr>wt_reader := RdSend (SBegin 0xA payload)\<rparr>
                      else s\<lparr>wt_owner := None, wt_reader := RdTest\<rparr>))
    | RdSend pc \<Rightarrow>
        (case send_step os pc c w of
           (Going pc, c, w) \<Rightarrow> silent (Some (s\<lparr>wt_c := c, wt_w := w, wt_reader := RdSend pc\<rparr>))
         | (Sent opcode data, c, w) \<Rightarrow>
             Some (s\<lparr>wt_c := c, wt_w := w, wt_owner := None, wt_reader := RdTest\<rparr>, [(opcode, data)])
         | (Refused, c, w) \<Rightarrow> silent (Some (s\<lparr>wt_c := c, wt_w := w, wt_owner := None, wt_reader := RdTest\<rparr>)))
    | RdLeave \<Rightarrow> silent (map_option (\<lambda>s. s\<lparr>wt_reader := RdLeaveIn\<rparr>) (ws_acquire WsReader s))
    | RdLeaveIn \<Rightarrow>
        (let (c, w) = ws_closeFdUnlocked os c w
         in silent (Some (s\<lparr>wt_c := c, wt_w := w, wt_owner := None, wt_reader := RdEnd\<rparr>)))
    | RdEnd \<Rightarrow> None)"

section \<open>The other threads\<close>

definition ws_caller_step :: "'w net_os \<Rightarrow> nat \<Rightarrow> 'w ws_threads \<Rightarrow> 'w ws_stepped" where
  "ws_caller_step os i s = (let goto = (\<lambda>pc s. s\<lparr>wt_caller := (wt_caller s)(i := pc)\<rparr>) in
    case wt_caller s i of
      CIdle \<Rightarrow> None
    | CWant opcode data \<Rightarrow> silent (map_option (goto (CIn (SBegin opcode data))) (ws_acquire (WsCaller i) s))
    | CIn pc \<Rightarrow>
        (case send_step os pc (wt_c s) (wt_w s) of
           (Going pc, c, w) \<Rightarrow> silent (Some (goto (CIn pc) (s\<lparr>wt_c := c, wt_w := w\<rparr>)))
         | (Sent opcode data, c, w) \<Rightarrow>
             Some (goto CIdle (s\<lparr>wt_c := c, wt_w := w, wt_owner := None\<rparr>), [(opcode, data)])
         | (Refused, c, w) \<Rightarrow> silent (Some (goto CIdle (s\<lparr>wt_c := c, wt_w := w, wt_owner := None\<rparr>))))
    | CAsk \<Rightarrow> silent (map_option (goto CAskIn) (ws_acquire (WsCaller i) s))
    | CAskIn \<Rightarrow> silent (Some (goto CIdle (s\<lparr>wt_owner := None\<rparr>))))"

definition ws_closer_step :: "'w net_os \<Rightarrow> 'w ws_threads \<Rightarrow> 'w ws_stepped" where
  "ws_closer_step os s = silent (
    case wt_closer s of
      ClIdle \<Rightarrow> None
    | ClWant \<Rightarrow> map_option (\<lambda>s. s\<lparr>wt_closer := ClIn\<rparr>) (ws_acquire WsCloser s)
    | ClIn \<Rightarrow>
        (let (c, w) = ws_closeFdUnlocked os (wt_c s) (wt_w s)
         in Some (s\<lparr>wt_c := c, wt_w := w, wt_owner := None, wt_closer := ClJoin\<rparr>))
    | ClJoin \<Rightarrow>
        if wt_reader s = RdEnd then Some (s\<lparr>wt_c := (wt_c s)\<lparr>ws_reader := False\<rparr>, wt_closer := ClDone\<rparr>) else None
    | ClDone \<Rightarrow> None)"

text \<open>A thread goes on; an idle caller calls \<open>sendBinary\<close> or \<open>sendText\<close>, or \<open>connected\<close>; \<open>close\<close> is called.\<close>

datatype ws_turn = WsGo ws_thread | CallSend nat u8 bytes | CallConnected nat | CallClose

definition ws_fine_step :: "'w net_os \<Rightarrow> (int \<Rightarrow> 'w \<Rightarrow> bool) \<Rightarrow> 'w ws_threads \<Rightarrow> ws_turn \<Rightarrow> 'w ws_stepped" where
  "ws_fine_step os ready s e =
    (case e of
       WsGo WsReader \<Rightarrow> ws_reader_step os ready s
     | WsGo (WsCaller i) \<Rightarrow> ws_caller_step os i s
     | WsGo WsCloser \<Rightarrow> ws_closer_step os s
     | CallSend i opcode data \<Rightarrow>
         if wt_caller s i = CIdle then silent (Some (s\<lparr>wt_caller := (wt_caller s)(i := CWant opcode data)\<rparr>)) else None
     | CallConnected i \<Rightarrow>
         if wt_caller s i = CIdle then silent (Some (s\<lparr>wt_caller := (wt_caller s)(i := CAsk)\<rparr>)) else None
     | CallClose \<Rightarrow>
         if wt_closer s = ClIdle
         then silent (Some (s\<lparr>wt_c := (wt_c s)\<lparr>ws_readerStop := True\<rparr>, wt_closer := ClWant\<rparr>)) else None)"

fun ws_fine_run :: "'w net_os \<Rightarrow> (int \<Rightarrow> 'w \<Rightarrow> bool) \<Rightarrow> 'w ws_threads \<Rightarrow> ws_turn list \<Rightarrow> 'w ws_threads \<times> (u8 \<times> bytes) list" where
  "ws_fine_run os ready s [] = (s, [])"
| "ws_fine_run os ready s (e # es) =
    (case ws_fine_step os ready s e of
       None \<Rightarrow> ws_fine_run os ready s es
     | Some (s, a) \<Rightarrow> (let (s, b) = ws_fine_run os ready s es in (s, a @ b)))"

definition ws_fine_next :: "'w net_os \<Rightarrow> (int \<Rightarrow> 'w \<Rightarrow> bool) \<Rightarrow> 'w ws_threads \<Rightarrow> ws_turn \<Rightarrow> 'w ws_threads" where
  "ws_fine_next os ready s e = (case ws_fine_step os ready s e of None \<Rightarrow> s | Some (s', _) \<Rightarrow> s')"

lemma ws_fine_run_next: "fst (ws_fine_run os ready s es) = foldl (ws_fine_next os ready) s es"
proof (induction es arbitrary: s)
  case (Cons e es)
  then show ?case by (cases "ws_fine_step os ready s e") (auto simp: ws_fine_next_def split_beta Let_def)
qed simp

section \<open>Locking\<close>

datatype ws_member = FdMember | ConnectedMember

definition ws_inside :: "'w ws_threads \<Rightarrow> ws_thread \<Rightarrow> bool" where
  "ws_inside s t =
    (case t of
       WsReader \<Rightarrow> (case wt_reader s of RdIn _ \<Rightarrow> True | RdSend _ \<Rightarrow> True | RdLeaveIn \<Rightarrow> True | _ \<Rightarrow> False)
     | WsCaller i \<Rightarrow> (case wt_caller s i of CIn _ \<Rightarrow> True | CAskIn \<Rightarrow> True | _ \<Rightarrow> False)
     | WsCloser \<Rightarrow> wt_closer s = ClIn)"

definition send_accesses :: "send_pc \<Rightarrow> bool \<Rightarrow> bool" where
  "send_accesses pc wr = (case pc of SBegin _ _ \<Rightarrow> \<not> wr | SMore _ _ _ _ _ \<Rightarrow> False | SFail \<Rightarrow> True)"

text \<open>Whether the next step of the thread reads (\<open>wr\<close> false) or writes the member.\<close>

definition ws_accesses :: "'w ws_threads \<Rightarrow> ws_thread \<Rightarrow> ws_member \<Rightarrow> bool \<Rightarrow> bool" where
  "ws_accesses s t x wr =
    (case t of
       WsReader \<Rightarrow> (case wt_reader s of
           RdRead _ _ \<Rightarrow> x = FdMember \<and> \<not> wr
         | RdIn _ \<Rightarrow> x = ConnectedMember \<and> \<not> wr
         | RdSend pc \<Rightarrow> send_accesses pc wr
         | RdLeaveIn \<Rightarrow> True
         | _ \<Rightarrow> False)
     | WsCaller i \<Rightarrow> (case wt_caller s i of CIn pc \<Rightarrow> send_accesses pc wr | CAskIn \<Rightarrow> x = ConnectedMember \<and> \<not> wr | _ \<Rightarrow> False)
     | WsCloser \<Rightarrow> wt_closer s = ClIn)"

definition ws_protection :: "ws_member \<Rightarrow> (unit, ws_thread) policy" where
  "ws_protection x = (case x of FdMember \<Rightarrow> Unprotected | ConnectedMember \<Rightarrow> Guarded ())"

definition ws_race :: "'w ws_threads \<Rightarrow> ws_member \<Rightarrow> bool" where
  "ws_race s x \<longleftrightarrow> (\<exists>t u wr. t \<noteq> u \<and> ws_accesses s t x True \<and> ws_accesses s u x wr)"


definition ws_turn_thread :: "ws_turn \<Rightarrow> ws_thread" where
  "ws_turn_thread e = (case e of WsGo t \<Rightarrow> t | CallSend i _ _ \<Rightarrow> WsCaller i | CallConnected i \<Rightarrow> WsCaller i | CallClose \<Rightarrow> WsCloser)"

named_theorems ws_steps

lemmas [ws_steps] = ws_reader_step_def ws_caller_step_def ws_closer_step_def silent_def ws_acquire_def

lemma ws_step_frames:
  "ws_reader_step os ready s = Some (s', a) \<Longrightarrow> wt_caller s' = wt_caller s \<and> wt_closer s' = wt_closer s"
  "ws_caller_step os i s = Some (s', a) \<Longrightarrow> wt_reader s' = wt_reader s \<and> wt_closer s' = wt_closer s
     \<and> (\<forall>j. j \<noteq> i \<longrightarrow> wt_caller s' j = wt_caller s j)"
  "ws_closer_step os s = Some (s', a) \<Longrightarrow> wt_reader s' = wt_reader s \<and> wt_caller s' = wt_caller s \<and> a = []"
  by (auto simp: ws_steps Let_def split: reader_pc.splits caller_pc.splits closer_pc.splits send_next.splits
      if_splits prod.splits option.splits)

definition ws_mutex_move :: "'w ws_threads \<Rightarrow> 'w ws_threads \<Rightarrow> ws_thread \<Rightarrow> bool" where
  "ws_mutex_move s s' t \<longleftrightarrow>
    wt_owner s' = wt_owner s \<and> ws_inside s' t = ws_inside s t
    \<or> wt_owner s = None \<and> wt_owner s' = Some t \<and> ws_inside s' t
    \<or> ws_inside s t \<and> wt_owner s' = None \<and> \<not> ws_inside s' t"

lemma stage_done_cases: "(\<exists>st. stage_done x d = RdRead st [] \<and> 0 < stage_length st) \<or> stage_done x d = RdLeave \<or> stage_done x d = RdTest
    \<or> (\<exists>p. stage_done x d = RdPong p)"
  by (cases x) (auto simp: stage_done_def after_length_def after_mask_def after_payload_def Let_def stage_length_def
      unat_gt_0 word_gt_0)

lemma stage_done_outside: "stage_done x d \<noteq> RdIn p" "stage_done x d \<noteq> RdSend pc" "stage_done x d \<noteq> RdLeaveIn"
    "stage_done x d \<noteq> RdEnd" "stage_done x d \<noteq> RdRecv st b fd"
  using stage_done_cases [of x d] by auto

lemma stage_outside: "\<not> (case stage_done x d of RdIn _ \<Rightarrow> True | RdSend _ \<Rightarrow> True | RdLeaveIn \<Rightarrow> True | _ \<Rightarrow> False)"
  by (simp add: stage_done_outside split: reader_pc.split)

lemma ws_reader_moved: "ws_reader_step os ready s = Some (s', a) \<Longrightarrow> ws_mutex_move s s' WsReader"
  by (cases "wt_reader s") (auto simp: ws_mutex_move_def ws_steps ws_inside_def Let_def stage_outside
      split: send_next.splits if_splits prod.splits option.splits)

lemma ws_caller_moved: "ws_caller_step os i s = Some (s', a) \<Longrightarrow> ws_mutex_move s s' (WsCaller i)"
  by (cases "wt_caller s i") (auto simp: ws_mutex_move_def ws_steps ws_inside_def Let_def
      split: send_next.splits if_splits prod.splits option.splits)

lemma ws_closer_moved: "ws_closer_step os s = Some (s', a) \<Longrightarrow> ws_mutex_move s s' WsCloser"
  by (cases "wt_closer s") (auto simp: ws_mutex_move_def ws_steps ws_inside_def Let_def
      split: if_splits prod.splits option.splits)

lemma ws_fine_moved: "ws_mutex_move s (ws_fine_next os ready s e) (ws_turn_thread e)"
proof (cases "ws_fine_step os ready s e")
  case (Some r)
  obtain s' a where n: "ws_fine_step os ready s e = Some (s', a)" using Some by (cases r) auto
  show ?thesis
  proof (cases e)
    case (WsGo t)
    then show ?thesis using n by (cases t) (auto simp: ws_fine_next_def ws_fine_step_def ws_turn_thread_def
        intro: ws_reader_moved ws_caller_moved ws_closer_moved)
  qed (use n in \<open>auto simp: ws_fine_next_def ws_fine_step_def ws_turn_thread_def ws_inside_def silent_def ws_mutex_move_def
      split: if_splits\<close>)
qed (simp add: ws_fine_next_def ws_mutex_move_def)

lemma ws_fine_others: "t \<noteq> ws_turn_thread e \<Longrightarrow> ws_inside (ws_fine_next os ready s e) t = ws_inside s t"
proof (cases "ws_fine_step os ready s e")
  case (Some r)
  assume t: "t \<noteq> ws_turn_thread e"
  obtain s' a where n: "ws_fine_step os ready s e = Some (s', a)" using Some by (cases r) auto
  show ?thesis
  proof (cases e)
    case (WsGo u)
    then show ?thesis using t n by (cases u; cases t)
      (auto simp: ws_fine_next_def ws_fine_step_def ws_turn_thread_def ws_inside_def dest: ws_step_frames)
  qed (use t n in \<open>cases t; auto simp: ws_fine_next_def ws_fine_step_def ws_turn_thread_def ws_inside_def silent_def split: if_splits\<close>)+
qed (simp add: ws_fine_next_def)

lemma ws_accesses_policy: "ws_accesses s t x wr \<Longrightarrow> ws_protection x = Guarded mu \<Longrightarrow> ws_inside s t"
  by (cases x; cases t) (auto simp: ws_accesses_def ws_protection_def ws_inside_def
      split: reader_pc.splits caller_pc.splits)

interpretation ws_locks: lock_discipline "ws_fine_next os ready" "\<lambda>s (_ :: unit). wt_owner s" "\<lambda>s t _. ws_inside s t"
    ws_accesses ws_protection ws_turn_thread for os ready
proof unfold_locales
  show "ws_inside (ws_fine_next os ready s e) t = ws_inside s t" if "t \<noteq> ws_turn_thread e" for s e t
    using that by (rule ws_fine_others)
next
  fix s e
  show "wt_owner (ws_fine_next os ready s e) = wt_owner s
        \<and> ws_inside (ws_fine_next os ready s e) (ws_turn_thread e) = ws_inside s (ws_turn_thread e)
      \<or> wt_owner s = None \<and> wt_owner (ws_fine_next os ready s e) = Some (ws_turn_thread e)
        \<and> ws_inside (ws_fine_next os ready s e) (ws_turn_thread e)
      \<or> ws_inside s (ws_turn_thread e) \<and> wt_owner (ws_fine_next os ready s e) = None
        \<and> \<not> ws_inside (ws_fine_next os ready s e) (ws_turn_thread e)"
    using ws_fine_moved [of s os ready e] by (simp only: ws_mutex_move_def)
next
  show "ws_inside s t" if "ws_accesses s t x wr" "ws_protection x = Guarded mu" for s t x wr mu
    using ws_accesses_policy [OF that] .
qed (auto simp: ws_protection_def split: ws_member.splits)

lemma ws_start_locked: "ws_locks.locked (ws_threads_of st)"
  unfolding ws_locks.locked_def by (auto simp: ws_threads_of_def ws_inside_def split: ws_thread.split)

lemma ws_reachable_locked: "ws_fine_run os ready (ws_threads_of st) es = (s, evs) \<Longrightarrow> ws_locks.locked s"
  using ws_locks.locked_run [OF ws_start_locked, of os ready st es] by (simp add: ws_fine_run_next [symmetric])


lemma ws_access_inside:
  "ws_accesses s t x wr \<Longrightarrow> ws_inside s t \<or> (x = FdMember \<and> (\<exists>st acc. wt_reader s = RdRead st acc))"
  by (cases t) (auto simp: ws_accesses_def ws_inside_def split: reader_pc.splits caller_pc.splits)

definition ws_kept :: "ws_member \<Rightarrow> ws_client \<Rightarrow> ws_client \<Rightarrow> bool" where
  "ws_kept x c c' = (case x of FdMember \<Rightarrow> ws_fd c' = ws_fd c | ConnectedMember \<Rightarrow> ws_connected c' = ws_connected c)"

lemma send_step_accesses: "send_step os pc c w = (r, c', w') \<Longrightarrow> ws_kept x c c' \<or> send_accesses pc True"
  by (cases x; cases pc) (auto simp: send_step_def ws_kept_def send_accesses_def Let_def split: if_splits option.splits prod.splits)

lemma ws_accesses_sound:
  assumes "ws_fine_step os ready s (WsGo t) = Some (s', a)"
  shows "ws_kept x (wt_c s) (wt_c s') \<or> ws_accesses s t x True"
proof (cases t)
  case WsReader
  then have r: "ws_reader_step os ready s = Some (s', a)" using assms by (simp add: ws_fine_step_def)
  show ?thesis
  proof (cases "wt_reader s")
    case (RdSend pc)
    obtain q c' w' where q: "send_step os pc (wt_c s) (wt_w s) = (q, c', w')" by (metis surj_pair)
    then have "wt_c s' = c'" using r RdSend by (cases q) (auto simp: ws_reader_step_def Let_def silent_def)
    then show ?thesis using send_step_accesses [OF q, of x] WsReader RdSend by (simp add: ws_accesses_def)
  next
    case RdLeaveIn
    then show ?thesis using WsReader by (simp add: ws_accesses_def)
  qed (use r in \<open>cases x; auto simp: ws_steps Let_def ws_kept_def split: if_splits option.splits prod.splits\<close>)+
next
  case (WsCaller i)
  then have r: "ws_caller_step os i s = Some (s', a)" using assms by (simp add: ws_fine_step_def)
  show ?thesis
  proof (cases "wt_caller s i")
    case (CIn pc)
    obtain q c' w' where q: "send_step os pc (wt_c s) (wt_w s) = (q, c', w')" by (metis surj_pair)
    then have "wt_c s' = c'" using r CIn by (cases q) (auto simp: ws_caller_step_def Let_def silent_def)
    then show ?thesis using send_step_accesses [OF q, of x] WsCaller CIn by (simp add: ws_accesses_def)
  qed (use r in \<open>cases x; auto simp: ws_steps Let_def ws_kept_def split: if_splits\<close>)+
next
  case WsCloser
  then show ?thesis using assms
    by (cases x; cases "wt_closer s") (auto simp: ws_fine_step_def ws_steps ws_kept_def ws_accesses_def split: if_splits)
qed

section \<open>The bytes on the wire\<close>

definition ws_sending :: "'w ws_threads \<Rightarrow> ws_thread \<Rightarrow> send_pc option" where
  "ws_sending s t =
    (case t of
       WsReader \<Rightarrow> (case wt_reader s of RdSend pc \<Rightarrow> Some pc | _ \<Rightarrow> None)
     | WsCaller i \<Rightarrow> (case wt_caller s i of CIn pc \<Rightarrow> Some pc | _ \<Rightarrow> None)
     | WsCloser \<Rightarrow> None)"

definition ws_current :: "'w ws_threads \<Rightarrow> send_pc option" where
  "ws_current s = Option.bind (wt_owner s) (ws_sending s)"

definition frame_start :: "bytes \<Rightarrow> bool" where
  "frame_start part \<longleftrightarrow> part = [] \<or> (\<exists>frame x. client_frame frame x \<and> prefix part frame)"

lemma frame_start_Nil [simp]: "frame_start []"
  by (simp add: frame_start_def)

lemma frame_start_take: "client_frame frame x \<Longrightarrow> frame_start (take n frame)"
  unfolding frame_start_def using take_is_prefix by blast

text \<open>Between frames nothing partial is on an open connection; within one, exactly what was sent of it.\<close>

definition part_ok :: "int \<Rightarrow> ws_client \<Rightarrow> send_pc option \<Rightarrow> bytes \<Rightarrow> bool" where
  "part_ok fd c pc part \<longleftrightarrow> frame_start part \<and>
    (case pc of
       Some (SMore op d fd' frame off) \<Rightarrow> fd' = fd \<and> client_frame frame (op, d) \<and> off \<le> length frame \<and> part = take off frame
     | Some SFail \<Rightarrow> True
     | _ \<Rightarrow> ws_connected c \<longrightarrow> part = [])"

definition wire :: "('w \<Rightarrow> int \<Rightarrow> bytes) \<Rightarrow> int \<Rightarrow> bytes \<Rightarrow> ws_client \<Rightarrow> 'w \<Rightarrow> send_pc option \<Rightarrow> (u8 \<times> bytes) list \<Rightarrow> bool" where
  "wire sent fd base c w pc acc \<longleftrightarrow> (ws_connected c \<longrightarrow> ws_fd c = fd)
    \<and> (\<exists>frames part. sent w fd = base @ concat frames @ part \<and> list_all2 client_frame frames acc \<and> part_ok fd c pc part)"

lemma wireI:
  "(ws_connected c \<Longrightarrow> ws_fd c = fd) \<Longrightarrow> sent w fd = base @ concat frames @ part \<Longrightarrow> list_all2 client_frame frames acc \<Longrightarrow>
    part_ok fd c pc part \<Longrightarrow> wire sent fd base c w pc acc"
  by (auto simp: wire_def)

lemma wire_world: "wire sent fd base c w pc acc \<Longrightarrow> sent w' = sent w \<Longrightarrow> wire sent fd base c w' pc acc"
  by (simp add: wire_def)

lemma wire_begin: "wire sent fd base c w None acc \<Longrightarrow> wire sent fd base c w (Some (SBegin op d)) acc"
  by (simp add: wire_def part_ok_def)

lemma wire_close:
  assumes "tcp_laws os sent coming" "wire sent fd base c w pc acc" "ws_closeFdUnlocked os c w = (c', w')"
  shows "wire sent fd base c' w' None acc"
proof -
  obtain frames part where w: "sent w fd = base @ concat frames @ part" "list_all2 client_frame frames acc" "part_ok fd c pc part"
    using assms(2) by (auto simp: wire_def)
  show ?thesis using w ws_closeFd_facts(1,2) [OF assms(3)] assms(1)
    by (auto simp: part_ok_def intro!: wireI [where frames = frames and part = part])
qed

lemma wire_send:
  assumes "tcp_laws os sent coming" "wire sent fd base c w (Some pc) acc" "send_step os pc c w = (r, c', w')"
  shows "case r of Going pc' \<Rightarrow> wire sent fd base c' w' (Some pc') acc
    | Sent op d \<Rightarrow> wire sent fd base c' w' None (acc @ [(op, d)])
    | Refused \<Rightarrow> wire sent fd base c' w' None acc"
proof (cases pc)
  case (SBegin op d)
  show ?thesis
  proof (cases "\<not> ws_connected c \<or> ws_fd c = kInvalidFd \<or> 0xffff < length d")
    case True
    then have "r = Refused" "c' = c" "w' = w" using assms(3) SBegin by (auto simp: send_step_def frame_header_rfc split: if_splits)
    then show ?thesis using assms(2) SBegin by (simp add: wire_def part_ok_def)
  next
    case False
    obtain mk w1 where m: "random_mask os w = (mk, w1)" by fastforce
    note m' = random_mask_ok [OF assms(1) m]
    let ?frame = "rfc_frame (Some mk) op d"
    have h: "frame_header op (length d) = Some ((0x80 OR (op AND 0x0f)) # len_field True (length d))"
      using False by (simp add: frame_header_rfc)
    have f: "((0x80 OR (op AND 0x0f)) # len_field True (length d)) @ mk @ mask_bytes mk d = ?frame"
      by (simp add: rfc_frame_def)
    have e: "r = Going (SMore op d (ws_fd c) ?frame 0)" "c' = c" "w' = w1"
      using assms(3) False unfolding SBegin send_step_def send_pc.case h option.case m Let_def prod.case f by auto
    have "client_frame ?frame (op, d)" using m'(1) False by (auto simp: client_frame_def)
    then show ?thesis using assms(2) False m' SBegin e by (auto simp: wire_def part_ok_def)
  qed
next
  case (SMore op d fd' frame off)
  obtain frames where w: "ws_connected c \<Longrightarrow> ws_fd c = fd" "sent w fd = base @ concat frames @ take off frame"
    "list_all2 client_frame frames acc" "fd' = fd" "client_frame frame (op, d)" "off \<le> length frame"
    using assms(2) SMore by (auto simp: wire_def part_ok_def)
  show ?thesis
  proof (cases "off < length frame")
    case True
    obtain n v where n: "os_send os fd (drop off frame) w = (n, v)" by fastforce
    note l = tcp_law_send [OF assms(1) n]
    have e: "r = Going (if n \<le> 0 then SFail else SMore op d fd frame (off + nat n))" "c' = c" "w' = v"
      using assms(3) SMore True n w(4) by (auto simp: send_step_def)
    have "take off frame @ take (nat n) (drop off frame) = take (off + nat n) frame" by (simp add: take_add)
    then have "sent v fd = base @ concat frames @ take (off + nat n) frame" using l(2) w(2) by simp
    moreover have "off + nat n \<le> length frame" using l(1) True by auto
    ultimately show ?thesis using w e
      by (auto simp: e part_ok_def frame_start_take
        intro!: wireI [where frames = frames and part = "take (off + nat n) frame"])
  next
    case False
    then have e: "r = Sent op d" "c' = c" "w' = w" using assms(3) SMore by (auto simp: send_step_def)
    have "list_all2 client_frame (frames @ [frame]) (acc @ [(op, d)])" using w(3,5) by (simp add: list_all2_appendI)
    then show ?thesis using w False e
      by (auto simp: part_ok_def intro!: wireI [where frames = "frames @ [frame]" and part = "[]"])
  qed
next
  case SFail
  obtain c1 w1 where c: "ws_closeFdUnlocked os c w = (c1, w1)" by fastforce
  then have "r = Refused" "c' = c1" "w' = w1" using assms(3) SFail by (auto simp: send_step_def)
  then show ?thesis using wire_close [OF assms(1,2) c] by simp
qed

definition ws_wire :: "('w \<Rightarrow> int \<Rightarrow> bytes) \<Rightarrow> int \<Rightarrow> bytes \<Rightarrow> 'w ws_threads \<Rightarrow> (u8 \<times> bytes) list \<Rightarrow> bool" where
  "ws_wire sent fd base s acc \<longleftrightarrow> wire sent fd base (wt_c s) (wt_w s) (ws_current s) acc"

lemma ws_current_owner: "ws_locks.locked s \<Longrightarrow> ws_inside s t \<Longrightarrow> ws_current s = ws_sending s t"
  unfolding ws_locks.locked_def ws_current_def by (metis Option.bind.bind_lunit)

text \<open>A step outside the critical sections.\<close>

lemma ws_current_others:
  assumes "wt_owner s' = wt_owner s" "\<And>t. wt_owner s = Some t \<Longrightarrow> ws_sending s' t = ws_sending s t"
  shows "ws_current s' = ws_current s"
  using assms by (cases "wt_owner s") (simp_all add: ws_current_def)

lemma tcp_law_recv_sent: "tcp_laws os sent coming \<Longrightarrow> os_recv os fd k w = (r, w') \<Longrightarrow> sent w' = sent w"
  unfolding tcp_laws_def by blast

lemma ws_sending_reader: "ws_sending s WsReader = (case wt_reader s of RdSend pc \<Rightarrow> Some pc | _ \<Rightarrow> None)"
  and ws_sending_caller: "ws_sending s (WsCaller i) = (case wt_caller s i of CIn pc \<Rightarrow> Some pc | _ \<Rightarrow> None)"
  and ws_sending_closer: "ws_sending s WsCloser = None"
  by (simp_all add: ws_sending_def)

lemma ws_reader_wire:
  assumes "tcp_laws os sent coming" "ws_locks.locked s" "ws_wire sent fd base s acc" "ws_reader_step os ready s = Some (s', a)"
  shows "ws_wire sent fd base s' (acc @ a)"
proof (cases "ws_inside s WsReader")
  case True
  note cur = ws_current_owner [OF assms(2) True]
  note w = assms(3) [unfolded ws_wire_def]
  show ?thesis
  proof (cases "wt_reader s")
    case (RdSend pc)
    obtain r c' w' where r: "send_step os pc (wt_c s) (wt_w s) = (r, c', w')" by (metis surj_pair)
    have "wt_owner s = Some WsReader" using assms(2) True unfolding ws_locks.locked_def by blast
    then show ?thesis using assms(4) RdSend r w cur wire_send [OF assms(1) _ r]
      by (auto simp: ws_reader_step_def Let_def silent_def ws_wire_def ws_current_def ws_sending_def split: send_next.splits)
  next
    case (RdIn p)
    have "wt_owner s = Some WsReader" using assms(2) True unfolding ws_locks.locked_def by blast
    then show ?thesis using assms(4) RdIn w cur wire_begin
      by (auto simp: ws_reader_step_def Let_def silent_def ws_wire_def ws_current_def ws_sending_def split: if_splits)
  next
    case RdLeaveIn
    then show ?thesis using assms(4) w wire_close [OF assms(1)]
      by (auto simp: ws_reader_step_def Let_def silent_def ws_wire_def ws_current_def split: prod.splits)
  qed (use True in \<open>simp_all add: ws_inside_def\<close>)
next
  case False
  have o: "wt_owner s \<noteq> Some WsReader" using assms(2) False unfolding ws_locks.locked_def by blast
  have f: "wt_caller s' = wt_caller s" using ws_step_frames(1) [OF assms(4)] by blast
  have same: "a = [] \<and> wt_c s' = wt_c s \<and> sent (wt_w s') = sent (wt_w s)
      \<and> (wt_owner s' = wt_owner s \<or> wt_owner s = None \<and> wt_owner s' = Some WsReader \<and> ws_sending s' WsReader = None)"
    using assms(4) False by (cases "wt_reader s") (auto simp: ws_steps Let_def ws_inside_def ws_sending_def
        dest: tcp_law_recv_sent [OF assms(1)] split: if_splits option.splits prod.splits)
  have "ws_current s' = ws_current s"
  proof (cases "wt_owner s' = wt_owner s")
    case True
    have "ws_sending s' t = ws_sending s t" if "wt_owner s = Some t" for t
      using that o f by (cases t) (auto simp: ws_sending_def)
    then show ?thesis using True by (rule ws_current_others [rotated])
  qed (use same in \<open>auto simp: ws_current_def\<close>)
  then show ?thesis using assms(3) same wire_world [of sent fd base "wt_c s" "wt_w s"] by (simp add: ws_wire_def)
qed


lemma wire_client: "wire sent fd base c w pc acc \<Longrightarrow> ws_connected c' = ws_connected c \<Longrightarrow> ws_fd c' = ws_fd c \<Longrightarrow>
    wire sent fd base c' w pc acc"
proof -
  assume c: "wire sent fd base c w pc acc" "ws_connected c' = ws_connected c" "ws_fd c' = ws_fd c"
  have "part_ok fd c' pc part = part_ok fd c pc part" for part
    by (simp add: part_ok_def c(2) split: option.split send_pc.split)
  then show ?thesis using c by (simp add: wire_def)
qed

lemma ws_caller_wire:
  assumes "tcp_laws os sent coming" "ws_locks.locked s" "ws_wire sent fd base s acc" "ws_caller_step os i s = Some (s', a)"
  shows "ws_wire sent fd base s' (acc @ a)"
proof (cases "wt_caller s i")
  case (CIn pc)
  then have i: "ws_inside s (WsCaller i)" by (simp add: ws_inside_def)
  have "wt_owner s = Some (WsCaller i)" using assms(2) i unfolding ws_locks.locked_def by blast
  moreover obtain r c' w' where r: "send_step os pc (wt_c s) (wt_w s) = (r, c', w')" by (metis surj_pair)
  ultimately show ?thesis using assms(3,4) CIn ws_current_owner [OF assms(2) i] wire_send [OF assms(1) _ r] r
    by (auto simp: ws_caller_step_def Let_def silent_def ws_wire_def ws_current_def ws_sending_def split: send_next.splits)
next
  case CAskIn
  then have i: "ws_inside s (WsCaller i)" by (simp add: ws_inside_def)
  show ?thesis using assms(3,4) CAskIn ws_current_owner [OF assms(2) i]
    by (auto simp: ws_caller_step_def Let_def silent_def ws_wire_def ws_current_def ws_sending_def)
qed (use assms(3,4) in \<open>auto simp: ws_steps Let_def ws_wire_def ws_current_def ws_sending_def wire_begin split: if_splits\<close>)

lemma ws_closer_wire:
  assumes "tcp_laws os sent coming" "ws_locks.locked s" "ws_wire sent fd base s acc" "ws_closer_step os s = Some (s', a)"
  shows "ws_wire sent fd base s' (acc @ a)"
proof (cases "wt_closer s")
  case ClIn
  then show ?thesis using assms(3,4) wire_close [OF assms(1)]
    by (auto simp: ws_closer_step_def silent_def ws_wire_def ws_current_def split: prod.splits)
next
  case ClJoin
  then have s': "s' = s\<lparr>wt_c := (wt_c s)\<lparr>ws_reader := False\<rparr>, wt_closer := ClDone\<rparr>" "a = []"
    using assms(4) by (auto simp: ws_closer_step_def silent_def split: if_splits)
  have "ws_current s' = ws_current s" by (rule ws_current_others) (auto simp: s' ws_sending_def split: ws_thread.split)
  then show ?thesis using assms(3) s'(2) by (auto simp: ws_wire_def s' intro: wire_client)
qed (use assms(3,4) in \<open>auto simp: ws_steps ws_wire_def ws_current_def ws_sending_def split: if_splits\<close>)

lemma ws_fine_wire:
  assumes "tcp_laws os sent coming" "ws_locks.locked s" "ws_wire sent fd base s acc" "ws_fine_step os ready s e = Some (s', a)"
  shows "ws_wire sent fd base s' (acc @ a)"
proof (cases e)
  case (WsGo t)
  then show ?thesis using assms(4)
    by (cases t) (auto simp: ws_fine_step_def intro: ws_reader_wire [OF assms(1-3)] ws_caller_wire [OF assms(1-3)]
        ws_closer_wire [OF assms(1-3)])
next
  case CallClose
  then have s': "s' = s\<lparr>wt_c := (wt_c s)\<lparr>ws_readerStop := True\<rparr>, wt_closer := ClWant\<rparr>" "a = []"
    using assms(4) by (auto simp: ws_fine_step_def silent_def split: if_splits)
  have "ws_current s' = ws_current s" by (rule ws_current_others) (auto simp: s' ws_sending_def split: ws_thread.split)
  then show ?thesis using assms(3) s'(2) by (auto simp: ws_wire_def s' intro: wire_client)
next
  case (CallSend i op d)
  then have f: "wt_c s' = wt_c s" "wt_w s' = wt_w s" "wt_owner s' = wt_owner s" "a = []" "wt_caller s i = CIdle"
    "wt_reader s' = wt_reader s" "wt_caller s' = (wt_caller s)(i := CWant op d)"
    using assms(4) by (auto simp: ws_fine_step_def silent_def split: if_splits)
  have "ws_current s' = ws_current s" by (rule ws_current_others [OF f(3)]) (use f in \<open>auto simp: ws_sending_def split: ws_thread.split\<close>)
  then show ?thesis using assms(3) f by (simp add: ws_wire_def)
next
  case (CallConnected i)
  then have f: "wt_c s' = wt_c s" "wt_w s' = wt_w s" "wt_owner s' = wt_owner s" "a = []" "wt_caller s i = CIdle"
    "wt_reader s' = wt_reader s" "wt_caller s' = (wt_caller s)(i := CAsk)"
    using assms(4) by (auto simp: ws_fine_step_def silent_def split: if_splits)
  have "ws_current s' = ws_current s" by (rule ws_current_others [OF f(3)]) (use f in \<open>auto simp: ws_sending_def split: ws_thread.split\<close>)
  then show ?thesis using assms(3) f by (simp add: ws_wire_def)
qed

lemma ws_run_wire:
  assumes "tcp_laws os sent coming"
  shows "ws_locks.locked s \<Longrightarrow> ws_wire sent fd base s acc \<Longrightarrow> ws_fine_run os ready s es = (s', b) \<Longrightarrow>
    ws_wire sent fd base s' (acc @ b)"
proof (induction es arbitrary: s acc b)
  case (Cons e es)
  show ?case
  proof (cases "ws_fine_step os ready s e")
    case (Some r)
    obtain s1 a where n: "ws_fine_step os ready s e = Some (s1, a)" using Some by (cases r) auto
    obtain b' where b: "ws_fine_run os ready s1 es = (s', b')" "b = a @ b'" using Cons.prems(3) n by (auto split: prod.splits)
    have "ws_locks.locked s1" using ws_locks.locked_step [OF Cons.prems(1), of os ready e] n by (simp add: ws_fine_next_def)
    from Cons.IH [OF this ws_fine_wire [OF assms Cons.prems(1,2) n] b(1)] show ?thesis by (simp add: b(2))
  qed (use Cons in simp)
qed simp


section \<open>Closing\<close>

definition send_work :: "send_pc \<Rightarrow> nat" where
  "send_work pc =
    (case pc of SBegin _ d \<Rightarrow> 11 + length d | SMore _ _ _ frame off \<Rightarrow> 2 + (length frame - off) | SFail \<Rightarrow> 1)"

definition reader_work :: "reader_pc \<Rightarrow> nat" where
  "reader_work pc =
    (case pc of
       RdEnd \<Rightarrow> 0 | RdLeaveIn \<Rightarrow> 1 | RdLeave \<Rightarrow> 2 | RdTest \<Rightarrow> 3
     | RdSend pc \<Rightarrow> 4 + send_work pc
     | RdIn d \<Rightarrow> 16 + length d
     | RdPong d \<Rightarrow> 17 + length d
     | RdRead st acc \<Rightarrow> if length acc = stage_length st then 18 + length acc else 3
     | RdRecv st acc _ \<Rightarrow> 19 + stage_length st)"

definition closer_work :: "closer_pc \<Rightarrow> nat" where
  "closer_work pc = (case pc of ClIdle \<Rightarrow> 4 | ClWant \<Rightarrow> 3 | ClIn \<Rightarrow> 2 | ClJoin \<Rightarrow> 1 | ClDone \<Rightarrow> 0)"

text \<open>A bound on the steps left once \<open>readerStop_\<close> is set and nobody sends.\<close>

definition close_work :: "'w ws_threads \<Rightarrow> nat" where
  "close_work s = reader_work (wt_reader s) + closer_work (wt_closer s)"

definition closed_ok :: "'w ws_threads \<Rightarrow> bool" where
  "closed_ok s \<longleftrightarrow> (wt_closer s \<noteq> ClIdle \<longrightarrow> ws_readerStop (wt_c s)) \<and> (wt_closer s = ClDone \<longrightarrow> wt_reader s = RdEnd)
    \<and> (wt_reader s = RdEnd \<or> wt_closer s = ClJoin \<or> wt_closer s = ClDone
        \<longrightarrow> \<not> ws_connected (wt_c s) \<and> ws_fd (wt_c s) = kInvalidFd)"

lemma send_step_client:
  assumes "send_step os pc c w = (r, c', w')"
  shows "ws_readerStop c' = ws_readerStop c \<and> (ws_connected c' \<longrightarrow> ws_connected c)
    \<and> (ws_fd c = kInvalidFd \<longrightarrow> ws_fd c' = kInvalidFd) \<and> (\<forall>pc'. r = Going pc' \<longrightarrow> send_work pc' < send_work pc)"
proof (cases pc)
  case (SBegin op d)
  obtain mk v where m: "random_mask os w = (mk, v)" by fastforce
  have "length mk = 4" using m by (auto simp: random_mask_def split: prod.splits)
  moreover have "frame_header op (length d) = Some h \<Longrightarrow> length h \<le> 4" for h by (auto simp: frame_header_def Let_def split: if_splits)
  moreover have "length (mask_bytes mk d) = length d" by (simp add: mask_bytes_def)
  ultimately show ?thesis using assms SBegin m
    by (fastforce simp: send_step_def send_work_def split: if_splits option.splits)
qed (use assms in \<open>auto simp: send_step_def send_work_def ws_closeFdUnlocked_def split: if_splits prod.splits\<close>)

lemma stage_done_work: "reader_work (stage_done st d) \<le> 17 + length d"
proof -
  consider st' where "stage_done st d = RdRead st' []" "0 < stage_length st'" | "stage_done st d = RdLeave" | "stage_done st d = RdTest"
    | p where "stage_done st d = RdPong p" using stage_done_cases [of st d] by blast
  then show ?thesis
  proof cases
    case (4 p)
    then have "length p = length d \<or> p = []"
      by (cases st) (auto simp: stage_done_def after_length_def after_mask_def after_payload_def Let_def mask_bytes_def
          split: if_splits option.splits)
    then show ?thesis using 4 by (auto simp: reader_work_def)
  qed (simp_all add: reader_work_def)
qed

lemma closed_ok_step:
  assumes "closed_ok s" "ws_readerStop (wt_c s') = ws_readerStop (wt_c s)" "ws_connected (wt_c s') \<Longrightarrow> ws_connected (wt_c s)"
    and "ws_fd (wt_c s) = kInvalidFd \<Longrightarrow> ws_fd (wt_c s') = kInvalidFd" "wt_closer s' = wt_closer s"
    and "wt_reader s' = RdEnd \<longleftrightarrow> wt_reader s = RdEnd"
  shows "closed_ok s'"
  using assms unfolding closed_ok_def by metis

lemma ws_reader_closing:
  assumes "ws_reader_step os ready s = Some (s', a)" "closed_ok s"
  shows "closed_ok s'" "ws_readerStop (wt_c s) \<Longrightarrow> reader_work (wt_reader s') < reader_work (wt_reader s)"
    "ws_readerStop (wt_c s') = ws_readerStop (wt_c s)" "wt_reader s \<noteq> RdEnd"
proof -
  have "closed_ok s' \<and> (ws_readerStop (wt_c s) \<longrightarrow> reader_work (wt_reader s') < reader_work (wt_reader s))
      \<and> ws_readerStop (wt_c s') = ws_readerStop (wt_c s) \<and> wt_reader s \<noteq> RdEnd"
  proof (cases "wt_reader s")
    case (RdSend pc)
    obtain r c' w' where r: "send_step os pc (wt_c s) (wt_w s) = (r, c', w')" by (metis surj_pair)
    note f = send_step_client [OF r]
    have s': "wt_c s' = c'" "wt_closer s' = wt_closer s"
      "wt_reader s' = (case r of Going pc' \<Rightarrow> RdSend pc' | _ \<Rightarrow> RdTest)"
      using assms(1) RdSend r by (cases r; auto simp: ws_reader_step_def Let_def silent_def)+
    have "closed_ok s'" by (rule closed_ok_step [OF assms(2)]) (use s' f RdSend in \<open>auto split: send_next.split\<close>)
    moreover have "reader_work (wt_reader s') < reader_work (wt_reader s)"
      using s'(3) f RdSend by (cases r) (simp_all add: reader_work_def)
    ultimately show ?thesis using s'(1) f RdSend by simp
  next
    case RdLeaveIn
    then have "ws_closeFdUnlocked os (wt_c s) (wt_w s) = (wt_c s', wt_w s')" "wt_closer s' = wt_closer s" "wt_reader s' = RdEnd"
      using assms(1) by (auto simp: ws_reader_step_def Let_def silent_def split: prod.splits)
    then show ?thesis using assms(2) RdLeaveIn ws_closeFd_facts(1) [of os "wt_c s" "wt_w s"]
      by (simp add: closed_ok_def reader_work_def)
  next
    case (RdRead st acc)
    have s': "wt_c s' = wt_c s" "wt_closer s' = wt_closer s"
      "wt_reader s' = (if length acc < stage_length st \<and> \<not> reader_stopped os (wt_c s) (wt_w s) then RdRecv st acc (ws_fd (wt_c s))
        else if length acc = stage_length st then stage_done st acc else RdLeave)"
      using assms(1) RdRead by (auto simp: ws_reader_step_def Let_def silent_def)
    have "wt_reader s' \<noteq> RdEnd" using stage_done_outside(4) [of st acc] by (simp add: s'(3))
    moreover have "ws_readerStop (wt_c s) \<Longrightarrow> reader_work (wt_reader s') < reader_work (wt_reader s)"
      using stage_done_work [of st acc] RdRead s'(3) by (auto simp: reader_stopped_def reader_work_def [of "RdRead _ _"]
          reader_work_def [of RdLeave])
    ultimately show ?thesis using s' RdRead by (auto intro: closed_ok_step [OF assms(2)])
  next
    case (RdRecv st acc fd)
    then have s': "wt_c s' = wt_c s" "wt_closer s' = wt_closer s" "wt_reader s' = RdLeave \<or> (\<exists>d. wt_reader s' = RdRead st (acc @ d))"
      using assms(1) by (auto simp: ws_reader_step_def Let_def silent_def split: if_splits option.splits prod.splits)
    then have "reader_work (wt_reader s') < reader_work (wt_reader s)" using RdRecv by (auto simp: reader_work_def)
    then show ?thesis using s' RdRecv by (auto intro: closed_ok_step [OF assms(2)])
  next
    case (RdIn d)
    then have s': "wt_c s' = wt_c s" "wt_closer s' = wt_closer s" "wt_reader s' = RdTest \<or> wt_reader s' = RdSend (SBegin 0xA d)"
      using assms(1) by (auto simp: ws_reader_step_def Let_def silent_def split: if_splits)
    then have "reader_work (wt_reader s') < reader_work (wt_reader s)" using RdIn by (auto simp: reader_work_def send_work_def)
    then show ?thesis using s' RdIn by (auto intro: closed_ok_step [OF assms(2)])
  next
    case RdTest
    then have s': "wt_c s' = wt_c s" "wt_closer s' = wt_closer s" "wt_reader s' \<noteq> RdEnd"
      "ws_readerStop (wt_c s) \<Longrightarrow> wt_reader s' = RdLeave"
      using assms(1) by (auto simp: ws_reader_step_def Let_def silent_def reader_stopped_def split: if_splits)
    then show ?thesis using RdTest by (auto intro: closed_ok_step [OF assms(2)] simp: reader_work_def)
  next
    case (RdPong d)
    then have s': "wt_c s' = wt_c s" "wt_closer s' = wt_closer s" "wt_reader s' = RdIn d"
      using assms(1) by (auto simp: ws_steps Let_def split: if_splits)
    then show ?thesis using RdPong by (auto intro: closed_ok_step [OF assms(2)] simp: reader_work_def)
  next
    case RdLeave
    then have s': "wt_c s' = wt_c s" "wt_closer s' = wt_closer s" "wt_reader s' = RdLeaveIn"
      using assms(1) by (auto simp: ws_steps Let_def split: if_splits)
    then show ?thesis using RdLeave by (auto intro: closed_ok_step [OF assms(2)] simp: reader_work_def)
  next
    case RdEnd
    then show ?thesis using assms(1) by (simp add: ws_reader_step_def Let_def)
  qed
  then show "closed_ok s'" "ws_readerStop (wt_c s) \<Longrightarrow> reader_work (wt_reader s') < reader_work (wt_reader s)"
    "ws_readerStop (wt_c s') = ws_readerStop (wt_c s)" "wt_reader s \<noteq> RdEnd" by blast+
qed

lemma ws_caller_closing:
  assumes "ws_caller_step os i s = Some (s', a)" "closed_ok s"
  shows "closed_ok s'"
proof (cases "wt_caller s i")
  case (CIn pc)
  obtain r c' w' where r: "send_step os pc (wt_c s) (wt_w s) = (r, c', w')" by (metis surj_pair)
  have "wt_c s' = c'" using assms(1) CIn r by (cases r) (auto simp: ws_caller_step_def Let_def silent_def)
  then show ?thesis using send_step_client [OF r] ws_step_frames(2) [OF assms(1)]
    by (intro closed_ok_step [OF assms(2)]) auto
qed (use assms(1) ws_step_frames(2) [OF assms(1)] in
  \<open>intro closed_ok_step [OF assms(2)]; auto simp: ws_steps Let_def split: if_splits\<close>)+

lemma ws_closer_closing:
  assumes "ws_closer_step os s = Some (s', a)" "closed_ok s"
  shows "closed_ok s'" "closer_work (wt_closer s') < closer_work (wt_closer s)"
    "wt_closer s' \<noteq> ClIdle" "ws_readerStop (wt_c s')"
  using assms by (cases "wt_closer s"; auto simp: ws_steps closed_ok_def closer_work_def ws_closeFdUnlocked_def
      split: if_splits prod.splits)+

lemma ws_next_closed_ok: "closed_ok s \<Longrightarrow> closed_ok (ws_fine_next os ready s e)"
proof (cases "ws_fine_step os ready s e")
  case (Some r)
  assume c: "closed_ok s"
  obtain s' a where n: "ws_fine_step os ready s e = Some (s', a)" using Some by (cases r) auto
  show ?thesis
  proof (cases e)
    case (WsGo t)
    then show ?thesis using n c
      by (cases t) (auto simp: ws_fine_next_def ws_fine_step_def intro: ws_reader_closing(1) ws_caller_closing ws_closer_closing(1))
  qed (use n c in \<open>auto simp: ws_fine_next_def ws_fine_step_def silent_def closed_ok_def split: if_splits\<close>)
qed (simp add: ws_fine_next_def)

interpretation ws_closes: machine "ws_fine_next os ready" closed_ok for os ready
  by unfold_locales (rule ws_next_closed_ok)

text \<open>\<open>close\<close> was called and nobody sends.\<close>

definition ws_closing :: "'w ws_threads \<Rightarrow> bool" where
  "ws_closing s \<longleftrightarrow> ws_locks.locked s \<and> closed_ok s \<and> wt_caller s = (\<lambda>_. CIdle) \<and> wt_closer s \<noteq> ClIdle"

lemma ws_closing_progress:
  assumes "ws_closing s" "wt_closer s \<noteq> ClDone" "\<forall>fd w. ready fd w"
  shows "ws_fine_step os ready s (WsGo WsReader) \<noteq> None \<or> ws_fine_step os ready s (WsGo WsCloser) \<noteq> None"
proof (cases "wt_closer s = ClIn")
  case True
  then show ?thesis by (simp add: ws_fine_step_def ws_closer_step_def silent_def split: prod.split)
next
  case False
  have o: "wt_owner s = Some t \<Longrightarrow> t = WsReader \<and> ws_inside s WsReader" for t
    using assms(1) False unfolding ws_closing_def ws_locks.locked_def by (cases t) (auto simp: ws_inside_def)
  show ?thesis
  proof (cases "wt_reader s = RdEnd")
    case True
    then have "wt_owner s = None" using o by (cases "wt_owner s") (auto simp: ws_inside_def)
    then show ?thesis using True False assms(1,2)
      by (cases "wt_closer s") (auto simp: ws_fine_step_def ws_steps ws_closing_def)
  next
    case r: False
    have "wt_owner s = None" if "\<not> ws_inside s WsReader" using o that by (cases "wt_owner s") auto
    then have "ws_reader_step os ready s \<noteq> None" using r assms(3)
      by (cases "wt_reader s") (auto simp: ws_steps Let_def ws_inside_def split: send_next.split prod.split option.split)
    then show ?thesis by (simp add: ws_fine_step_def)
  qed
qed


interpretation close_run: fair_run "ws_fine_next os (\<lambda>_ _. True)" "\<lambda>s e. ws_fine_step os (\<lambda>_ _. True) s e \<noteq> None"
    ws_closing "\<lambda>s. wt_closer s = ClDone" close_work "\<lambda>e. \<exists>t. e = WsGo t" "{WsGo WsReader, WsGo WsCloser}" for os
proof unfold_locales
  fix s :: "'a ws_threads" and e
  assume s: "ws_closing s"
  then have c: "ws_locks.locked s" "closed_ok s" "wt_caller s = (\<lambda>_. CIdle)" "wt_closer s \<noteq> ClIdle"
    by (simp_all add: ws_closing_def)
  then have stop: "ws_readerStop (wt_c s)" by (simp add: closed_ok_def)
  show "\<exists>e \<in> {WsGo WsReader, WsGo WsCloser}. ws_fine_step os (\<lambda>_ _. True) s e \<noteq> None" if "wt_closer s \<noteq> ClDone"
    using ws_closing_progress [OF s that, of "\<lambda>_ _. True" os] by simp
  assume "\<exists>t. e = WsGo t"
  then obtain t where e: "e = WsGo t" by blast
  let ?s = "ws_fine_next os (\<lambda>_ _. True) s e"
  have n: "wt_caller ?s = (\<lambda>_. CIdle) \<and> wt_closer ?s \<noteq> ClIdle \<and> (wt_closer s = ClDone \<longrightarrow> wt_closer ?s = ClDone)
      \<and> (ws_fine_step os (\<lambda>_ _. True) s e \<noteq> None \<longrightarrow> close_work ?s < close_work s)"
  proof (cases "ws_fine_step os (\<lambda>_ _. True) s e")
    case (Some r)
    obtain s' a where r: "ws_fine_step os (\<lambda>_ _. True) s e = Some (s', a)" using Some by (cases r) auto
    then have s': "?s = s'" by (simp add: ws_fine_next_def)
    show ?thesis
    proof (cases t)
      case WsReader
      then have "ws_reader_step os (\<lambda>_ _. True) s = Some (s', a)" using r e by (simp add: ws_fine_step_def)
      from ws_step_frames(1) [OF this] ws_reader_closing(2) [OF this c(2) stop] c(3,4) show ?thesis
        by (simp add: s' close_work_def)
    next
      case WsCloser
      then have "ws_closer_step os s = Some (s', a)" using r e by (simp add: ws_fine_step_def)
      from ws_step_frames(3) [OF this] ws_closer_closing(2,3) [OF this c(2)] c(3) show ?thesis
        by (auto simp: s' close_work_def closer_work_def)
    qed (use r e c(3) in \<open>simp add: ws_fine_step_def ws_caller_step_def Let_def\<close>)
  qed (use c in \<open>simp add: ws_fine_next_def\<close>)
  then show "ws_closing ?s" using c(1,2) by (simp add: ws_closing_def ws_locks.locked_step ws_next_closed_ok)
  show "close_work ?s < close_work s" if "ws_fine_step os (\<lambda>_ _. True) s e \<noteq> None" using n that by blast
  show "wt_closer ?s = ClDone" if "wt_closer s = ClDone" using n that by blast
qed (auto simp: ws_fine_next_def split: option.split)

lemma ws_reachable_closed_ok:
  assumes "ws_fine_run os ready (ws_threads_of st) es = (s, evs)"
  shows "closed_ok s"
proof -
  have "closed_ok (ws_threads_of st)" by (simp add: closed_ok_def ws_threads_of_def)
  from ws_closes.inv_run [OF this, of os ready es] assms show ?thesis by (simp add: ws_fine_run_next [symmetric])
qed

text \<open>A round: turns of running threads only, the reader's and the closer's among them.\<close>

definition close_round :: "ws_turn list \<Rightarrow> bool" where
  "close_round es \<longleftrightarrow> {WsGo WsReader, WsGo WsCloser} \<subseteq> set es \<and> list_all (\<lambda>e. case e of WsGo _ \<Rightarrow> True | _ \<Rightarrow> False) es"

section \<open>A thread that is not interrupted\<close>

text \<open>Its steps make up the whole operation of the theory Ws_Client.\<close>

fun send_iter :: "'w net_os \<Rightarrow> nat \<Rightarrow> send_pc \<Rightarrow> ws_client \<Rightarrow> 'w \<Rightarrow> send_next \<times> ws_client \<times> 'w" where
  "send_iter os 0 pc c w = (Going pc, c, w)"
| "send_iter os (Suc n) pc c w =
    (case send_step os pc c w of (Going pc, c, w) \<Rightarrow> send_iter os n pc c w | r \<Rightarrow> r)"

lemma send_iter_all:
  "sendAll os fd frame off w = (ok, v) \<Longrightarrow> ws_fd c = fd \<Longrightarrow>
    \<exists>n. send_iter os n (SMore op d fd frame off) c w =
      (if ok then (Sent op d, c, v) else (Refused, ws_closeFdUnlocked os c v))"
proof (induction os fd frame off w rule: sendAll.induct)
  case (1 os fd frame off w)
  show ?case
  proof (cases "off < length frame")
    case True
    obtain k u where s: "os_send os fd (drop off frame) w = (k, u)" by fastforce
    show ?thesis
    proof (cases "k \<le> 0")
      case True
      then have "ok = False" "v = u" using 1(2) \<open>off < length frame\<close> s by (simp_all add: sendAll.simps [of os fd frame off w])
      then show ?thesis using True \<open>off < length frame\<close> s
        by (intro exI [of _ 2]) (auto simp: numeral_2_eq_2 send_step_def split: prod.split)
    next
      case False
      then have "sendAll os fd frame (off + nat k) u = (ok, v)"
        using 1(2) True s by (simp add: sendAll.simps [of os fd frame off w])
      from 1(1) [OF True s [symmetric] False this 1(3)] obtain n where
        "send_iter os n (SMore op d fd frame (off + nat k)) c u = (if ok then (Sent op d, c, v) else (Refused, ws_closeFdUnlocked os c v))"
        by blast
      then show ?thesis using True False s by (intro exI [of _ "Suc n"]) (simp add: send_step_def)
    qed
  next
    case False
    then have "ok = True" "v = w" using 1(2) by (simp_all add: sendAll.simps [of os fd frame off w])
    then show ?thesis using False by (intro exI [of _ 1]) (simp add: send_step_def)
  qed
qed

lemma send_iter_frame:
  assumes "sendFrameUnlocked os c op d w = (ok, c', w')"
  shows "\<exists>n. send_iter os n (SBegin op d) c w = (if ok then Sent op d else Refused, c', w')"
proof (cases "\<not> ws_connected c \<or> ws_fd c = kInvalidFd \<or> frame_header op (length d) = None")
  case True
  then show ?thesis using assms
    by (intro exI [of _ 1]) (auto simp: send_step_def sendFrameUnlocked_def split: option.splits)
next
  case False
  then obtain h where h: "frame_header op (length d) = Some h" by blast
  obtain mk u where m: "random_mask os w = (mk, u)" by fastforce
  obtain b v where s: "sendAll os (ws_fd c) (h @ mk @ mask_bytes mk d) 0 u = (b, v)" by fastforce
  from send_iter_all [OF s refl, of op d] obtain n where
    "send_iter os n (SMore op d (ws_fd c) (h @ mk @ mask_bytes mk d) 0) c u
      = (if b then (Sent op d, c, v) else (Refused, ws_closeFdUnlocked os c v))" by blast
  moreover have "(ok, c', w') = (if b then (True, c, v) else (False, ws_closeFdUnlocked os c v))"
    using assms False h m s by (auto simp: sendFrameUnlocked_def split: prod.splits)
  ultimately show ?thesis using False h m by (intro exI [of _ "Suc n"]) (auto simp: send_step_def split: if_splits)
qed

lemma ws_fine_run_append: "ws_fine_run os ready s (a @ b) =
    (let (s1, x) = ws_fine_run os ready s a; (s2, y) = ws_fine_run os ready s1 b in (s2, x @ y))"
  by (induction a arbitrary: s) (auto simp: split_beta Let_def split: option.splits)

text \<open>The reader alone gets from one state to another, having reported some pongs.\<close>

definition reader_runs_to :: "'w net_os \<Rightarrow> 'w ws_threads \<Rightarrow> 'w ws_threads \<Rightarrow> (u8 \<times> bytes) list \<Rightarrow> bool" where
  "reader_runs_to os s s' evs \<longleftrightarrow> (\<exists>n. ws_fine_run os (\<lambda>_ _. True) s (replicate n (WsGo WsReader)) = (s', evs))"

lemma reader_runs_refl: "reader_runs_to os s s []"
  unfolding reader_runs_to_def by (rule exI [of _ 0]) simp

lemma reader_runs_trans: "reader_runs_to os s s1 a \<Longrightarrow> reader_runs_to os s1 s2 b \<Longrightarrow> reader_runs_to os s s2 (a @ b)"
  unfolding reader_runs_to_def
proof (elim exE)
  fix n m
  assume "ws_fine_run os (\<lambda>_ _. True) s (replicate n (WsGo WsReader)) = (s1, a)"
    "ws_fine_run os (\<lambda>_ _. True) s1 (replicate m (WsGo WsReader)) = (s2, b)"
  then show "\<exists>k. ws_fine_run os (\<lambda>_ _. True) s (replicate k (WsGo WsReader)) = (s2, a @ b)"
    by (intro exI [of _ "n + m"]) (simp add: replicate_add ws_fine_run_append)
qed

lemma reader_runs_step: "ws_reader_step os (\<lambda>_ _. True) s = Some (s1, a) \<Longrightarrow> reader_runs_to os s s1 a"
  unfolding reader_runs_to_def by (rule exI [of _ 1]) (simp add: ws_fine_step_def)

lemma reader_runs_Cons:
  "ws_reader_step os (\<lambda>_ _. True) s = Some (s1, []) \<Longrightarrow> reader_runs_to os s1 s2 b \<Longrightarrow> reader_runs_to os s s2 b"
  using reader_runs_trans [OF reader_runs_step] by fastforce

definition at_reader :: "'w ws_threads \<Rightarrow> 'w \<Rightarrow> reader_pc \<Rightarrow> 'w ws_threads" where
  "at_reader s w pc = s\<lparr>wt_w := w, wt_reader := pc\<rparr>"

lemma at_reader_simps [simp]: "wt_w (at_reader s w pc) = w" "wt_reader (at_reader s w pc) = pc" "wt_c (at_reader s w pc) = wt_c s"
  "wt_owner (at_reader s w pc) = wt_owner s" "(at_reader s w pc)\<lparr>wt_w := w', wt_reader := pc'\<rparr> = at_reader s w' pc'"
  "(at_reader s w pc)\<lparr>wt_reader := pc'\<rparr> = at_reader s w pc'" "(at_reader s w pc)\<lparr>wt_w := w'\<rparr> = at_reader s w' pc"
  by (simp_all add: at_reader_def)

lemma reader_exact:
  "readExact os c len acc w = (r, w') \<Longrightarrow> c = wt_c s \<Longrightarrow> stage_length st = len \<Longrightarrow>
    reader_runs_to os (at_reader s w (RdRead st acc))
      (at_reader s w' (case r of None \<Rightarrow> RdLeave | Some d \<Rightarrow> stage_done st d)) []"
proof (induction os c len acc w rule: readExact.induct)
  case (1 os c len acc w)
  show ?case
  proof (cases "length acc < len \<and> \<not> reader_stopped os c w")
    case True
    obtain q v where q: "os_recv os (ws_fd c) (len - length acc) w = (q, v)" by fastforce
    have a: "ws_reader_step os (\<lambda>_ _. True) (at_reader s w (RdRead st acc)) = Some (at_reader s w (RdRecv st acc (ws_fd c)), [])"
      using True 1(3,4) by (simp add: ws_reader_step_def silent_def)
    have b: "ws_reader_step os (\<lambda>_ _. True) (at_reader s w (RdRecv st acc (ws_fd c)))
        = Some (at_reader s v (case q of None \<Rightarrow> RdLeave | Some d \<Rightarrow> if d = [] then RdLeave else RdRead st (acc @ d)), [])"
      using q 1(4) by (cases q) (auto simp: ws_reader_step_def silent_def)
    show ?thesis
    proof (cases "q = None \<or> q = Some []")
      case end_: True
      then have "r = None" "w' = v" using 1(2) True q by (auto simp: readExact.simps [of os c len acc w])
      then show ?thesis using reader_runs_Cons [OF a reader_runs_step [OF b]] end_ by auto
    next
      case False
      then obtain d where d: "q = Some d" "d \<noteq> []" by (cases q) auto
      then have "readExact os c len (acc @ d) v = (r, w')" using 1(2) True q by (simp add: readExact.simps [of os c len acc w])
      from 1(1) [OF True q [symmetric] d(1) d(2) this 1(3,4)]
      show ?thesis using reader_runs_Cons [OF a reader_runs_Cons [OF b]] d by simp
    qed
  next
    case False
    then have "(r, w') = (if length acc = len then Some acc else None, w)"
      using 1(2) by (subst (asm) readExact.simps) (simp split: if_splits)
    then have "ws_reader_step os (\<lambda>_ _. True) (at_reader s w (RdRead st acc))
        = Some (at_reader s w' (case r of None \<Rightarrow> RdLeave | Some d \<Rightarrow> stage_done st d), [])"
      using False 1(3,4) by (auto simp: ws_reader_step_def silent_def)
    then show ?thesis by (rule reader_runs_step)
  qed
qed


definition frame_pc :: "(u8 \<times> bytes) option \<Rightarrow> reader_pc" where
  "frame_pc r = (case r of None \<Rightarrow> RdLeave | Some (opcode, payload) \<Rightarrow> after_payload opcode payload)"

lemma reader_payload:
  assumes "(if payloadLen > push_bit 20 1 then (None, w)
      else (case (if payloadLen > 0 then readExact os c (unat payloadLen) [] w else (Some [], w)) of
              (None, w) \<Rightarrow> (None, w)
            | (Some payload, w) \<Rightarrow> (Some (opcode, case mk of None \<Rightarrow> payload | Some mk \<Rightarrow> mask_bytes mk payload), w))) = (r, w')"
    and "c = wt_c s"
  shows "reader_runs_to os (at_reader s w (after_mask opcode mk payloadLen)) (at_reader s w' (frame_pc r)) []"
proof (cases "payloadLen > push_bit 20 1 \<or> \<not> payloadLen > 0")
  case True
  then have "frame_pc r = after_mask opcode mk payloadLen" "w' = w" using assms(1)
    by (auto simp: frame_pc_def after_mask_def mask_bytes_def split: if_splits option.splits)
  then show ?thesis by (simp add: reader_runs_refl)
next
  case False
  obtain q v where q: "readExact os c (unat payloadLen) [] w = (q, v)" by fastforce
  have "stage_length (SPayload opcode mk payloadLen) = unat payloadLen" by (simp add: stage_length_def)
  from reader_exact [OF q assms(2) this]
  have "reader_runs_to os (at_reader s w (RdRead (SPayload opcode mk payloadLen) []))
      (at_reader s v (case q of None \<Rightarrow> RdLeave | Some d \<Rightarrow> stage_done (SPayload opcode mk payloadLen) d)) []" .
  moreover have "w' = v" "frame_pc r = (case q of None \<Rightarrow> RdLeave | Some d \<Rightarrow> stage_done (SPayload opcode mk payloadLen) d)"
    using assms(1) False q by (cases q; auto simp: frame_pc_def stage_done_def)+
  moreover have "after_mask opcode mk payloadLen = RdRead (SPayload opcode mk payloadLen) []"
    using False by (simp add: after_mask_def)
  ultimately show ?thesis by simp
qed

lemma reader_mask:
  assumes "(case (if masked then readExact os c 4 [] w else (Some [0, 0, 0, 0], w)) of
       (None, w) \<Rightarrow> (None, w)
     | (Some mk, w) \<Rightarrow>
         if payloadLen > push_bit 20 1 then (None, w)
         else
           (case (if payloadLen > 0 then readExact os c (unat payloadLen) [] w else (Some [], w)) of
              (None, w) \<Rightarrow> (None, w)
            | (Some payload, w) \<Rightarrow> (Some (opcode, if masked then mask_bytes mk payload else payload), w))) = (r, w')"
    and "c = wt_c s"
  shows "reader_runs_to os (at_reader s w (after_length opcode masked payloadLen)) (at_reader s w' (frame_pc r)) []"
proof (cases masked)
  case False
  show ?thesis unfolding after_length_def using False
    by (simp, intro reader_payload [OF _ assms(2)])
      (use assms(1) False in \<open>auto split: if_splits option.splits prod.splits\<close>)
next
  case True
  obtain q v where q: "readExact os c 4 [] w = (q, v)" by fastforce
  have "stage_length (SMask opcode payloadLen) = 4" by (simp add: stage_length_def)
  note run = reader_exact [OF q assms(2) this]
  show ?thesis
  proof (cases q)
    case None
    then show ?thesis using run assms(1) True q by (auto simp: after_length_def frame_pc_def)
  next
    case (Some mk)
    have "reader_runs_to os (at_reader s v (after_mask opcode (Some mk) payloadLen)) (at_reader s w' (frame_pc r)) []"
      by (rule reader_payload [OF _ assms(2)])
        (use assms(1) True q Some in \<open>auto split: if_splits option.splits prod.splits\<close>)
    then show ?thesis using reader_runs_trans [OF run] True Some by (fastforce simp: after_length_def stage_done_def)
  qed
qed

lemma reader_frame:
  assumes "ws_read_frame os c w = (r, w')" "c = wt_c s"
  shows "reader_runs_to os (at_reader s w (RdRead SHeader [])) (at_reader s w' (frame_pc r)) []"
proof -
  obtain q v where q: "readExact os c 2 [] w = (q, v)" by fastforce
  have "stage_length SHeader = 2" by (simp add: stage_length_def)
  note run = reader_exact [OF q assms(2) this]
  show ?thesis
  proof (cases q)
    case None
    then show ?thesis using run assms(1) q by (auto simp: ws_read_frame_def frame_pc_def)
  next
    case (Some hdr)
    let ?opcode = "hdr ! 0 AND 0x0f" and ?masked = "hdr ! 1 AND 0x80 \<noteq> 0" and ?len = "ucast (hdr ! 1 AND 0x7f) :: u64"
    obtain l u where l: "read_payload_length os c (hdr ! 1) v = (l, u)" by fastforce
    have len: "reader_runs_to os (at_reader s v (stage_done SHeader hdr))
        (at_reader s u (case l of None \<Rightarrow> RdLeave | Some n \<Rightarrow> after_length ?opcode ?masked n)) []"
    proof -
      consider "?len = 126" | "?len = 127" | "?len \<noteq> 126" "?len \<noteq> 127" by blast
      then show ?thesis
      proof cases
        case 1
        obtain e x where e: "readExact os c 2 [] v = (e, x)" by fastforce
        have "stage_length (SLength16 ?opcode ?masked) = 2" by (simp add: stage_length_def)
        from reader_exact [OF e assms(2) this] show ?thesis using 1 l e
          by (cases e) (auto simp: stage_done_def Let_def read_payload_length_def)
      next
        case 2
        obtain e x where e: "readExact os c 8 [] v = (e, x)" by fastforce
        have "stage_length (SLength64 ?opcode ?masked) = 8" by (simp add: stage_length_def)
        from reader_exact [OF e assms(2) this] show ?thesis using 2 l e
          by (cases e) (auto simp: stage_done_def Let_def read_payload_length_def)
      next
        case 3
        then show ?thesis using l by (auto simp: stage_done_def Let_def read_payload_length_def reader_runs_refl)
      qed
    qed
    show ?thesis
    proof (cases l)
      case None
      then show ?thesis using reader_runs_trans [OF run, of _ "[]"] len assms(1) q Some l
        by (auto simp: ws_read_frame_def frame_pc_def Let_def)
    next
      case n: (Some n)
      have "reader_runs_to os (at_reader s u (after_length ?opcode ?masked n)) (at_reader s w' (frame_pc r)) []"
        by (rule reader_mask [OF _ assms(2)])
          (use assms(1) in \<open>simp only: ws_read_frame_def q Some l n Let_def prod.case option.case\<close>)
      then show ?thesis using reader_runs_trans [OF reader_runs_trans [OF run]] len Some n by fastforce
    qed
  qed
qed


lemma reader_leaves:
  assumes "wt_owner s = None" "ws_closeFdUnlocked os (wt_c s) w = (c', w')"
  shows "reader_runs_to os (at_reader s w RdLeave) (at_reader (s\<lparr>wt_c := c'\<rparr>) w' RdEnd) []"
proof -
  have "ws_reader_step os (\<lambda>_ _. True) (at_reader s w RdLeave) = Some (at_reader (s\<lparr>wt_owner := Some WsReader\<rparr>) w RdLeaveIn, [])"
    using assms(1) by (simp add: ws_steps at_reader_def)
  moreover have "ws_reader_step os (\<lambda>_ _. True) (at_reader (s\<lparr>wt_owner := Some WsReader\<rparr>) w RdLeaveIn)
      = Some (at_reader (s\<lparr>wt_c := c'\<rparr>) w' RdEnd, [])"
    using assms by (cases s) (simp add: ws_steps at_reader_def)
  ultimately show ?thesis using reader_runs_Cons [OF _ reader_runs_step] by blast
qed

definition sent_of :: "send_next \<Rightarrow> (u8 \<times> bytes) list" where
  "sent_of r = (case r of Sent op d \<Rightarrow> [(op, d)] | _ \<Rightarrow> [])"

lemma reader_sends:
  "send_iter os n pc (wt_c s) w = (r, c', w') \<Longrightarrow> (\<forall>pc'. r \<noteq> Going pc') \<Longrightarrow>
    reader_runs_to os (at_reader s w (RdSend pc)) (at_reader (s\<lparr>wt_c := c', wt_owner := None\<rparr>) w' RdTest) (sent_of r)"
proof (induction n arbitrary: s w pc)
  case (Suc n)
  obtain q c1 w1 where q: "send_step os pc (wt_c s) w = (q, c1, w1)" by (metis surj_pair)
  show ?case
  proof (cases q)
    case (Going pc1)
    have "send_iter os n pc1 (wt_c (s\<lparr>wt_c := c1\<rparr>)) w1 = (r, c', w')" using Suc.prems(1) q Going by simp
    from Suc.IH [OF this Suc.prems(2)]
    have "reader_runs_to os (at_reader (s\<lparr>wt_c := c1\<rparr>) w1 (RdSend pc1)) (at_reader (s\<lparr>wt_c := c', wt_owner := None\<rparr>) w' RdTest) (sent_of r)"
      by (cases s) simp
    moreover have "ws_reader_step os (\<lambda>_ _. True) (at_reader s w (RdSend pc)) = Some (at_reader (s\<lparr>wt_c := c1\<rparr>) w1 (RdSend pc1), [])"
      using q Going by (simp add: ws_steps at_reader_def)
    ultimately show ?thesis by (rule reader_runs_Cons [rotated])
  next
    case (Sent op d)
    then show ?thesis using q Suc.prems(1)
      by (intro reader_runs_step) (auto simp: ws_steps at_reader_def sent_of_def)
  next
    case Refused
    then show ?thesis using q Suc.prems(1)
      by (intro reader_runs_step) (auto simp: ws_steps at_reader_def sent_of_def)
  qed
qed auto

lemma reader_pongs:
  assumes "wt_owner s = None"
    and "(if ws_connected (wt_c s) then snd (sendFrameUnlocked os (wt_c s) 0xA p w) else (wt_c s, w)) = (c', w')"
  shows "\<exists>evs. reader_runs_to os (at_reader s w (RdPong p)) (at_reader (s\<lparr>wt_c := c'\<rparr>) w' RdTest) evs"
proof -
  let ?s = "s\<lparr>wt_owner := Some WsReader\<rparr>"
  have a: "ws_reader_step os (\<lambda>_ _. True) (at_reader s w (RdPong p)) = Some (at_reader ?s w (RdIn p), [])"
    using assms(1) by (simp add: ws_steps at_reader_def)
  show ?thesis
  proof (cases "ws_connected (wt_c s)")
    case True
    then obtain ok where "sendFrameUnlocked os (wt_c s) 0xA p w = (ok, c', w')" using assms(2) by (metis prod.collapse)
    from send_iter_frame [OF this] obtain n where
      n: "send_iter os n (SBegin 0xA p) (wt_c ?s) w = (if ok then Sent 0xA p else Refused, c', w')" by auto
    have "(\<forall>pc'. (if ok then Sent 0xA p else Refused) \<noteq> Going pc')" by simp
    note b = reader_sends [OF n this]
    have "ws_reader_step os (\<lambda>_ _. True) (at_reader ?s w (RdIn p)) = Some (at_reader ?s w (RdSend (SBegin 0xA p)), [])"
      using True by (simp add: ws_reader_step_def silent_def at_reader_def)
    moreover have "?s\<lparr>wt_c := c', wt_owner := None\<rparr> = s\<lparr>wt_c := c'\<rparr>" using assms(1) by simp
    ultimately show ?thesis using reader_runs_Cons [OF a reader_runs_Cons [OF _ b]] by metis
  next
    case False
    then have "ws_reader_step os (\<lambda>_ _. True) (at_reader ?s w (RdIn p)) = Some (at_reader (s\<lparr>wt_c := c'\<rparr>) w' RdTest, [])"
      using assms by (simp add: ws_reader_step_def silent_def at_reader_def)
    then show ?thesis using reader_runs_Cons [OF a reader_runs_step] by blast
  qed
qed



lemma reader_alone:
  "readerLoop os c w = Some y \<Longrightarrow> \<forall>s. wt_c s = c \<and> wt_owner s = None \<longrightarrow>
    (\<exists>evs. reader_runs_to os (at_reader s w RdTest) (at_reader (s\<lparr>wt_c := fst y\<rparr>) (snd y) RdEnd) evs)"
proof (induction rule: readerLoop.raw_induct [rotated 1, consumes 1])
  case (1 loop os c w y)
  show ?case
  proof (intro allI impI, elim conjE)
    fix s :: "'a ws_threads"
    assume s: "wt_c s = c" "wt_owner s = None"
    have test: "ws_reader_step os (\<lambda>_ _. True) (at_reader s w RdTest)
        = Some (at_reader s w (if reader_stopped os c w then RdLeave else RdRead SHeader []), [])"
      using s(1) by (simp add: ws_reader_step_def silent_def at_reader_def)
    have leave: "reader_runs_to os (at_reader s v RdLeave) (at_reader (s\<lparr>wt_c := fst y\<rparr>) (snd y) RdEnd) []"
      if "ws_closeFdUnlocked os c v = y" for v
      by (rule reader_leaves [OF s(2)]) (use that s(1) in simp)
    show "\<exists>evs. reader_runs_to os (at_reader s w RdTest) (at_reader (s\<lparr>wt_c := fst y\<rparr>) (snd y) RdEnd) evs"
    proof (cases "reader_stopped os c w")
      case True
      then show ?thesis using 1(2) reader_runs_Cons [OF test] leave [of w] by auto
    next
      case False
      obtain r v where r: "ws_read_frame os c w = (r, v)" by fastforce
      have run: "reader_runs_to os (at_reader s w RdTest) (at_reader s v (frame_pc r)) []"
        using reader_runs_Cons [OF test] reader_frame [OF r s(1) [symmetric]] False by simp
      show ?thesis
      proof (cases "r = None \<or> (\<exists>p. r = Some (0x8, p))")
        case True
        then have "frame_pc r = RdLeave" "ws_closeFdUnlocked os c v = y" using 1(2) False r
          by (auto simp: frame_pc_def after_payload_def)
        then show ?thesis using reader_runs_trans [OF run] leave [of v] by fastforce
      next
        case go: False
        then obtain op p where p: "r = Some (op, p)" "op \<noteq> 0x8" by auto
        obtain c1 w1 where c1: "(if op = 0x9 \<and> ws_connected c then snd (sendFrameUnlocked os c 0xA p v) else (c, v)) = (c1, w1)"
          by fastforce
        have rec: "loop os c1 w1 = Some y" using 1(2) False r p c1 by simp
        let ?s = "s\<lparr>wt_c := c1\<rparr>"
        have "\<exists>a. reader_runs_to os (at_reader s v (frame_pc r)) (at_reader ?s w1 RdTest) a"
        proof (cases "op = 0x9")
          case True
          then have "(if ws_connected (wt_c s) then snd (sendFrameUnlocked os (wt_c s) 0xA p v) else (wt_c s, v)) = (c1, w1)"
            using c1 s(1) by (cases "ws_connected c") auto
          then show ?thesis using reader_pongs [OF s(2)] True p by (auto simp: frame_pc_def after_payload_def)
        next
          case False
          then have "c1 = c" "w1 = v" "frame_pc r = RdTest" using c1 p by (auto simp: frame_pc_def after_payload_def)
          then show ?thesis using s(1) by (intro exI [of _ "[]"]) (cases s, simp add: reader_runs_refl)
        qed
        then obtain a where a: "reader_runs_to os (at_reader s v (frame_pc r)) (at_reader ?s w1 RdTest) a" by blast
        have "\<exists>evs. reader_runs_to os (at_reader ?s w1 RdTest) (at_reader (?s\<lparr>wt_c := fst y\<rparr>) (snd y) RdEnd) evs"
          using spec [OF 1(1) [OF rec], of ?s] s(2) by simp
        then show ?thesis using reader_runs_trans [OF reader_runs_trans [OF run a]] by fastforce
      qed
    qed
  qed
qed

lemma caller_sends:
  "send_iter os n pc (wt_c s) (wt_w s) = (r, c', w') \<Longrightarrow> (\<forall>pc'. r \<noteq> Going pc') \<Longrightarrow> wt_caller s i = CIn pc \<Longrightarrow>
    \<exists>m. ws_fine_run os ready s (replicate m (WsGo (WsCaller i)))
      = (s\<lparr>wt_c := c', wt_w := w', wt_owner := None, wt_caller := (wt_caller s)(i := CIdle)\<rparr>, sent_of r)"
proof (induction n arbitrary: s pc)
  case (Suc n)
  obtain q c1 w1 where q: "send_step os pc (wt_c s) (wt_w s) = (q, c1, w1)" by (metis surj_pair)
  show ?case
  proof (cases q)
    case (Going pc1)
    let ?s = "s\<lparr>wt_c := c1, wt_w := w1, wt_caller := (wt_caller s)(i := CIn pc1)\<rparr>"
    have "send_iter os n pc1 (wt_c ?s) (wt_w ?s) = (r, c', w')" using Suc.prems(1) q Going by simp
    then obtain m where "ws_fine_run os ready ?s (replicate m (WsGo (WsCaller i)))
        = (?s\<lparr>wt_c := c', wt_w := w', wt_owner := None, wt_caller := (wt_caller ?s)(i := CIdle)\<rparr>, sent_of r)"
      using Suc.IH [of pc1 ?s] Suc.prems(2) by fastforce
    moreover have "?s\<lparr>wt_c := c', wt_w := w', wt_owner := None, wt_caller := (wt_caller ?s)(i := CIdle)\<rparr>
        = s\<lparr>wt_c := c', wt_w := w', wt_owner := None, wt_caller := (wt_caller s)(i := CIdle)\<rparr>" by simp
    ultimately have "ws_fine_run os ready ?s (replicate m (WsGo (WsCaller i)))
        = (s\<lparr>wt_c := c', wt_w := w', wt_owner := None, wt_caller := (wt_caller s)(i := CIdle)\<rparr>, sent_of r)" by (simp only:)
    moreover have "ws_caller_step os i s = Some (?s, [])"
      using q Going Suc.prems(3) by (cases s) (simp add: ws_steps Let_def)
    ultimately show ?thesis by (intro exI [of _ "Suc m"]) (simp add: ws_fine_step_def fun_upd_def)
  next
    case (Sent op' d')
    then show ?thesis using q Suc.prems(1,3)
      by (cases s, intro exI [of _ 1]) (auto simp: ws_fine_step_def ws_steps Let_def sent_of_def fun_upd_def fun_eq_iff)
  next
    case Refused
    then show ?thesis using q Suc.prems(1,3)
      by (cases s, intro exI [of _ 1]) (auto simp: ws_fine_step_def ws_steps Let_def sent_of_def fun_upd_def fun_eq_iff)
  qed
qed auto

lemma caller_alone:
  assumes "wt_owner s = None" "wt_caller s i = CIdle" "sendFrameUnlocked os (wt_c s) op d (wt_w s) = (ok, c', w')"
  shows "\<exists>n. ws_fine_run os ready s (CallSend i op d # replicate n (WsGo (WsCaller i)))
    = (s\<lparr>wt_c := c', wt_w := w'\<rparr>, if ok then [(op, d)] else [])"
proof -
  let ?s = "s\<lparr>wt_owner := Some (WsCaller i), wt_caller := (wt_caller s)(i := CIn (SBegin op d))\<rparr>"
  let ?r = "if ok then Sent op d else Refused"
  obtain n where n: "send_iter os n (SBegin op d) (wt_c ?s) (wt_w ?s) = (?r, c', w')"
    using send_iter_frame [OF assms(3)] by auto
  have "\<forall>pc'. ?r \<noteq> Going pc'" "wt_caller ?s i = CIn (SBegin op d)" by simp_all
  from caller_sends [OF n this, of ready] obtain m where "ws_fine_run os ready ?s (replicate m (WsGo (WsCaller i)))
      = (?s\<lparr>wt_c := c', wt_w := w', wt_owner := None, wt_caller := (wt_caller ?s)(i := CIdle)\<rparr>, sent_of ?r)"
    by blast
  moreover have "?s\<lparr>wt_c := c', wt_w := w', wt_owner := None, wt_caller := (wt_caller ?s)(i := CIdle)\<rparr> = s\<lparr>wt_c := c', wt_w := w'\<rparr>"
    using assms(1,2) by (cases s) (simp add: fun_upd_idem)
  ultimately have "ws_fine_run os ready ?s (replicate m (WsGo (WsCaller i))) = (s\<lparr>wt_c := c', wt_w := w'\<rparr>, if ok then [(op, d)] else [])"
    by (simp add: sent_of_def)
  then show ?thesis using assms(1,2)
    by (intro exI [of _ "Suc m"]) (simp add: ws_fine_step_def ws_steps Let_def)
qed

section \<open>Properties\<close>

text \<open>C21. Frames never mix: however the calls of \<open>send\<close> of the senders, the reader's pongs and a close interleave, the
bytes on the connection are whole frames, one for each send that reported success, in that order, and at most
a beginning of one more; that one only while its sender is at work, or when the connection is closed.\<close>

theorem ws_frames_never_mix:
  assumes "tcp_laws os sent coming" "ws_connected c" "ws_fine_run os ready (ws_threads_of (c, w)) es = (s, accepted)"
  shows "\<exists>frames part. sent (wt_w s) (ws_fd c) = sent w (ws_fd c) @ concat frames @ part
    \<and> list_all2 client_frame frames accepted
    \<and> frame_start part
    \<and> (ws_connected (wt_c s) \<and> wt_owner s = None \<longrightarrow> part = [])"
proof -
  have "ws_wire sent (ws_fd c) (sent w (ws_fd c)) (ws_threads_of (c, w)) []"
    by (simp add: ws_wire_def wire_def part_ok_def ws_threads_of_def ws_current_def)
  from ws_run_wire [OF assms(1) ws_start_locked this assms(3)] obtain frames part where
    p: "sent (wt_w s) (ws_fd c) = sent w (ws_fd c) @ concat frames @ part" "list_all2 client_frame frames accepted"
      "part_ok (ws_fd c) (wt_c s) (ws_current s) part" by (auto simp: ws_wire_def wire_def)
  have "ws_connected (wt_c s) \<and> wt_owner s = None \<longrightarrow> part = []" using p(3) by (auto simp: part_ok_def ws_current_def)
  then show ?thesis using p by (auto simp: part_ok_def)
qed

text \<open>C22. The locking of the client: in every state that its threads can reach, \<open>connected_\<close> is not in a data race, and
\<open>fd_\<close> only where the reader reads it for its next receive, which it does without the mutex; and no step changes
one of the two while another thread is at an access to it but in that case.\<close>

theorem ws_only_fd_races:
  assumes "ws_fine_run os ready (ws_threads_of st) es = (s, evs)"
  shows "(ws_race s x \<longrightarrow> x = FdMember \<and> (\<exists>stage acc. wt_reader s = RdRead stage acc))
    \<and> (ws_fine_step os ready s (WsGo t) = Some (s', a) \<and> \<not> ws_kept x (wt_c s) (wt_c s') \<and> u \<noteq> t \<and> ws_accesses s u x wr
        \<longrightarrow> x = FdMember \<and> (\<exists>stage acc. wt_reader s = RdRead stage acc))"
proof -
  have n: "x = FdMember \<and> (\<exists>stage acc. wt_reader s = RdRead stage acc)"
    if "t1 \<noteq> t2" "ws_accesses s t1 x True" "ws_accesses s t2 x b" for t1 t2 b
  proof -
    have "\<not> (ws_inside s t1 \<and> ws_inside s t2)" using ws_locks.exclusive [OF ws_reachable_locked [OF assms]] that(1) by blast
    then show ?thesis using ws_access_inside [OF that(2)] ws_access_inside [OF that(3)] by blast
  qed
  have "ws_race s x \<longrightarrow> x = FdMember \<and> (\<exists>stage acc. wt_reader s = RdRead stage acc)" unfolding ws_race_def using n by blast
  then show ?thesis using n [of t u wr] ws_accesses_sound [of os ready s t s' a x] by blast
qed

text \<open>C23. \<open>close\<close> returns when receives do: called while nobody sends, it is through after as many turns of the
reader and the closer as there is work left, whatever else the schedule has, with the reader ended, the
connection closed and the mutex free: waiting for the reader cannot deadlock with the reader's own locking.\<close>

theorem ws_close_returns:
  assumes "ws_fine_run os ready (ws_threads_of st) es = (s, evs)" "wt_closer s \<noteq> ClIdle" "wt_caller s = (\<lambda>_. CIdle)"
    and "list_all close_round rs" "close_work s \<le> length rs"
    and "ws_fine_run os (\<lambda>_ _. True) s (concat rs) = (s', evs')"
  shows "wt_closer s' = ClDone \<and> wt_reader s' = RdEnd \<and> wt_owner s' = None
    \<and> \<not> ws_connected (wt_c s') \<and> ws_fd (wt_c s') = kInvalidFd"
proof -
  have c: "ws_closing s" using ws_reachable_locked [OF assms(1)] ws_reachable_closed_ok [OF assms(1)] assms(2,3)
    by (simp add: ws_closing_def)
  have s': "s' = foldl (ws_fine_next os (\<lambda>_ _. True)) s (concat rs)"
    using ws_fine_run_next [of os "\<lambda>_ _. True" s "concat rs"] assms(6) by simp
  have go: "list_all (\<lambda>r. {WsGo WsReader, WsGo WsCloser} \<subseteq> set r \<and> list_all (\<lambda>e. \<exists>t. e = WsGo t) r) rs"
    using assms(4) unfolding list_all_iff close_round_def by (metis (no_types, lifting) ws_turn.case ws_turn.exhaust)
  have "wt_closer s' = ClDone" unfolding s' by (rule close_run.rounds [OF c go assms(5)])
  moreover have "ws_closing s'" unfolding s'
    by (rule close_run.inv_steps [OF c]) (use go in \<open>auto simp: list_all_iff\<close>)
  moreover have "wt_owner s' = None" if i: "ws_closing s'" "wt_closer s' = ClDone"
  proof (rule ccontr)
    assume "wt_owner s' \<noteq> None"
    then obtain t where "ws_inside s' t" using i(1) unfolding ws_closing_def ws_locks.locked_def by auto
    then show False using i by (cases t) (auto simp: ws_inside_def ws_closing_def closed_ok_def)
  qed
  ultimately show ?thesis by (auto simp: ws_closing_def closed_ok_def)
qed




section \<open>Witnesses\<close>

text \<open>Two senders at work at the same time, three bytes a send, while the reader waits.\<close>

definition demo_senders :: "ws_turn list" where
  "demo_senders = [CallSend 0 0x1 [97], WsGo WsReader, CallSend 1 0x2 [1, 2], WsGo WsReader]
     @ concat (replicate 12 [WsGo (WsCaller 1), WsGo (WsCaller 0), WsGo WsReader])"

theorem ws_frames_never_mix_witness: "\<exists>s frames.
    ws_fine_run demo_os (\<lambda>_ _. False) (ws_threads_of (demo_client, demo_world_init)) demo_senders = (s, [(2, [1, 2]), (1, [97])])
    \<and> demo_sent (wt_w s) 3 = concat frames \<and> list_all2 client_frame frames [(2, [1, 2]), (1, [97])]"
proof -
  obtain s acc where r: "ws_fine_run demo_os (\<lambda>_ _. False) (ws_threads_of (demo_client, demo_world_init)) demo_senders = (s, acc)"
    by fastforce
  have "map_prod (\<lambda>s. (ws_connected (wt_c s), wt_owner s)) id
      (ws_fine_run demo_os (\<lambda>_ _. False) (ws_threads_of (demo_client, demo_world_init)) demo_senders)
    = ((True, None), [(2, [1, 2]), (1, [97])])" by code_simp
  then have f: "ws_connected (wt_c s)" "wt_owner s = None" "acc = [(2, [1, 2]), (1, [97])]" unfolding r by simp_all
  from ws_frames_never_mix [OF demo_tcp_laws demo_client_facts(1) r] f r show ?thesis by (auto simp: demo_client_facts)
qed

theorem ws_only_fd_races_witness: "\<exists>s.
    ws_fine_run demo_os (\<lambda>_ _. True) (ws_threads_of (demo_client, demo_world_init)) [WsGo WsReader, CallClose, WsGo WsCloser] = (s, [])
    \<and> {x. ws_race s x} = {FdMember}"
proof -
  obtain s where r: "ws_fine_run demo_os (\<lambda>_ _. True) (ws_threads_of (demo_client, demo_world_init))
      [WsGo WsReader, CallClose, WsGo WsCloser] = (s, [])" "wt_reader s = RdRead SHeader []" "wt_closer s = ClIn"
    by (simp add: ws_fine_step_def ws_steps ws_threads_of_def Let_def reader_stopped_def demo_os_def demo_client_def ws_client_init_def)
  have "ws_race s FdMember" unfolding ws_race_def
    by (rule exI [of _ WsCloser], rule exI [of _ WsReader], rule exI [of _ False]) (simp add: ws_accesses_def r)
  moreover have "ws_race s x \<Longrightarrow> x = FdMember" for x using ws_only_fd_races [OF r(1)] by blast
  ultimately show ?thesis using r(1) by blast
qed

definition demo_close_round :: "ws_turn list" where
  "demo_close_round = [WsGo WsReader, WsGo WsCloser]"

lemma demo_close_rounds: "list_all close_round (replicate n demo_close_round)"
  by (simp add: list_all_iff close_round_def demo_close_round_def)

lemma demo_receiving:
  "ws_fine_run demo_os ready (ws_threads_of (demo_client, demo_world_init)) [WsGo WsReader, WsGo WsReader]
    = ((ws_threads_of (demo_client, demo_world_init))\<lparr>wt_reader := RdRecv SHeader [] 3\<rparr>, [])"
  by (simp add: ws_fine_step_def ws_steps ws_threads_of_def Let_def reader_stopped_def demo_os_def demo_client_def ws_client_init_def stage_length_def)

text \<open>The hang-up comes while the reader is in a receive.\<close>

theorem ws_close_returns_witness: "\<exists>s s' evs'.
    ws_fine_run demo_os (\<lambda>_ _. True) (ws_threads_of (demo_client, demo_world_init)) [WsGo WsReader, WsGo WsReader, CallClose] = (s, [])
    \<and> ws_fine_run demo_os (\<lambda>_ _. True) s (concat (replicate 24 demo_close_round)) = (s', evs')
    \<and> wt_closer s' = ClDone \<and> wt_reader s' = RdEnd"
proof -
  let ?s = "(ws_threads_of (demo_client\<lparr>ws_readerStop := True\<rparr>, demo_world_init))\<lparr>wt_reader := RdRecv SHeader [] 3, wt_closer := ClWant\<rparr>"
  have r: "ws_fine_run demo_os (\<lambda>_ _. True) (ws_threads_of (demo_client, demo_world_init)) [WsGo WsReader, WsGo WsReader, CallClose] = (?s, [])"
    by (simp add: ws_fine_step_def ws_steps ws_threads_of_def Let_def reader_stopped_def demo_os_def demo_client_def ws_client_init_def stage_length_def)
  obtain s' evs' where f: "ws_fine_run demo_os (\<lambda>_ _. True) ?s (concat (replicate 24 demo_close_round)) = (s', evs')" by fastforce
  have "wt_closer ?s \<noteq> ClIdle" "wt_caller ?s = (\<lambda>_. CIdle)" "close_work ?s \<le> length (replicate 24 demo_close_round)"
    by (simp_all add: ws_threads_of_def close_work_def reader_work_def closer_work_def stage_length_def)
  from ws_close_returns [OF r this(1,2) demo_close_rounds this(3) f] r f show ?thesis by blast
qed



end
