(* ===== verification/Media_Session.thy ===== *)
theory Media_Session
  imports G711 Resample Rtp_Packet Jitter_Buffer Rtp_Stats Rfc4733 Bounded_Queue Udp_Socket Ws_Client
begin

text \<open>
  The class \<open>MediaSession\<close> of src/src/app/main.cpp: one call's media pipeline. The record has the members
  of the class, and for each of the three threads whether it runs. One turn of a thread is one iteration
  of its loop; the threads' turns may come in any order, so a schedule is a list of turns. A turn is
  atomic here: the queue, the statistics, the remote endpoint and the WebSocket client are each behind a
  mutex in the code; the jitter buffer is not. The theory Media_Threads has the steps below a turn.

  \<open>std::printf\<close> and the pacing sleeps are left out. The exceptions that the loops catch are the error
  values of the socket operations.
\<close>

section \<open>State\<close>

record media_session =
  ms_sock :: udp_socket
  ms_remote :: endpoint
  ms_remoteLatched :: bool
  ms_payloadType :: int
  ms_dtmfPayloadType :: int
  ms_active :: bool
  ms_queue :: "rtp_packet bounded_queue"
  ms_jitter :: jitter_buffer
  ms_rtpStats :: rtp_stats
  ms_dtmf :: dtmf_decoder
  ms_ws :: ws_client
  ms_wsUrl :: string
  ms_outSsrc :: u32
  ms_outSeq :: u16
  ms_outTs :: u32
  ms_recvThread :: bool
  ms_playoutThread :: bool
  ms_outputThread :: bool

type_synonym 'w media_state = "media_session \<times> 'w"

text \<open>The constructor; when \<open>bind\<close> throws, the members built so far are destroyed.\<close>

definition media_init :: "udp_socket \<Rightarrow> string \<Rightarrow> media_session" where
  "media_init sock wsUrl = \<lparr>ms_sock = sock, ms_remote = endpoint_init, ms_remoteLatched = False,
     ms_payloadType = 0, ms_dtmfPayloadType = - 1, ms_active = False,
     ms_queue = bq_new 200, ms_jitter = jb_new \<lparr>targetDepth = 3, capacity = 100\<rparr>,
     ms_rtpStats = rs_new 8000, ms_dtmf = dtmf_decoder_init, ms_ws = ws_client_init, ms_wsUrl = wsUrl,
     ms_outSsrc = 0x51D0DE70, ms_outSeq = 0, ms_outTs = 0,
     ms_recvThread = False, ms_playoutThread = False, ms_outputThread = False\<rparr>"

definition media_new :: "'w net_os \<Rightarrow> string \<Rightarrow> u16 \<Rightarrow> string \<Rightarrow> 'w \<Rightarrow> (string + media_session) \<times> 'w" where
  "media_new os localIp rtpPort wsUrl w =
    (case udp_new os w of
       (Inl e, w) \<Rightarrow> (Inl e, w)
     | (Inr sock, w) \<Rightarrow>
         (case udp_bind os sock localIp rtpPort w of
            (Inl e, sock, w) \<Rightarrow> (Inl e, udp_destroy os sock w)
          | (Inr _, sock, w) \<Rightarrow> (Inr (media_init sock wsUrl), w)))"

definition media_start :: "'w net_os \<Rightarrow> media_session \<Rightarrow> endpoint \<Rightarrow> int \<Rightarrow> int \<Rightarrow> 'w \<Rightarrow> 'w media_state" where
  "media_start os m remote pt dtmfPt w =
    (let m = m\<lparr>ms_remote := remote, ms_remoteLatched := False, ms_payloadType := pt,
           ms_dtmfPayloadType := dtmfPt, ms_dtmf := dtmf_reset (ms_dtmf m), ms_active := True\<rparr>;
         (ws, w) = (if ms_wsUrl m \<noteq> [] then snd (ws_connect os (ms_ws m) (ms_wsUrl m) w) else (ms_ws m, w))
     in (m\<lparr>ms_ws := ws, ms_recvThread := True, ms_playoutThread := True, ms_outputThread := True\<rparr>, w))"

section \<open>The receiving thread\<close>

definition dtmf_json :: "char \<Rightarrow> string" where
  "dtmf_json digit =
    (let q = [CHR 0x22]
     in ''{'' @ q @ ''type'' @ q @ '':'' @ q @ ''dtmf'' @ q @ '','' @ q @ ''digit'' @ q @ '':'' @ q @ [digit] @ q @ ''}'')"

definition media_onDtmfDigit :: "'w net_os \<Rightarrow> media_session \<Rightarrow> char \<Rightarrow> 'w \<Rightarrow> 'w media_state" where
  "media_onDtmfDigit os m digit w =
    (let (ok, ws, w) = ws_sendText os (ms_ws m) (dtmf_json digit) w in (m\<lparr>ms_ws := ws\<rparr>, w))"

definition media_latch :: "media_session \<Rightarrow> endpoint \<Rightarrow> media_session" where
  "media_latch m src =
    (if \<not> ms_remoteLatched m then m\<lparr>ms_remote := src, ms_remoteLatched := True\<rparr>
     else if src \<noteq> ms_remote m then m\<lparr>ms_remote := src\<rparr>
     else m)"

text \<open>What a turn did, for the theorems: a packet put into the jitter buffer, a pop of it, a digit, an echo.\<close>

datatype media_event = Inserted rtp_packet | Popped | Pressed char | Echoed rtp_packet

definition rtp_parsed :: "bytes \<Rightarrow> rtp_packet option" where
  "rtp_parsed data = Option.bind (rtp_parse data) id"

text \<open>The part of the loop body after a packet was parsed.\<close>

definition media_packet :: "'w net_os \<Rightarrow> media_session \<Rightarrow> endpoint \<Rightarrow> rtp_packet \<Rightarrow> 'w \<Rightarrow> 'w media_state \<times> media_event list" where
  "media_packet os m src pkt w =
    (let m = media_latch m src
     in if ms_dtmfPayloadType m \<ge> 0 \<and> uint (payloadType pkt) = ms_dtmfPayloadType m then
          (case dtmf_feed (ms_dtmf m) (payload pkt) of
             None \<Rightarrow> ((m, w), [])
           | Some (d, None) \<Rightarrow> ((m\<lparr>ms_dtmf := d\<rparr>, w), [])
           | Some (d, Some digit) \<Rightarrow> (media_onDtmfDigit os (m\<lparr>ms_dtmf := d\<rparr>) digit w, [Pressed digit]))
        else
          (let m = m\<lparr>ms_rtpStats := rs_update (ms_rtpStats m) (sequence pkt) (timestamp pkt) (os_now os w)\<rparr>;
               m = m\<lparr>ms_jitter := jb_insert (ms_jitter m) pkt\<rparr>
           in ((m, w), [Inserted pkt])))"

definition media_recv_turn :: "'w net_os \<Rightarrow> 'w media_state \<Rightarrow> 'w media_state \<times> media_event list" where
  "media_recv_turn os = (\<lambda>(m, w).
    if \<not> ms_active m then ((m\<lparr>ms_recvThread := False\<rparr>, w), [])
    else
      (case udp_recvFrom os (ms_sock m) 200 w of
         (Inl _, w) \<Rightarrow> ((m, w), [])
       | (Inr None, w) \<Rightarrow> ((m, w), [])
       | (Inr (Some dg), w) \<Rightarrow>
           (case rtp_parsed (dg_data dg) of
              None \<Rightarrow> ((m, w), [])
            | Some pkt \<Rightarrow> media_packet os m (dg_from dg) pkt w)))"

section \<open>The playout thread\<close>

definition media_playout_turn :: "'w media_state \<Rightarrow> 'w media_state \<times> media_event list" where
  "media_playout_turn = (\<lambda>(m, w).
    if \<not> ms_active m then ((m\<lparr>ms_playoutThread := False\<rparr>, w), [])
    else
      (let (jitter, pkt, lost) = jb_pop (ms_jitter m); m = m\<lparr>ms_jitter := jitter\<rparr>
       in case pkt of
            None \<Rightarrow> ((m, w), [Popped])
          | Some p \<Rightarrow> ((m\<lparr>ms_queue := snd (bq_tryPush (ms_queue m) p)\<rparr>, w), [Popped])))"

section \<open>The output thread\<close>

text \<open>The bytes of \<open>int16_t\<close> samples as they lie in memory on a little-endian machine.\<close>

definition pcm_bytes :: "u16 list \<Rightarrow> bytes" where
  "pcm_bytes pcm = concat (map (\<lambda>s. [ucast s, ucast (drop_bit 8 s)]) pcm)"

definition media_decode :: "int \<Rightarrow> bytes \<Rightarrow> u16 list" where
  "media_decode pt codes = (if pt = 8 then decodeALaw_bulk codes else decodeMuLaw_bulk codes)"

definition media_encode :: "int \<Rightarrow> u16 list \<Rightarrow> bytes" where
  "media_encode pt pcm = (if pt = 8 then encodeALaw_bulk pcm else encodeMuLaw_bulk pcm)"

definition media_out_packet :: "media_session \<Rightarrow> u16 list \<Rightarrow> rtp_packet" where
  "media_out_packet m pcm =
    rtp_packet_init\<lparr>payloadType := word_of_int (ms_payloadType m), sequence := ms_outSeq m,
      timestamp := ms_outTs m, ssrc := ms_outSsrc m, payload := media_encode (ms_payloadType m) pcm\<rparr>"

definition media_echo :: "'w net_os \<Rightarrow> media_session \<Rightarrow> rtp_packet \<Rightarrow> 'w \<Rightarrow> 'w media_state" where
  "media_echo os m pkt w =
    (let pcm = media_decode (ms_payloadType m) (payload pkt);
         (ws, w) = (if ws_connected (ms_ws m) \<and> pcm \<noteq> []
                    then snd (ws_sendBinary os (ms_ws m) (pcm_bytes (upsample8kTo16k pcm)) w) else (ms_ws m, w));
         m = m\<lparr>ms_ws := ws\<rparr>;
         out = media_out_packet m pcm;
         m = m\<lparr>ms_outSeq := ms_outSeq m + 1, ms_outTs := ms_outTs m + of_nat (length pcm)\<rparr>;
         (sent, w) = udp_sendTo os (ms_sock m) (rtp_serialize out) (ms_remote m) w
     in (m, w))"

text \<open>A turn that would block changes nothing; the loop ends when the queue is closed and drained.\<close>

definition media_output_turn :: "'w net_os \<Rightarrow> 'w media_state \<Rightarrow> 'w media_state \<times> media_event list" where
  "media_output_turn os = (\<lambda>(m, w).
    case bq_pop (ms_queue m) of
      None \<Rightarrow> ((m, w), [])
    | Some (None, q) \<Rightarrow> ((m\<lparr>ms_queue := q, ms_outputThread := False\<rparr>, w), [])
    | Some (Some pkt, q) \<Rightarrow> (media_echo os (m\<lparr>ms_queue := q\<rparr>) pkt w, [Echoed pkt]))"

section \<open>Schedules\<close>

datatype media_turn = RecvTurn | PlayoutTurn | OutputTurn

definition media_turn_of :: "'w net_os \<Rightarrow> 'w media_state \<Rightarrow> media_turn \<Rightarrow> 'w media_state \<times> media_event list" where
  "media_turn_of os st t =
    (case t of
       RecvTurn \<Rightarrow> if ms_recvThread (fst st) then media_recv_turn os st else (st, [])
     | PlayoutTurn \<Rightarrow> if ms_playoutThread (fst st) then media_playout_turn st else (st, [])
     | OutputTurn \<Rightarrow> if ms_outputThread (fst st) then media_output_turn os st else (st, []))"

fun media_run :: "'w net_os \<Rightarrow> 'w media_state \<Rightarrow> media_turn list \<Rightarrow> 'w media_state \<times> media_event list" where
  "media_run os st [] = (st, [])"
| "media_run os st (t # ts) =
    (let (st, a) = media_turn_of os st t; (st, b) = media_run os st ts in (st, a @ b))"

section \<open>Stopping\<close>

text \<open>
  With \<open>active_\<close> false and the queue closed, the receiving and the playout thread end at their next
  test, and the output thread drains the queue; the joins wait for exactly that.
\<close>

lemma media_echo_frame:
  "media_echo os m pkt w = (m', w') \<Longrightarrow>
    m' = m\<lparr>ms_ws := ms_ws m', ms_outSeq := ms_outSeq m + 1,
      ms_outTs := ms_outTs m + of_nat (length (media_decode (ms_payloadType m) (payload pkt)))\<rparr>"
  by (auto simp: media_echo_def Let_def split: prod.splits if_splits)

function media_drain :: "'w net_os \<Rightarrow> 'w media_state \<Rightarrow> 'w media_state" where
  "media_drain os st =
    (if ms_outputThread (fst st) \<and> bq_items (ms_queue (fst st)) \<noteq> [] then
       (case st of (m, w) \<Rightarrow>
          media_drain os (media_echo os (m\<lparr>ms_queue := (ms_queue m)\<lparr>bq_items := tl (bq_items (ms_queue m))\<rparr>\<rparr>)
            (hd (bq_items (ms_queue m))) w))
     else st)"
  by pat_completeness auto
termination
proof (relation "measure (\<lambda>(os, st). length (bq_items (ms_queue (fst st))))")
  fix os :: "'w net_os" and st :: "'w media_state" and m w
  assume a: "ms_outputThread (fst st) \<and> bq_items (ms_queue (fst st)) \<noteq> []" "(m, w) = st"
  let ?q = "(ms_queue m)\<lparr>bq_items := tl (bq_items (ms_queue m))\<rparr>"
  obtain m' w' where e: "media_echo os (m\<lparr>ms_queue := ?q\<rparr>) (hd (bq_items (ms_queue m))) w = (m', w')" by fastforce
  have "ms_queue m' = ?q" using arg_cong [OF media_echo_frame [OF e], of ms_queue] by simp
  then show "((os, media_echo os (m\<lparr>ms_queue := ?q\<rparr>) (hd (bq_items (ms_queue m))) w), (os, st))
      \<in> measure (\<lambda>(os, st). length (bq_items (ms_queue (fst st))))" using a by (auto simp: e)
qed simp

declare media_drain.simps [simp del]

definition media_stop :: "'w net_os \<Rightarrow> 'w media_state \<Rightarrow> 'w media_state" where
  "media_stop os = (\<lambda>(m, w).
    if \<not> ms_active m then (m, w)
    else
      (let m = m\<lparr>ms_active := False, ms_queue := bq_close (ms_queue m),
             ms_recvThread := False, ms_playoutThread := False\<rparr>;
           (m, w) = media_drain os (m, w);
           (ws, w) = ws_close os (ms_ws m) w
       in (m\<lparr>ms_outputThread := False, ms_ws := ws\<rparr>, w)))"

text \<open>The destructor: \<open>stop\<close>, then the members, the WebSocket client and the socket closing theirs.\<close>

definition media_destroy :: "'w net_os \<Rightarrow> 'w media_state \<Rightarrow> 'w" where
  "media_destroy os st =
    (let (m, w) = media_stop os st; (ws, w) = ws_close os (ms_ws m) w in udp_destroy os (ms_sock m) w)"

section \<open>The statistics line\<close>

record media_stats =
  mst_recv :: u64
  mst_loss :: real
  mst_reorder :: u64
  mst_jitter :: real
  mst_jbuf :: nat
  mst_q :: nat

definition media_printStats :: "media_session \<Rightarrow> media_stats" where
  "media_printStats m =
    (let js = jb_stats (ms_jitter m)
     in \<lparr>mst_recv = rs_received (ms_rtpStats m), mst_loss = rs_lossFraction (ms_rtpStats m) * 100,
         mst_reorder = rs_reordered (ms_rtpStats m), mst_jitter = rs_jitterMs (ms_rtpStats m),
         mst_jbuf = st_currentDepth js, mst_q = bq_size (ms_queue m)\<rparr>)"

section \<open>What a schedule did\<close>

definition jops :: "media_event list \<Rightarrow> jb_op list" where
  "jops evs = concat (map (\<lambda>e. case e of Inserted p \<Rightarrow> [JInsert p] | Popped \<Rightarrow> [JPop] | _ \<Rightarrow> []) evs)"

definition echoed :: "media_event list \<Rightarrow> rtp_packet list" where
  "echoed evs = concat (map (\<lambda>e. case e of Echoed p \<Rightarrow> [p] | _ \<Rightarrow> []) evs)"

lemma jops_simps [simp]: "jops [] = []" "jops (a @ b) = jops a @ jops b" "jops [Inserted p] = [JInsert p]"
  "jops [Popped] = [JPop]" "jops [Pressed d] = []" "jops [Echoed p] = []"
  by (simp_all add: jops_def)

lemma echoed_simps [simp]: "echoed [] = []" "echoed (a @ b) = echoed a @ echoed b" "echoed [Inserted p] = []"
  "echoed [Popped] = []" "echoed [Pressed d] = []" "echoed [Echoed p] = [p]"
  by (simp_all add: echoed_def)

text \<open>The packets that the session sends for the packets it plays.\<close>

fun echo_stream :: "int \<Rightarrow> u32 \<Rightarrow> u16 \<Rightarrow> u32 \<Rightarrow> rtp_packet list \<Rightarrow> rtp_packet list" where
  "echo_stream pt src seq ts [] = []"
| "echo_stream pt src seq ts (p # ps) =
    rtp_packet_init\<lparr>payloadType := word_of_int pt, sequence := seq, timestamp := ts, ssrc := src,
      payload := media_encode pt (media_decode pt (payload p))\<rparr>
    # echo_stream pt src (seq + 1) (ts + of_nat (length (media_decode pt (payload p)))) ps"

text \<open>
  Sending may fail: an address may not convert, the network may refuse. With \<open>sends_work\<close> no send
  fails: the textual addresses the system writes convert back, and the peer's does.
\<close>

definition datagrams_work :: "'w net_os \<Rightarrow> bool" where
  "datagrams_work os \<longleftrightarrow> (\<forall>a. os_pton os (os_ntop os a) \<noteq> None) \<and> (\<forall>fd d a w. 0 \<le> fst (os_sendto os fd d a w))"

definition sends_work :: "'w net_os \<Rightarrow> endpoint \<Rightarrow> bool" where
  "sends_work os dest \<longleftrightarrow> datagrams_work os \<and> os_pton os (ep_ip dest) \<noteq> None"

definition sent_data :: "('w \<Rightarrow> (int \<times> bytes \<times> sockaddr) list) \<Rightarrow> 'w \<Rightarrow> bytes list" where
  "sent_data out w = map (\<lambda>e. fst (snd e)) (out w)"

text \<open>Between two states the session sent some of the datagrams \<open>ds\<close>, in order: all of them when sends work.\<close>

definition delivered :: "'w net_os \<Rightarrow> ('w \<Rightarrow> (int \<times> bytes \<times> sockaddr) list) \<Rightarrow> 'w media_state \<Rightarrow> 'w media_state \<Rightarrow> bytes list \<Rightarrow> bool" where
  "delivered os out st st' ds \<longleftrightarrow> (\<exists>ss. sent_data out (snd st') = sent_data out (snd st) @ ss \<and> subseq ss ds
    \<and> (sends_work os (ms_remote (fst st)) \<longrightarrow> sends_work os (ms_remote (fst st')) \<and> ss = ds))"

lemma delivered_none:
  assumes "out w' = out w" "sends_work os (ms_remote m) \<Longrightarrow> sends_work os (ms_remote m')"
  shows "delivered os out (m, w) (m', w') []"
  using assms by (simp add: delivered_def sent_data_def)

lemma delivered_trans:
  assumes "delivered os out st st1 a" "delivered os out st1 st2 b"
  shows "delivered os out st st2 (a @ b)"
proof -
  obtain ss where a: "sent_data out (snd st1) = sent_data out (snd st) @ ss" "subseq ss a"
    "sends_work os (ms_remote (fst st)) \<longrightarrow> sends_work os (ms_remote (fst st1)) \<and> ss = a"
    using assms(1) unfolding delivered_def by blast
  obtain rs where b: "sent_data out (snd st2) = sent_data out (snd st1) @ rs" "subseq rs b"
    "sends_work os (ms_remote (fst st1)) \<longrightarrow> sends_work os (ms_remote (fst st2)) \<and> rs = b"
    using assms(2) unfolding delivered_def by blast
  show ?thesis unfolding delivered_def
    by (rule exI [of _ "ss @ rs"]) (use a b in \<open>simp add: list_emb_append_mono\<close>)
qed

lemma delivered_send:
  assumes "udp_laws os out" "udp_sendTo os s d (ms_remote m) w = (r, w')" "ms_remote m' = ms_remote m"
  shows "delivered os out (m, w) (m', w') [d]"
proof (cases "os_pton os (ep_ip (ms_remote m))")
  case None
  then show ?thesis using assms(2) unfolding delivered_def
    by (intro exI [of _ "[]"]) (simp add: udp_sendTo_def sends_work_def)
next
  case (Some a)
  obtain n v where n: "os_sendto os (us_fd s) d \<lparr>sa_addr = a, sa_port = ep_port (ms_remote m)\<rparr> w = (n, v)" by fastforce
  have v: "w' = v" using assms(2) Some n by (auto simp: udp_sendTo_def split: if_splits)
  have "sends_work os (ms_remote m) \<Longrightarrow> 0 \<le> n" using n by (metis sends_work_def datagrams_work_def fst_conv)
  then show ?thesis using udp_law_sendto [OF assms(1) n] assms(3) unfolding delivered_def v
    by (intro exI [of _ "if n < 0 then [] else [d]"]) (auto simp: sent_data_def)
qed

section \<open>The WebSocket side leaves the datagrams alone\<close>

lemma sendAll_out: "udp_laws os out \<Longrightarrow> sendAll os fd data off w = (ok, w') \<Longrightarrow> out w' = out w"
proof (induction os fd data off w rule: sendAll.induct)
  case (1 os fd data off w)
  obtain n v where n: "os_send os fd (drop off data) w = (n, v)" by fastforce
  note same = udp_law_same(3) [OF 1(2) n]
  show ?case
  proof (cases "off < length data \<and> \<not> n \<le> 0")
    case True
    then have "sendAll os fd data (off + nat n) v = (ok, w')" using 1(3) n by (simp add: sendAll.simps [of os fd data off w])
    then show ?thesis using 1(1) [OF _ n [symmetric]] True 1(2) same by simp
  next
    case False
    then show ?thesis using 1(3) n same by (auto simp: sendAll.simps [of os fd data off w] split: if_splits)
  qed
qed

lemma sendFrame_out:
  assumes "udp_laws os out" "sendFrameUnlocked os c op d w = (ok, c', w')"
  shows "out w' = out w"
  using assms(2) by (auto simp: sendFrameUnlocked_def random_mask_def ws_closeFdUnlocked_def udp_law_same [OF assms(1)]
      sendAll_out [OF assms(1)] split: if_splits option.splits prod.splits)

section \<open>One turn\<close>

text \<open>Fields no turn changes.\<close>

definition same_call :: "media_session \<Rightarrow> media_session \<Rightarrow> bool" where
  "same_call m m' \<longleftrightarrow> ms_payloadType m' = ms_payloadType m \<and> ms_dtmfPayloadType m' = ms_dtmfPayloadType m
    \<and> ms_sock m' = ms_sock m \<and> ms_outSsrc m' = ms_outSsrc m \<and> ms_active m' = ms_active m"

text \<open>The effect of a part of a run on the pipeline.\<close>

definition pipeline :: "'w net_os \<Rightarrow> ('w \<Rightarrow> (int \<times> bytes \<times> sockaddr) list) \<Rightarrow> 'w media_state \<Rightarrow> 'w media_state \<Rightarrow> media_event list \<Rightarrow> bool" where
  "pipeline os out st st' evs \<longleftrightarrow> (case (st, st') of ((m, w), (m', w')) \<Rightarrow>
    same_call m m'
    \<and> ms_jitter m' = fst (jb_run (ms_jitter m) (jops evs))
    \<and> subseq (echoed evs @ bq_items (ms_queue m')) (bq_items (ms_queue m) @ snd (jb_run (ms_jitter m) (jops evs)))
    \<and> delivered os out st st' (map rtp_serialize
        (echo_stream (ms_payloadType m) (ms_outSsrc m) (ms_outSeq m) (ms_outTs m) (echoed evs)))
    \<and> ms_outSeq m' = ms_outSeq m + of_nat (length (echoed evs))
    \<and> ms_outTs m' = ms_outTs m + of_nat (sum_list (map (\<lambda>p. length (media_decode (ms_payloadType m) (payload p))) (echoed evs))))"

lemma echo_stream_append: "echo_stream pt src seq ts (a @ b) = echo_stream pt src seq ts a
    @ echo_stream pt src (seq + of_nat (length a))
        (ts + of_nat (sum_list (map (\<lambda>p. length (media_decode pt (payload p))) a))) b"
  by (induction a arbitrary: seq ts) (simp_all add: algebra_simps)

lemma pipeline_trans:
  assumes "pipeline os out st st1 a" "pipeline os out st1 st2 b"
  shows "pipeline os out st st2 (a @ b)"
proof -
  obtain m w where st: "st = (m, w)" by fastforce
  obtain m1 w1 where st1: "st1 = (m1, w1)" by fastforce
  obtain m2 w2 where st2: "st2 = (m2, w2)" by fastforce
  note A = assms(1) [unfolded pipeline_def st st1 prod.case] and B = assms(2) [unfolded pipeline_def st1 st2 prod.case]
  have "subseq (echoed a @ echoed b @ bq_items (ms_queue m2)) (echoed a @ bq_items (ms_queue m1) @ snd (jb_run (ms_jitter m1) (jops b)))"
    using B by (metis list_emb_append_mono subseq_order.order_refl)
  also have "subseq \<dots> (bq_items (ms_queue m) @ snd (jb_run (ms_jitter m) (jops a)) @ snd (jb_run (ms_jitter m1) (jops b)))"
    using A by (metis append.assoc list_emb_append_mono subseq_order.order_refl)
  finally have "subseq (echoed (a @ b) @ bq_items (ms_queue m2)) (bq_items (ms_queue m) @ snd (jb_run (ms_jitter m) (jops (a @ b))))"
    using A by (simp add: jb_run_append split_beta Let_def)
  moreover have "delivered os out (m, w) (m2, w2) (map rtp_serialize
      (echo_stream (ms_payloadType m) (ms_outSsrc m) (ms_outSeq m) (ms_outTs m) (echoed (a @ b))))"
    using delivered_trans [of os out "(m, w)" "(m1, w1)" _ "(m2, w2)"] A B unfolding st st1 st2
    by (simp add: same_call_def echo_stream_append)
  ultimately show ?thesis using A B
    unfolding pipeline_def st st2 prod.case
    by (simp add: same_call_def jb_run_append split_beta Let_def algebra_simps)
qed

lemma pipeline_refl [simp]: "pipeline os out st st []"
  by (simp add: pipeline_def same_call_def delivered_none split: prod.split)

lemma same_call_latch: "same_call m (media_latch m src)" "ms_jitter (media_latch m src) = ms_jitter m"
  "ms_queue (media_latch m src) = ms_queue m" "ms_outSeq (media_latch m src) = ms_outSeq m"
  "ms_outTs (media_latch m src) = ms_outTs m" "ms_ws (media_latch m src) = ms_ws m"
  by (simp_all add: media_latch_def same_call_def)

lemma pipeline_packet:
  assumes "udp_laws os out" "media_packet os m src pkt w = (st', evs)"
    and "datagrams_work os \<Longrightarrow> os_pton os (ep_ip src) \<noteq> None"
  shows "pipeline os out (m, w) st' evs"
proof -
  let ?m = "media_latch m src"
  note l = same_call_latch [of m src, unfolded same_call_def]
  have n: "delivered os out (m, w) (m', v) []" if "out v = out w" "ms_remote m' = ms_remote ?m" for m' v
    by (rule delivered_none) (use that assms(3) in \<open>auto simp: sends_work_def media_latch_def\<close>)
  show ?thesis
  proof (cases "ms_dtmfPayloadType ?m \<ge> 0 \<and> uint (payloadType pkt) = ms_dtmfPayloadType ?m")
    case True
    obtain d digit where f: "dtmf_feed (ms_dtmf ?m) (payload pkt) = Some (d, digit)" using dtmf_feed_safe by blast
    show ?thesis
    proof (cases digit)
      case None
      then show ?thesis using assms(2) True f l by (auto simp: media_packet_def pipeline_def same_call_def n)
    next
      case (Some c)
      obtain ok ws v where s: "ws_sendText os (ms_ws ?m) (dtmf_json c) w = (ok, ws, v)" by (metis surj_pair)
      have "out v = out w" using s by (auto simp: ws_sendText_def dest: sendFrame_out [OF assms(1)])
      then show ?thesis using assms(2) True f l s Some
        by (auto simp: media_packet_def media_onDtmfDigit_def pipeline_def same_call_def n)
    qed
  next
    case False
    then show ?thesis using assms(2) l by (auto simp: media_packet_def pipeline_def same_call_def Let_def n)
  qed
qed

lemma pipeline_recv:
  assumes "udp_laws os out" "media_recv_turn os (m, w) = (st', evs)"
  shows "pipeline os out (m, w) st' evs"
proof (cases "ms_active m")
  case True
  obtain r v where r: "udp_recvFrom os (ms_sock m) 200 w = (r, v)" by fastforce
  have o: "out v = out w" using udp_recv_out [OF assms(1), of "ms_sock m" 200 w] r by simp
  have same: "pipeline os out (m, w) (m, v) []" using o by (simp add: pipeline_def same_call_def delivered_none)
  show ?thesis
  proof (cases "\<exists>dg pkt. r = Inr (Some dg) \<and> rtp_parsed (dg_data dg) = Some pkt")
    case True
    then obtain dg pkt where dg: "r = Inr (Some dg)" "rtp_parsed (dg_data dg) = Some pkt" by blast
    then have "media_packet os m (dg_from dg) pkt v = (st', evs)"
      using assms(2) \<open>ms_active m\<close> r by (simp add: media_recv_turn_def)
    moreover have "datagrams_work os \<Longrightarrow> os_pton os (ep_ip (dg_from dg)) \<noteq> None"
      using r dg(1) by (auto simp: datagrams_work_def udp_recvFrom_def udp_read_def Let_def
          split: if_splits prod.splits option.splits)
    ultimately show ?thesis using pipeline_trans [OF same pipeline_packet [OF assms(1)]] by fastforce
  next
    case False
    then show ?thesis using assms(2) \<open>ms_active m\<close> r same
      by (auto simp: media_recv_turn_def split: sum.splits option.splits)
  qed
next
  case False
  then show ?thesis using assms(2) by (auto simp: media_recv_turn_def pipeline_def same_call_def delivered_none)
qed

lemma pipeline_playout:
  assumes "media_playout_turn (m, w) = (st', evs)"
  shows "pipeline os out (m, w) st' evs"
proof (cases "ms_active m")
  case True
  obtain jb pkt lost where p: "jb_pop (ms_jitter m) = (jb, pkt, lost)" by (metis surj_pair)
  show ?thesis using assms True p
    by (cases pkt) (auto simp: media_playout_turn_def pipeline_def same_call_def bq_tryPush_def delivered_none Let_def)
next
  case False
  then show ?thesis using assms by (auto simp: media_playout_turn_def pipeline_def same_call_def delivered_none)
qed

lemma pipeline_echo:
  assumes "udp_laws os out" "media_echo os m pkt w = (m', w')"
  shows "same_call m m' \<and> ms_jitter m' = ms_jitter m \<and> ms_queue m' = ms_queue m
    \<and> delivered os out (m, w) (m', w') (map rtp_serialize
        (echo_stream (ms_payloadType m) (ms_outSsrc m) (ms_outSeq m) (ms_outTs m) [pkt]))
    \<and> ms_outSeq m' = ms_outSeq m + 1
    \<and> ms_outTs m' = ms_outTs m + of_nat (length (media_decode (ms_payloadType m) (payload pkt)))"
proof -
  let ?pcm = "media_decode (ms_payloadType m) (payload pkt)"
  obtain ws v where v: "(if ws_connected (ms_ws m) \<and> ?pcm \<noteq> []
      then snd (ws_sendBinary os (ms_ws m) (pcm_bytes (upsample8kTo16k ?pcm)) w) else (ms_ws m, w)) = (ws, v)" by fastforce
  have o: "out v = out w"
  proof (cases "ws_connected (ms_ws m) \<and> ?pcm \<noteq> []")
    case True
    obtain ok where "sendFrameUnlocked os (ms_ws m) 2 (pcm_bytes (upsample8kTo16k ?pcm)) w = (ok, ws, v)"
      using v True by (metis ws_sendBinary_def prod.collapse snd_conv)
    then show ?thesis by (rule sendFrame_out [OF assms(1)])
  qed (use v in auto)
  obtain r u where u: "udp_sendTo os (ms_sock m) (rtp_serialize (media_out_packet m ?pcm)) (ms_remote m) v = (r, u)" by fastforce
  have w: "w' = u" using assms(2) v u by (simp add: media_echo_def media_out_packet_def)
  have "ms_remote m' = ms_remote m" using arg_cong [OF media_echo_frame [OF assms(2)], of ms_remote] by simp
  from delivered_send [OF assms(1) u this]
  have "delivered os out (m, w) (m', w') [rtp_serialize (media_out_packet m ?pcm)]"
    using o unfolding w by (simp add: delivered_def sent_data_def)
  moreover note f = media_echo_frame [OF assms(2)]
  moreover have "same_call m m'" "ms_jitter m' = ms_jitter m" "ms_queue m' = ms_queue m" "ms_outSeq m' = ms_outSeq m + 1"
      "ms_outTs m' = ms_outTs m + of_nat (length ?pcm)"
    by (subst f, simp add: same_call_def)+
  ultimately show ?thesis by (simp add: media_out_packet_def)
qed

lemma pipeline_output:
  assumes "udp_laws os out" "media_output_turn os (m, w) = (st', evs)"
  shows "pipeline os out (m, w) st' evs"
proof -
  consider "bq_pop (ms_queue m) = None" | q where "bq_pop (ms_queue m) = Some (None, q)"
    | pkt q where "bq_pop (ms_queue m) = Some (Some pkt, q)" by (metis not_None_eq surj_pair)
  then show ?thesis
  proof cases
    case 3
    obtain m' w' where e: "media_echo os (m\<lparr>ms_queue := q\<rparr>) pkt w = (m', w')" by fastforce
    have "bq_items (ms_queue m) = pkt # bq_items q" using 3 by (auto simp: bq_pop_def split: if_splits)
    then show ?thesis using assms(2) 3 e pipeline_echo [OF assms(1) e]
      by (auto simp: media_output_turn_def pipeline_def same_call_def delivered_def)
  qed (use assms(2) in \<open>auto simp: media_output_turn_def pipeline_def same_call_def bq_pop_def delivered_none split: if_splits\<close>)
qed

lemma pipeline_run:
  assumes "udp_laws os out" "media_run os st ts = (st', evs)"
  shows "pipeline os out st st' evs"
  using assms(2)
proof (induction ts arbitrary: st evs)
  case (Cons t ts)
  obtain st1 a where a: "media_turn_of os st t = (st1, a)" by fastforce
  obtain b where b: "media_run os st1 ts = (st', b)" "evs = a @ b" using Cons.prems a by (auto split: prod.splits)
  have "pipeline os out st st1 a" using a
    by (cases st) (auto simp: media_turn_of_def split: media_turn.splits if_splits
        intro: pipeline_recv [OF assms(1)] pipeline_playout pipeline_output [OF assms(1)])
  with Cons.IH [OF b(1)] show ?case unfolding b(2) by (rule pipeline_trans [rotated])
qed simp

section \<open>What is played was inserted\<close>

lemma jb_overflow_subset: "set (buf (jb_overflow jb)) \<subseteq> set (buf jb)"
  by (induction jb rule: jb_overflow.induct) (subst jb_overflow.simps, auto split: list.splits)

lemma omap_emplace_subset: "set (omap_emplace k v xs) \<subseteq> insert (k, v) (set xs)"
  by (induction xs) auto

lemma jb_insert_subset: "set (buf (jb_insert jb p)) \<subseteq> insert (jb_arrival jb p, p) (set (buf jb))"
  using jb_overflow_subset [of "jb_accept (jb_begin jb p) (jb_arrival jb p) p"]
    omap_emplace_subset [of "jb_arrival jb p" p "buf jb"]
  by (auto simp: jb_insert_cases Let_def jb_discard_def jb_accept_def)

lemma jb_pop_subset:
  "jb_pop jb = (jb1, r, l) \<Longrightarrow> set (buf jb1) \<subseteq> set (buf jb) \<and> (\<forall>p. r = Some p \<longrightarrow> p \<in> snd ` set (buf jb))"
  by (auto simp: jb_pop_def Let_def omap_erase_def split: if_splits option.splits dest!: map_of_SomeD)
    (force simp: image_iff)+

lemma jb_run_subset: "set (snd (jb_run jb es)) \<subseteq> snd ` set (buf jb) \<union> {p. JInsert p \<in> set es}"
proof (induction jb es rule: jb_run_induct)
  case (Insert jb p es)
  then show ?case using jb_insert_subset [of jb p] by fastforce
next
  case (Pop jb jb1 r l es)
  then show ?case using jb_pop_subset [OF Pop(1)] by (cases r) fastforce+
qed simp

section \<open>A session from its construction\<close>

definition session_start :: "media_session \<Rightarrow> int \<Rightarrow> int \<Rightarrow> bool" where
  "session_start m pt dpt \<longleftrightarrow> ms_payloadType m = pt \<and> ms_dtmfPayloadType m = dpt \<and> ms_active m
    \<and> ms_queue m = bq_new 200 \<and> ms_jitter m = jb_new \<lparr>targetDepth = 3, capacity = 100\<rparr>
    \<and> ms_outSsrc m = 0x51D0DE70 \<and> ms_outSeq m = 0 \<and> ms_outTs m = 0 \<and> \<not> ms_remoteLatched m
    \<and> ms_recvThread m \<and> ms_playoutThread m \<and> ms_outputThread m"

lemma media_new_start:
  assumes "media_new os ip port url w0 = (Inr m0, w1)" "media_start os m0 remote pt dpt w1 = (m, w)"
  shows "session_start m pt dpt \<and> ms_remote m = remote"
proof -
  obtain sock where "m0 = media_init sock url"
    using assms(1) by (auto simp: media_new_def split: prod.splits sum.splits)
  then show ?thesis using assms(2)
    by (auto simp: media_start_def media_init_def session_start_def Let_def split: prod.splits)
qed

lemma media_run_pipeline:
  assumes "udp_laws os out" "session_start m pt dpt" "media_run os (m, w) ts = ((m', w'), evs)"
  shows "delivered os out (m, w) (m', w') (map rtp_serialize (echo_stream pt 0x51D0DE70 0 0 (echoed evs)))"
    "subseq (echoed evs) (snd (jb_run (jb_new \<lparr>targetDepth = 3, capacity = 100\<rparr>) (jops evs)))"
proof -
  have p: "delivered os out (m, w) (m', w') (map rtp_serialize (echo_stream pt 0x51D0DE70 0 0 (echoed evs)))"
    "subseq (echoed evs @ bq_items (ms_queue m')) (snd (jb_run (jb_new \<lparr>targetDepth = 3, capacity = 100\<rparr>) (jops evs)))"
    using pipeline_run [OF assms(1,3)] assms(2) by (simp_all add: pipeline_def session_start_def bq_new_def)
  then show "delivered os out (m, w) (m', w') (map rtp_serialize (echo_stream pt 0x51D0DE70 0 0 (echoed evs)))"
    by simp
  have "subseq (echoed evs) (echoed evs @ bq_items (ms_queue m'))" by (simp add: prefix_imp_subseq)
  then show "subseq (echoed evs) (snd (jb_run (jb_new \<lparr>targetDepth = 3, capacity = 100\<rparr>) (jops evs)))"
    using p(2) by (rule subseq_order.order_trans)
qed

text \<open>Telephone-event packets never enter the jitter buffer.\<close>

definition dtmf_packet :: "int \<Rightarrow> rtp_packet \<Rightarrow> bool" where
  "dtmf_packet dpt p \<longleftrightarrow> dpt \<ge> 0 \<and> uint (payloadType p) = dpt"

lemma media_turn_audio:
  assumes "media_turn_of os st t = (st', evs)" "ms_dtmfPayloadType (fst st) = dpt"
  shows "\<forall>p. Inserted p \<in> set evs \<longrightarrow> \<not> dtmf_packet dpt p"
  using assms by (cases st) (auto simp: media_turn_of_def media_recv_turn_def media_playout_turn_def media_output_turn_def
      media_packet_def media_latch_def dtmf_packet_def Let_def split: media_turn.splits if_splits sum.splits option.splits prod.splits)

lemma media_turn_dtmf_pt: "media_turn_of os st t = (st', evs) \<Longrightarrow> ms_dtmfPayloadType (fst st') = ms_dtmfPayloadType (fst st)"
  by (cases st) (auto simp: media_turn_of_def media_recv_turn_def media_playout_turn_def media_output_turn_def
      media_packet_def media_latch_def media_onDtmfDigit_def media_echo_def Let_def
      split: media_turn.splits if_splits sum.splits option.splits prod.splits)

lemma media_run_audio:
  assumes "media_run os st ts = (st', evs)" "ms_dtmfPayloadType (fst st) = dpt"
  shows "\<forall>p. Inserted p \<in> set evs \<longrightarrow> \<not> dtmf_packet dpt p"
  using assms
proof (induction ts arbitrary: st evs)
  case (Cons t ts)
  obtain st1 a where a: "media_turn_of os st t = (st1, a)" by fastforce
  obtain b where b: "media_run os st1 ts = (st', b)" "evs = a @ b" using Cons.prems a by (auto split: prod.splits)
  show ?case using media_turn_audio [OF a Cons.prems(2)] Cons.IH [OF b(1)] media_turn_dtmf_pt [OF a] Cons.prems(2) b(2) by auto
qed simp

lemma jops_insert: "JInsert p \<in> set (jops evs) \<longleftrightarrow> Inserted p \<in> set evs"
  by (induction evs) (auto simp: jops_def split: media_event.splits)

section \<open>Echoes carry the audio\<close>

lemma echo_stream_facts:
  assumes "pt = 0 \<or> pt = 8"
  shows "length (echo_stream pt src seq ts ps) = length ps
    \<and> (\<forall>q \<in> set (echo_stream pt src seq ts ps). rtp_wf q \<and> ssrc q = src \<and> uint (payloadType q) = pt)
    \<and> map sequence (echo_stream pt src seq ts ps) = map (\<lambda>i. seq + of_nat i) [0..<length ps]
    \<and> map payload (echo_stream pt src seq ts ps) = map (\<lambda>p. media_encode pt (media_decode pt (payload p))) ps"
proof (induction ps arbitrary: seq ts)
  case (Cons p ps)
  have "uint (word_of_int pt :: u8) = pt" "(word_of_int pt :: u8) < 128" using assms by auto
  moreover have "map (\<lambda>i. seq + of_nat i) [0..<Suc n] = seq # map (\<lambda>i. seq + 1 + of_nat i) [0..<n]" for n
    by (induction n) (simp_all add: algebra_simps)
  ultimately show ?case using Cons [of "seq + 1"]
    by (simp add: rtp_wf_def rtp_packet_init_def del: upt_Suc)
qed simp

definition transparent :: "int \<Rightarrow> bytes \<Rightarrow> bool" where
  "transparent pt codes \<longleftrightarrow> pt = 8 \<or> (pt = 0 \<and> 0x7F \<notin> set codes)"

lemma media_recode: "transparent pt codes \<Longrightarrow> media_encode pt (media_decode pt codes) = codes"
  using al.recode_exact [of codes] mu.recode_exact [of codes]
  by (auto simp: transparent_def media_encode_def media_decode_def list_all_iff)

lemma echo_recoded:
  assumes "\<forall>p \<in> set ps. transparent pt (payload p)" "pt = 0 \<or> pt = 8"
  shows "map payload (echo_stream pt src seq ts ps) = map payload ps"
  using assms(1) echo_stream_facts [OF assms(2)] by (auto simp: media_recode)

lemma rtp_parsed_serialize: "rtp_wf q \<Longrightarrow> rtp_parsed (rtp_serialize q) = Some q"
  by (simp add: rtp_parsed_def rtp_roundtrip)

lemma subseq_full: "subseq xs ys \<Longrightarrow> length xs = length ys \<Longrightarrow> xs = ys"
  using subseq_same_length by blast

section \<open>Sizes\<close>

lemma pcm_bytes_length: "length (pcm_bytes pcm) = 2 * length pcm"
  by (induction pcm) (simp_all add: pcm_bytes_def)

lemma media_decode_length: "length (media_decode pt codes) = length codes"
  by (simp add: media_decode_def)

lemma upsample_length: "length (upsample8kTo16k xs) = 2 * length xs"
  using upsample_loop [of "(!) xs" "upsample_mid xs" "length xs"] by (simp add: upsample8kTo16k_def)

lemma media_forward_length: "length (pcm_bytes (upsample8kTo16k (media_decode pt codes))) = 4 * length codes"
  by (simp add: pcm_bytes_length upsample_length media_decode_length)

section \<open>Draining\<close>

lemma media_drain_echoes:
  assumes "udp_laws os out"
  shows "ms_outputThread m \<Longrightarrow> media_drain os (m, w) = (m', w') \<Longrightarrow>
    bq_items (ms_queue m') = [] \<and> bq_closed (ms_queue m') = bq_closed (ms_queue m) \<and> same_call m m'
    \<and> ms_recvThread m' = ms_recvThread m \<and> ms_playoutThread m' = ms_playoutThread m
    \<and> delivered os out (m, w) (m', w') (map rtp_serialize
        (echo_stream (ms_payloadType m) (ms_outSsrc m) (ms_outSeq m) (ms_outTs m) (bq_items (ms_queue m))))"
proof (induction "bq_items (ms_queue m)" arbitrary: m w)
  case Nil
  then have "(m', w') = (m, w)" by (subst (asm) media_drain.simps) simp
  then show ?case using Nil by (simp add: same_call_def delivered_none)
next
  case (Cons p ps)
  let ?m = "m\<lparr>ms_queue := (ms_queue m)\<lparr>bq_items := ps\<rparr>\<rparr>"
  obtain m1 w1 where e: "media_echo os ?m p w = (m1, w1)" by fastforce
  note E = pipeline_echo [OF assms e]
  have t: "ms_outputThread m1" "ms_recvThread m1 = ms_recvThread m" "ms_playoutThread m1 = ms_playoutThread m"
    using arg_cong [OF media_echo_frame [OF e], of ms_outputThread] arg_cong [OF media_echo_frame [OF e], of ms_recvThread]
      arg_cong [OF media_echo_frame [OF e], of ms_playoutThread] Cons.prems(1) by simp_all
  have q: "bq_items (ms_queue m) = p # ps" by (rule Cons.hyps(2) [symmetric])
  have "media_drain os (m, w) = media_drain os (media_echo os ?m p w)"
    by (subst media_drain.simps) (simp add: q Cons.prems(1))
  then have "media_drain os (m1, w1) = (m', w')" unfolding e Cons.prems(2) by (rule sym)
  moreover have "ps = bq_items (ms_queue m1)" using E by simp
  moreover have "delivered os out (m, w) (m1, w1) (map rtp_serialize
      (echo_stream (ms_payloadType m) (ms_outSsrc m) (ms_outSeq m) (ms_outTs m) [p]))"
    using E by (simp add: delivered_def)
  moreover have "echo_stream (ms_payloadType m) (ms_outSsrc m) (ms_outSeq m) (ms_outTs m) (p # ps)
      = echo_stream (ms_payloadType m) (ms_outSsrc m) (ms_outSeq m) (ms_outTs m) [p]
        @ echo_stream (ms_payloadType m1) (ms_outSsrc m1) (ms_outSeq m1) (ms_outTs m1) ps"
    using E by (simp add: same_call_def)
  ultimately show ?case using Cons.hyps(1) [of m1 w1] E t
      delivered_trans [of os out "(m, w)" "(m1, w1)" _ "(m', w')"]
    unfolding q by (simp only: same_call_def map_append) simp
qed

section \<open>Descriptors of a call\<close>

lemma closeFd_own:
  assumes "fd_laws os opened" "ws_closeFdUnlocked os c w = (c', w')"
  shows "opened w' = opened w - own_fd c \<and> own_fd c' = {}"
  using ws_closeFd_facts(3) [OF assms(2,1)] unfolding ws_closeFd_facts(1) [OF assms(2)] by (simp add: own_fd_def)

lemma sendFrame_own:
  assumes "fd_laws os opened" "sendFrameUnlocked os c op d w = (ok, c', w')"
  shows "opened w' - own_fd c' = opened w - own_fd c" "own_fd c \<subseteq> opened w \<Longrightarrow> own_fd c' \<subseteq> opened w'"
proof -
  have r: "random_mask os w = (mk, v) \<Longrightarrow> opened v = opened w" for mk v
    by (auto simp: random_mask_def dest!: fd_law_same(9) [OF assms(1)] split: prod.splits)
  show "opened w' - own_fd c' = opened w - own_fd c" "own_fd c \<subseteq> opened w \<Longrightarrow> own_fd c' \<subseteq> opened w'" using assms(2)
    by (auto simp: sendFrameUnlocked_def sendAll_opened [OF assms(1)] r dest!: closeFd_own [OF assms(1)]
        split: if_splits option.splits prod.splits)
qed

lemma ws_close_own:
  assumes "fd_laws os opened" "ws_close os c w = (c', w')"
  shows "opened w' = opened w - own_fd c" "own_fd c' = {}"
  using ws_close_facts(6) [OF assms(2,1)] ws_close_facts(1) [OF assms(2)] by (simp_all add: own_fd_def)

lemma ws_connect_fresh:
  assumes "fd_laws os opened" "own_fd c = {}" "ws_connect os c url w = (ok, c', w')"
  shows "opened w' - own_fd c' = opened w" "own_fd c' \<subseteq> opened w'"
proof -
  obtain c0 w0' where cl: "ws_close os c w = (c0, w0')" by fastforce
  show "opened w' - own_fd c' = opened w" "own_fd c' \<subseteq> opened w'"
    using ws_connect_result [OF assms(1) cl, of url] ws_close_own [OF assms(1) cl] assms(2)
    by (auto simp: assms(3) connect_result_def own_fd_def kInvalidFd_def split: if_splits)
qed

text \<open>All descriptors but the client's own; no operation of a call changes them, or its socket.\<close>

definition others :: "('w \<Rightarrow> int set) \<Rightarrow> 'w media_state \<Rightarrow> int set" where
  "others opened st = opened (snd st) - own_fd (ms_ws (fst st))"

definition same_fds :: "('w \<Rightarrow> int set) \<Rightarrow> 'w media_state \<Rightarrow> 'w media_state \<Rightarrow> bool" where
  "same_fds opened st st' \<longleftrightarrow> others opened st' = others opened st \<and> ms_sock (fst st') = ms_sock (fst st)
    \<and> (own_fd (ms_ws (fst st)) \<subseteq> opened (snd st) \<longrightarrow> own_fd (ms_ws (fst st')) \<subseteq> opened (snd st'))"

lemma same_fds_refl [simp]: "same_fds opened st st"
  by (simp add: same_fds_def)

lemma same_fds_trans: "same_fds opened st st1 \<Longrightarrow> same_fds opened st1 st2 \<Longrightarrow> same_fds opened st st2"
  by (simp add: same_fds_def)

lemma same_fds_update:
  "ms_ws m' = ms_ws m \<Longrightarrow> ms_sock m' = ms_sock m \<Longrightarrow> opened w' = opened w \<Longrightarrow> same_fds opened (m, w) (m', w')"
  by (simp add: same_fds_def others_def)

lemma same_fds_frame:
  assumes "fd_laws os opened" "sendFrameUnlocked os (ms_ws m) op d w = (ok, ws, w')" "ms_ws m' = ws" "ms_sock m' = ms_sock m"
    and "opened v = opened w'"
  shows "same_fds opened (m, w) (m', v)"
  using sendFrame_own [OF assms(1,2)] assms(3-5) by (simp add: same_fds_def others_def)

lemma media_echo_fds:
  assumes "fd_laws os opened"
  shows "same_fds opened (m, w) (media_echo os m pkt w)"
proof -
  let ?pcm = "media_decode (ms_payloadType m) (payload pkt)" and ?out = "\<lambda>ws. media_out_packet (m\<lparr>ms_ws := ws\<rparr>)"
  obtain m' w' where e: "media_echo os m pkt w = (m', w')" by fastforce
  note f = media_echo_frame [OF e]
  have sock: "ms_sock m' = ms_sock m" by (subst f) simp
  show ?thesis
  proof (cases "ws_connected (ms_ws m) \<and> ?pcm \<noteq> []")
    case True
    obtain ok ws v where s: "sendFrameUnlocked os (ms_ws m) 2 (pcm_bytes (upsample8kTo16k ?pcm)) w = (ok, ws, v)"
      by (metis surj_pair)
    then have "ms_ws m' = ws" "opened w' = opened v"
      using e True udp_world_opened(2) [OF assms] by (auto simp: media_echo_def ws_sendBinary_def Let_def split_beta)
    then show ?thesis unfolding e using same_fds_frame [OF assms s] sock by simp
  next
    case False
    then have "ms_ws m' = ms_ws m" "opened w' = opened w"
      using e udp_world_opened(2) [OF assms] by (auto simp: media_echo_def Let_def split_beta)
    then show ?thesis unfolding e using sock by (intro same_fds_update)
  qed
qed

lemma media_packet_fds:
  assumes "fd_laws os opened"
  shows "same_fds opened (m, w) (fst (media_packet os m src pkt w))"
proof -
  have latch: "ms_ws (media_latch m src) = ms_ws m" "ms_sock (media_latch m src) = ms_sock m"
    by (simp_all add: media_latch_def)
  have digit: "same_fds opened (m, w) (media_onDtmfDigit os m' c w)"
    if "ms_ws m' = ms_ws m" "ms_sock m' = ms_sock m" for m' c
  proof -
    obtain ok ws v where s: "sendFrameUnlocked os (ms_ws m) 1 (text_bytes (dtmf_json c)) w = (ok, ws, v)" by (metis surj_pair)
    then show ?thesis using same_fds_frame [OF assms s] that
      by (simp add: media_onDtmfDigit_def ws_sendText_def)
  qed
  show ?thesis
    by (simp add: media_packet_def Let_def latch digit same_fds_update split: option.split)
qed

lemma media_turn_fds:
  assumes "fd_laws os opened"
  shows "same_fds opened st (fst (media_turn_of os st t))"
proof -
  obtain m w where st: "st = (m, w)" by fastforce
  have turn: "same_fds opened (m, w) (fst (media_recv_turn os (m, w)))"
  proof -
    obtain r v where r: "udp_recvFrom os (ms_sock m) 200 w = (r, v)" by fastforce
    have v: "same_fds opened (m, w) (m, v)"
      using udp_world_opened(4) [OF assms, of "ms_sock m" 200 w] r by (simp add: same_fds_update)
    show ?thesis
    proof (cases "ms_active m \<and> (\<exists>dg pkt. r = Inr (Some dg) \<and> rtp_parsed (dg_data dg) = Some pkt)")
      case True
      then obtain dg pkt where "ms_active m" "r = Inr (Some dg)" "rtp_parsed (dg_data dg) = Some pkt" by blast
      then show ?thesis using r same_fds_trans [OF v media_packet_fds [OF assms]] by (simp add: media_recv_turn_def)
    next
      case False
      then show ?thesis using r v
        by (auto simp: media_recv_turn_def same_fds_update split: sum.splits option.splits)
    qed
  qed
  have "same_fds opened (m, w) (fst (media_playout_turn (m, w)))"
    by (simp add: media_playout_turn_def Let_def same_fds_update split: option.split prod.split)
  moreover have "same_fds opened (m, w) (fst (media_output_turn os (m, w)))"
    by (auto simp: media_output_turn_def same_fds_update split: option.split prod.split
        intro: same_fds_trans [OF same_fds_update media_echo_fds [OF assms]])
  ultimately show ?thesis using turn unfolding st by (simp add: media_turn_of_def split: media_turn.split)
qed

lemma media_run_fds:
  assumes "fd_laws os opened"
  shows "same_fds opened st (fst (media_run os st ts))"
proof (induction ts arbitrary: st)
  case (Cons t ts)
  have "fst (media_run os st (t # ts)) = fst (media_run os (fst (media_turn_of os st t)) ts)"
    by (simp add: split_beta Let_def)
  then show ?case using same_fds_trans [OF media_turn_fds [OF assms] Cons] by metis
qed simp

lemma media_drain_fds:
  "fd_laws os opened \<Longrightarrow> same_fds opened st (media_drain os st)"
proof (induction os st rule: media_drain.induct)
  case (1 os st)
  obtain m w where st: "st = (m, w)" by fastforce
  show ?case
  proof (cases "ms_outputThread m \<and> bq_items (ms_queue m) \<noteq> []")
    case True
    let ?m = "m\<lparr>ms_queue := (ms_queue m)\<lparr>bq_items := tl (bq_items (ms_queue m))\<rparr>\<rparr>"
    let ?st = "media_echo os ?m (hd (bq_items (ms_queue m))) w"
    have "same_fds opened ?st (media_drain os ?st)" using 1 True st by simp
    moreover have "same_fds opened (m, w) ?st"
      by (rule same_fds_trans [OF same_fds_update media_echo_fds [OF 1(2)]]) simp_all
    ultimately show ?thesis unfolding st using True by (subst media_drain.simps) (auto intro: same_fds_trans)
  next
    case False
    then show ?thesis unfolding st by (subst media_drain.simps) auto
  qed
qed

lemma media_stop_fds:
  assumes "fd_laws os opened"
  shows "same_fds opened (m, w) (media_stop os (m, w))"
proof (cases "ms_active m")
  case True
  let ?m = "m\<lparr>ms_active := False, ms_queue := bq_close (ms_queue m), ms_recvThread := False, ms_playoutThread := False\<rparr>"
  obtain m1 w1 where d: "media_drain os (?m, w) = (m1, w1)" by fastforce
  obtain ws v where c: "ws_close os (ms_ws m1) w1 = (ws, v)" by fastforce
  have "same_fds opened (m, w) (m1, w1)"
    using same_fds_trans [OF same_fds_update media_drain_fds [OF assms], of ?m m w w] d by simp
  moreover have "same_fds opened (m1, w1) (m1\<lparr>ms_outputThread := False, ms_ws := ws\<rparr>, v)"
    using ws_close_own [OF assms c] by (simp add: same_fds_def others_def)
  ultimately show ?thesis using True d c by (simp add: media_stop_def same_fds_trans)
qed (simp add: media_stop_def)

text \<open>A session's descriptors: its socket is open and not the client's, and the client's is open.\<close>

definition call_fds :: "('w \<Rightarrow> int set) \<Rightarrow> int set \<Rightarrow> 'w media_state \<Rightarrow> bool" where
  "call_fds opened base st \<longleftrightarrow> (let fd = us_fd (ms_sock (fst st)) in
    others opened st = insert fd base \<and> fd \<notin> base \<and> fd \<noteq> kInvalidFd \<and> own_fd (ms_ws (fst st)) \<subseteq> opened (snd st))"

lemma call_fds_same: "same_fds opened st st' \<Longrightarrow> call_fds opened base st \<Longrightarrow> call_fds opened base st'"
  by (simp add: call_fds_def same_fds_def Let_def)

lemma media_destroy_opened:
  assumes "fd_laws os opened" "call_fds opened base (m, w)"
  shows "opened (media_destroy os (m, w)) = base"
proof -
  obtain m1 w1 where s: "media_stop os (m, w) = (m1, w1)" by fastforce
  obtain ws v where c: "ws_close os (ms_ws m1) w1 = (ws, v)" by fastforce
  have f: "call_fds opened base (m1, w1)"
    using call_fds_same [OF media_stop_fds [OF assms(1), of m w] assms(2)] by (simp add: s)
  then have "opened (media_destroy os (m, w)) = opened v - {us_fd (ms_sock m1)}"
    using s c assms udp_closeSocket_facts(2) [OF prod.collapse [symmetric] assms(1), of "ms_sock m1" v]
    by (simp add: media_destroy_def udp_destroy_def call_fds_def Let_def)
  then show ?thesis using f ws_close_own [OF assms(1) c] by (simp add: call_fds_def others_def Let_def)
qed

lemma media_new_opened:
  assumes "fd_laws os opened" "media_new os ip port url w = (r, w')"
  shows "case r of Inl e \<Rightarrow> opened w' = opened w
    | Inr m \<Rightarrow> call_fds opened (opened w) (m, w') \<and> own_fd (ms_ws m) = {}"
proof -
  obtain q v where n: "udp_new os w = (q, v)" by fastforce
  obtain fd v' where o: "os_socket os SockDgram w = (fd, v')" by fastforce
  note sock = fd_law_socket [OF assms(1) o]
  show ?thesis
  proof (cases q)
    case (Inl e)
    then show ?thesis using assms(2) n o sock by (auto simp: media_new_def udp_new_def split: if_splits)
  next
    case (Inr s)
    then have s: "us_fd s = fd" "fd \<noteq> kInvalidFd" "opened v = insert fd (opened w)" "fd \<notin> opened w"
      using n o sock by (auto simp: udp_new_def split: if_splits)
    obtain br s' u where b: "udp_bind os s ip port v = (br, s', u)" by (metis surj_pair)
    have s': "us_fd s' = fd" "opened u = insert fd (opened w)"
      using udp_bind_fd [OF b] udp_world_opened(1) [OF assms(1) b] s by simp_all
    have "opened (udp_destroy os s' u) = opened w"
      using udp_closeSocket_facts(2) [OF prod.collapse [symmetric] assms(1), of s' u] s s'
      by (simp add: udp_destroy_def)
    moreover have "own_fd ws_client_init = {}" by (simp add: own_fd_def ws_client_init_def)
    ultimately show ?thesis using assms(2) n Inr b s s'
      by (cases br) (auto simp: media_new_def call_fds_def others_def media_init_def)
  qed
qed

lemma media_start_fds:
  assumes "fd_laws os opened" "own_fd (ms_ws m) = {}" "call_fds opened base (m, w)"
    and "media_start os m remote pt dpt w = (m', w')"
  shows "call_fds opened base (m', w')"
proof -
  obtain ok c w1 where c: "ws_connect os (ms_ws m) (ms_wsUrl m) w = (ok, c, w1)" by (metis surj_pair)
  show ?thesis
    using assms(2-4) ws_connect_fresh [OF assms(1,2) c] c
    by (auto simp: media_start_def call_fds_def others_def Let_def split: if_splits)
qed

lemma jb_new_empty: "buf (jb_new c) = []"
  by (simp add: jb_new_def)

section \<open>Properties\<close>

text \<open>What the caller hears: whatever the schedule of the three threads and whatever arrives, the datagrams
a session sends are, in order, serialisations of one echo stream, and all of it when no send fails: consecutive sequence numbers from 0,
timestamps advancing by the samples of each frame, the fixed SSRC, and the decoded and re-encoded payloads
of packets played by the jitter buffer, in its order, each at most once; none of them is a telephone-event
packet.\<close>

theorem media_echo_stream:
  assumes "udp_laws os out"
    and "media_new os ip port url w0 = (Inr m0, w1)" "media_start os m0 remote pt dpt w1 = (m, w)"
    and "media_run os (m, w) ts = ((m', w'), evs)"
  shows "(\<exists>ss. sent_data out w' = sent_data out w @ ss
      \<and> subseq ss (map rtp_serialize (echo_stream pt 0x51D0DE70 0 0 (echoed evs)))
      \<and> (sends_work os remote \<longrightarrow> ss = map rtp_serialize (echo_stream pt 0x51D0DE70 0 0 (echoed evs))))
    \<and> subseq (echoed evs) (snd (jb_run (jb_new \<lparr>targetDepth = 3, capacity = 100\<rparr>) (jops evs)))
    \<and> set (echoed evs) \<subseteq> {p. JInsert p \<in> set (jops evs) \<and> \<not> dtmf_packet dpt p}"
proof -
  have s: "session_start m pt dpt" "ms_remote m = remote" using media_new_start [OF assms(2,3)] by blast+
  note p = media_run_pipeline [OF assms(1) s(1) assms(4)]
  have "set (echoed evs) \<subseteq> {p. JInsert p \<in> set (jops evs)}"
  proof
    fix q assume "q \<in> set (echoed evs)"
    with p(2) have "q \<in> set (snd (jb_run (jb_new \<lparr>targetDepth = 3, capacity = 100\<rparr>) (jops evs)))"
      by (rule list_emb_set) simp
    from subsetD [OF jb_run_subset this] show "q \<in> {p. JInsert p \<in> set (jops evs)}"
      unfolding jb_new_empty by simp
  qed
  moreover have "JInsert p \<in> set (jops evs) \<Longrightarrow> \<not> dtmf_packet dpt p" for p
    using media_run_audio [OF assms(4), of dpt] s by (simp add: jops_insert session_start_def)
  ultimately show ?thesis using p s(2) unfolding delivered_def fst_conv snd_conv by blast
qed

text \<open>End to end, the caller hears itself exactly: when the packets of a consecutive stream of 3 to 100
arrive in any order after the first and are popped and echoed, in any schedule that does this, the datagrams
sent parse to packets with exactly the received payloads in the stream's order, numbered from 0, for A-law
and for mu-law without negative zeros.\<close>

theorem media_call_echo:
  assumes "udp_laws os out" "sends_work os remote"
    and "media_new os ip port url w0 = (Inr m0, w1)" "media_start os m0 remote pt dpt w1 = (m, w)"
    and "media_run os (m, w) ts = ((m', w'), evs)"
    and "stream_of ps" "3 \<le> length ps" "length ps \<le> 100" "distinct is" "set is = {1..<length ps}"
    and "jops evs = JInsert (ps ! 0) # map (\<lambda>i. JInsert (ps ! i)) is @ replicate (length ps) JPop"
    and "length (echoed evs) = length ps" "\<forall>p \<in> set ps. transparent pt (payload p)"
  shows "\<exists>qs. map rtp_parsed (drop (length (sent_data out w)) (sent_data out w')) = map Some qs
    \<and> map payload qs = map payload ps \<and> map sequence qs = map of_nat [0..<length ps]
    \<and> list_all (\<lambda>q. ssrc q = 0x51D0DE70 \<and> uint (payloadType q) = pt) qs"
proof -
  have s: "session_start m pt dpt" "ms_remote m = remote" using media_new_start [OF assms(3,4)] by blast+
  note p = media_run_pipeline [OF assms(1) s(1) assms(5)]
  have "snd (jb_run (jb_new \<lparr>targetDepth = 3, capacity = 100\<rparr>) (jops evs)) = ps"
    unfolding assms(11) using jb_reorder_restored(1) [OF assms(6) _ _ assms(9,10), of "\<lparr>targetDepth = 3, capacity = 100\<rparr>"]
      assms(7,8) by simp
  then have e: "echoed evs = ps" using p(2) assms(12) by (simp add: subseq_full)
  have "ps \<noteq> []" using assms(7) by auto
  then have pt: "pt = 0 \<or> pt = 8" using assms(13) by (cases ps) (auto simp: transparent_def)
  let ?qs = "echo_stream pt 0x51D0DE70 0 0 ps"
  note f = echo_stream_facts [OF pt, of "0x51D0DE70" 0 0 ps]
  have "drop (length (sent_data out w)) (sent_data out w') = map rtp_serialize ?qs"
    using p(1) e assms(2) s(2) by (auto simp: delivered_def)
  moreover have "map rtp_parsed (map rtp_serialize ?qs) = map Some ?qs"
    using f by (auto simp: rtp_parsed_serialize)
  moreover have "map payload ?qs = map payload ps" by (rule echo_recoded [OF assms(13) pt])
  ultimately show ?thesis using f by (intro exI [of _ ?qs]) (auto simp: list_all_iff)
qed

text \<open>Symmetric RTP: one turn of the receiving thread sends the echo to the source of the datagram it read if
that parses as RTP, and otherwise (no datagram, an error, anything else) leaves the destination alone; the
address in the SDP only holds until the first RTP packet.\<close>

theorem media_symmetric_rtp:
  assumes "ms_recvThread m" "ms_active m" "udp_recvFrom os (ms_sock m) 200 w = (r, v)"
    and "media_turn_of os (m, w) RecvTurn = ((m', w'), evs)"
  shows "(ms_remote m', ms_remoteLatched m') = (case r of
      Inr (Some dg) \<Rightarrow> if rtp_parsed (dg_data dg) = None then (ms_remote m, ms_remoteLatched m) else (dg_from dg, True)
    | _ \<Rightarrow> (ms_remote m, ms_remoteLatched m))"
proof -
  have p: "(ms_remote a, ms_remoteLatched a) = (src, True)" if "media_packet os m src pkt v = ((a, b), es)" for src pkt a b es
    using that by (auto simp: media_packet_def Let_def media_latch_def media_onDtmfDigit_def
        split: if_splits option.splits prod.splits)
  show ?thesis
  proof (cases "\<exists>dg pkt. r = Inr (Some dg) \<and> rtp_parsed (dg_data dg) = Some pkt")
    case True
    then obtain dg pkt where d: "r = Inr (Some dg)" "rtp_parsed (dg_data dg) = Some pkt" by blast
    then have "media_packet os m (dg_from dg) pkt v = ((m', w'), evs)"
      using assms by (simp add: media_turn_of_def media_recv_turn_def)
    from p [OF this] show ?thesis using d by simp
  qed (use assms in \<open>auto simp: media_turn_of_def media_recv_turn_def split: sum.splits option.splits\<close>)
qed

text \<open>Every frame can be forwarded: whatever datagram the socket delivers, the 16 kHz PCM of its payload is
four bytes per code word, at most 8144 bytes, so it fits one WebSocket frame of the client and the send is
never refused for its size.\<close>

theorem media_forward_fits:
  assumes "udp_laws os out" "udp_recvFrom os s t w = (Inr (Some dg), w')" "rtp_parsed (dg_data dg) = Some p"
  shows "length (pcm_bytes (upsample8kTo16k (media_decode pt (payload p)))) = 4 * length (payload p)
    \<and> 4 * length (payload p) \<le> 8144
    \<and> frame_header 0x2 (length (pcm_bytes (upsample8kTo16k (media_decode pt (payload p))))) \<noteq> None"
proof -
  have "rtp_parse (dg_data dg) = Some (Some p)" using assms(3) by (cases "rtp_parse (dg_data dg)") (auto simp: rtp_parsed_def)
  then have "12 + length (payload p) \<le> length (dg_data dg)" using rtp_parse_bounds(4) [of "dg_data dg" p] by simp
  moreover have "length (dg_data dg) \<le> 2048"
    using udp_recv_length [OF assms(1,2)] by (simp add: udp_recv_buffer_def)
  ultimately show ?thesis by (simp add: media_forward_length frame_header_rfc)
qed

text \<open>Stopping loses nothing that was queued: \<open>stop\<close> terminates with the queue closed and empty, every thread
finished and the WebSocket disconnected, after every packet still in the queue was echoed in order (all of the echoes are sent when no send fails).\<close>

theorem media_stop_drains:
  assumes "udp_laws os out" "ms_active m" "ms_outputThread m" "media_stop os (m, w) = (m', w')"
  shows "\<not> ms_active m' \<and> bq_items (ms_queue m') = [] \<and> bq_closed (ms_queue m')
    \<and> \<not> ms_recvThread m' \<and> \<not> ms_playoutThread m' \<and> \<not> ms_outputThread m' \<and> \<not> ws_connected (ms_ws m')
    \<and> delivered os out (m, w) (m', w') (map rtp_serialize
        (echo_stream (ms_payloadType m) (ms_outSsrc m) (ms_outSeq m) (ms_outTs m) (bq_items (ms_queue m))))"
proof -
  let ?m = "m\<lparr>ms_active := False, ms_queue := bq_close (ms_queue m), ms_recvThread := False, ms_playoutThread := False\<rparr>"
  obtain m1 w1 where d: "media_drain os (?m, w) = (m1, w1)" by fastforce
  obtain ws v where c: "ws_close os (ms_ws m1) w1 = (ws, v)" by fastforce
  have e: "m' = m1\<lparr>ms_outputThread := False, ms_ws := ws\<rparr>" "w' = v"
    using assms(2,4) d c by (simp_all add: media_stop_def)
  have "out v = out w1" using c
    by (auto simp: ws_close_def ws_closeFdUnlocked_def udp_law_same(5) [OF assms(1)] split: if_splits prod.splits)
  then show ?thesis using media_drain_echoes [OF assms(1) _ d] assms(3) ws_close_facts(2) [OF c]
    by (simp add: e same_call_def bq_close_def sent_data_def delivered_def)
qed

text \<open>A call leaks no descriptor: a session that fails to bind, or one that is constructed, started, run under
any schedule and destroyed, leaves exactly the descriptors open that were open before it.\<close>

theorem media_call_no_leak:
  assumes "fd_laws os opened" "media_new os ip port url w0 = (r, w1)"
  shows "case r of Inl e \<Rightarrow> opened w1 = opened w0
    | Inr m0 \<Rightarrow> opened (media_destroy os (fst (media_run os (media_start os m0 remote pt dpt w1) ts))) = opened w0"
proof (cases r)
  case (Inr m0)
  have n: "call_fds opened (opened w0) (m0, w1)" "own_fd (ms_ws m0) = {}"
    using media_new_opened [OF assms] Inr by simp_all
  obtain m w where s: "media_start os m0 remote pt dpt w1 = (m, w)" by fastforce
  obtain m' w' where r: "fst (media_run os (m, w) ts) = (m', w')" by fastforce
  have "call_fds opened (opened w0) (m', w')"
    using call_fds_same [OF media_run_fds [OF assms(1)] media_start_fds [OF assms(1) n(2,1) s], of ts] r by simp
  from media_destroy_opened [OF assms(1) this] show ?thesis by (simp add: Inr s r)
qed (use media_new_opened [OF assms] in simp)

section \<open>Witnesses\<close>

text \<open>A call in the small operating system: three packets arrive, the last two in the wrong order.\<close>

definition demo_audio :: "rtp_packet list" where
  "demo_audio = [rtp_packet_init\<lparr>payloadType := 8, sequence := 65535, payload := [0xD5]\<rparr>,
     rtp_packet_init\<lparr>payloadType := 8, sequence := 0, payload := [0x2A]\<rparr>,
     rtp_packet_init\<lparr>payloadType := 8, sequence := 1, payload := [0x11]\<rparr>]"

definition demo_rx_world :: demo_world where
  "demo_rx_world = demo_world_init\<lparr>dw_rx :=
     map (\<lambda>i. (rtp_serialize (demo_audio ! i), \<lparr>sa_addr = 0, sa_port = 4000\<rparr>)) [0, 2, 1]\<rparr>"

definition demo_bound_world :: demo_world where
  "demo_bound_world = demo_rx_world\<lparr>dw_next := 4, dw_open := [3],
     dw_bound := [(3, \<lparr>sa_addr = 0x7F000001, sa_port = 40000\<rparr>)]\<rparr>"

definition demo_new_session :: media_session where
  "demo_new_session = media_init \<lparr>us_fd = 3, us_localPort = 40000\<rparr> []"

definition demo_peer :: endpoint where
  "demo_peer = \<lparr>ep_ip = ''h'', ep_port = 9\<rparr>"

lemma demo_media_new: "media_new demo_os ''127.0.0.1'' 40000 [] demo_rx_world = (Inr demo_new_session, demo_bound_world)"
  by (simp add: media_new_def udp_new_def udp_bind_def demo_os_def demo_rx_world_def demo_bound_world_def
      demo_world_init_def demo_new_session_def kInvalidFd_def Let_def)

definition threads_run :: "media_session \<Rightarrow> bool" where
  "threads_run m \<longleftrightarrow> ms_active m \<and> ms_recvThread m \<and> ms_playoutThread m \<and> ms_outputThread m \<and> \<not> bq_closed (ms_queue m)"

lemma demo_recvs:
  assumes "threads_run m" "ms_dtmfPayloadType m = dpt" "dw_rx w = map (\<lambda>p. (rtp_serialize p, a)) ps"
    and "\<forall>p \<in> set ps. rtp_wf p \<and> \<not> dtmf_packet dpt p \<and> length (rtp_serialize p) \<le> 2048"
  shows "\<exists>m' w'. media_run demo_os (m, w) (replicate (length ps) RecvTurn) = ((m', w'), map Inserted ps)
    \<and> threads_run m' \<and> ms_jitter m' = foldl jb_insert (ms_jitter m) ps \<and> ms_queue m' = ms_queue m"
  using assms
proof (induction ps arbitrary: m w)
  case (Cons p ps)
  let ?a = "\<lparr>ep_ip = ''127.0.0.1'', ep_port = sa_port a\<rparr>" and ?w = "w\<lparr>dw_rx := map (\<lambda>p. (rtp_serialize p, a)) ps\<rparr>"
  let ?m = "(media_latch m ?a)\<lparr>ms_rtpStats := rs_update (ms_rtpStats m) (sequence p) (timestamp p) 0,
    ms_jitter := jb_insert (ms_jitter m) p\<rparr>"
  have "udp_recvFrom demo_os (ms_sock m) 200 w = (Inr (Some \<lparr>dg_data = rtp_serialize p, dg_from = ?a\<rparr>), ?w)"
    using Cons.prems(3,4) by (simp add: udp_recvFrom_def udp_read_def demo_os_def udp_recv_buffer_def)
  then have t: "media_turn_of demo_os (m, w) RecvTurn = ((?m, ?w), [Inserted p])"
    using Cons.prems rtp_parsed_serialize [of p]
    by (auto simp: media_turn_of_def media_recv_turn_def threads_run_def media_packet_def dtmf_packet_def media_latch_def
        Let_def demo_os_def)
  have "threads_run ?m" "ms_dtmfPayloadType ?m = dpt" "ms_jitter ?m = jb_insert (ms_jitter m) p" "ms_queue ?m = ms_queue m"
    using Cons.prems(1,2) by (simp_all add: threads_run_def media_latch_def)
  then obtain m' w' where "media_run demo_os (?m, ?w) (replicate (length ps) RecvTurn) = ((m', w'), map Inserted ps)"
    "threads_run m'" "ms_jitter m' = foldl jb_insert (jb_insert (ms_jitter m) p) ps" "ms_queue m' = ms_queue m"
    using Cons.IH [of ?m ?w] Cons.prems(4) by auto
  then show ?case by (intro exI [of _ m'] exI [of _ w']) (simp add: t)
qed simp

lemma jb_run_pops_length: "length (snd (jb_run jb (replicate n JPop))) \<le> n"
  by (induction n arbitrary: jb) (auto simp: split_beta Let_def le_SucI split: option.splits)

lemma media_playouts:
  assumes "threads_run m" "jb_run (ms_jitter m) (replicate n JPop) = (jb, outs)" "length outs = n"
    and "length (bq_items (ms_queue m)) + n \<le> bq_capacity (ms_queue m)"
  shows "\<exists>m'. media_run os (m, w) (replicate n PlayoutTurn) = ((m', w), replicate n Popped)
    \<and> threads_run m' \<and> bq_items (ms_queue m') = bq_items (ms_queue m) @ outs"
  using assms
proof (induction n arbitrary: m outs)
  case (Suc n)
  obtain jb1 r l where p: "jb_pop (ms_jitter m) = (jb1, r, l)" by (metis surj_pair)
  let ?outs = "snd (jb_run jb1 (replicate n JPop))"
  have o: "jb_run jb1 (replicate n JPop) = (jb, ?outs)" "outs = (case r of None \<Rightarrow> ?outs | Some p \<Rightarrow> p # ?outs)"
    using Suc.prems(2) p by (auto simp: Let_def split: prod.splits option.splits)
  have "length ?outs \<le> n" by (rule jb_run_pops_length)
  with o(2) Suc.prems(3) obtain q where r: "r = Some q" "outs = q # ?outs" "length ?outs = n" by (cases r) auto
  let ?m = "m\<lparr>ms_jitter := jb1, ms_queue := (ms_queue m)\<lparr>bq_items := bq_items (ms_queue m) @ [q]\<rparr>\<rparr>"
  have t: "media_turn_of os (m, w) PlayoutTurn = ((?m, w), [Popped])"
    using Suc.prems(1,4) p r by (simp add: media_turn_of_def media_playout_turn_def threads_run_def bq_tryPush_def bq_size_def)
  have "threads_run ?m" using Suc.prems(1) by (simp add: threads_run_def)
  then obtain m' where "media_run os (?m, w) (replicate n PlayoutTurn) = ((m', w), replicate n Popped)"
    "threads_run m'" "bq_items (ms_queue m') = (bq_items (ms_queue m) @ [q]) @ ?outs"
    using Suc.IH [of ?m ?outs] Suc.prems(4) o(1) r(3) by auto
  then show ?case by (intro exI [of _ m']) (simp add: t r(2))
qed simp

lemma media_outputs:
  assumes "threads_run m" "bq_items (ms_queue m) = ps"
  shows "\<exists>st'. media_run os (m, w) (replicate (length ps) OutputTurn) = (st', map Echoed ps)"
  using assms
proof (induction ps arbitrary: m w)
  case (Cons p ps)
  let ?m = "m\<lparr>ms_queue := (ms_queue m)\<lparr>bq_items := ps\<rparr>\<rparr>"
  obtain m1 w1 where e: "media_echo os ?m p w = (m1, w1)" by fastforce
  note f = media_echo_frame [OF e]
  have "threads_run m1" "bq_items (ms_queue m1) = ps"
    using Cons.prems(1) by (subst f, simp add: threads_run_def)+
  moreover have "media_turn_of os (m, w) OutputTurn = ((m1, w1), [Echoed p])"
    using Cons.prems e by (simp add: media_turn_of_def media_output_turn_def threads_run_def bq_pop_def)
  ultimately show ?case using Cons.IH [of m1 w1] by auto
qed simp

lemma media_run_append: "media_run os st (a @ b) =
    (let (st1, x) = media_run os st a; (st2, y) = media_run os st1 b in (st2, x @ y))"
  by (induction a arbitrary: st) (simp_all add: split_beta Let_def)

definition demo_turns :: "media_turn list" where
  "demo_turns = replicate 3 RecvTurn @ replicate 3 PlayoutTurn @ replicate 3 OutputTurn"

text \<open>Any packets can be received, then played and echoed.\<close>

lemma demo_media_run:
  assumes "session_start m pt dpt" "dw_rx w = map (\<lambda>p. (rtp_serialize p, a)) rs"
    and "\<forall>p \<in> set rs. rtp_wf p \<and> \<not> dtmf_packet dpt p \<and> length (rtp_serialize p) \<le> 2048" "length rs \<le> 200"
    and "snd (jb_run (foldl jb_insert (jb_new \<lparr>targetDepth = 3, capacity = 100\<rparr>) rs) (replicate (length rs) JPop)) = ps"
    and "length ps = length rs"
  shows "\<exists>m' w'. media_run demo_os (m, w) (replicate (length rs) RecvTurn @ replicate (length rs) PlayoutTurn
      @ replicate (length rs) OutputTurn) = ((m', w'), map Inserted rs @ replicate (length rs) Popped @ map Echoed ps)"
proof -
  have run: "threads_run m" "ms_dtmfPayloadType m = dpt" using assms(1) by (simp_all add: session_start_def threads_run_def bq_new_def)
  obtain m1 w1 where r1: "media_run demo_os (m, w) (replicate (length rs) RecvTurn) = ((m1, w1), map Inserted rs)"
    "threads_run m1" "ms_jitter m1 = foldl jb_insert (ms_jitter m) rs" "ms_queue m1 = ms_queue m"
    using demo_recvs [OF run assms(2,3)] by blast
  obtain jb where jb: "jb_run (ms_jitter m1) (replicate (length rs) JPop) = (jb, ps)"
    using assms(1,5) unfolding r1(3) by (metis prod.collapse session_start_def)
  have q: "bq_items (ms_queue m1) = []" "bq_capacity (ms_queue m1) = 200"
    using assms(1) r1(4) by (simp_all add: session_start_def bq_new_def)
  obtain m2 where r2: "media_run demo_os (m1, w1) (replicate (length rs) PlayoutTurn) = ((m2, w1), replicate (length rs) Popped)"
    "threads_run m2" "bq_items (ms_queue m2) = ps"
    using media_playouts [OF r1(2) jb assms(6), of demo_os w1] q assms(4) by auto
  obtain st3 where r3: "media_run demo_os (m2, w1) (replicate (length rs) OutputTurn) = (st3, map Echoed ps)"
    using media_outputs [OF r2(2,3), of demo_os w1] by (metis assms(6))
  show ?thesis unfolding media_run_append r1(1) r2(1) r3 Let_def prod.case by (cases st3) simp
qed

lemma demo_run: "\<exists>m' w'. media_run demo_os (media_start demo_os demo_new_session demo_peer 8 101 demo_bound_world) demo_turns
  = ((m', w'), map (\<lambda>i. Inserted (demo_audio ! i)) [0, 2, 1] @ replicate 3 Popped @ map Echoed demo_audio)"
proof -
  let ?ps = "map ((!) demo_audio) [0, 2, 1]"
  obtain m w where m: "media_start demo_os demo_new_session demo_peer 8 101 demo_bound_world = (m, w)" by fastforce
  then have s: "session_start m 8 101" using media_new_start [OF demo_media_new] by blast
  have w: "dw_rx w = map (\<lambda>p. (rtp_serialize p, \<lparr>sa_addr = 0, sa_port = 4000\<rparr>)) ?ps"
    using m by (auto simp: media_start_def demo_new_session_def media_init_def demo_bound_world_def demo_rx_world_def)
  have ps: "\<forall>p \<in> set ?ps. rtp_wf p \<and> \<not> dtmf_packet 101 p \<and> length (rtp_serialize p) \<le> 2048"
    by (simp add: demo_audio_def rtp_wf_def rtp_packet_init_def dtmf_packet_def rtp_serialize_def wr16_def wr32_def)
  have three: "length ?ps = 3" "length demo_audio = length ?ps" by (simp_all add: demo_audio_def)
  have "snd (jb_run (foldl jb_insert (jb_new \<lparr>targetDepth = 3, capacity = 100\<rparr>) ?ps) (replicate (length ?ps) JPop)) = demo_audio"
    unfolding demo_audio_def by code_simp
  from demo_media_run [OF s w ps _ this three(2)] show ?thesis unfolding demo_turns_def m three(1) by simp
qed

definition demo_events :: "media_event list" where
  "demo_events = map (\<lambda>i. Inserted (demo_audio ! i)) [0, 2, 1] @ replicate 3 Popped @ map Echoed demo_audio"

definition demo_started :: media_session where
  "demo_started = fst (media_start demo_os demo_new_session demo_peer 8 101 demo_bound_world)"

lemma demo_start: "media_start demo_os demo_new_session demo_peer 8 101 demo_bound_world = (demo_started, demo_bound_world)"
  by (simp add: demo_started_def media_start_def demo_new_session_def media_init_def)

lemma demo_traffic [simp]: "echoed demo_events = demo_audio" 
  "jops demo_events = JInsert (demo_audio ! 0) # map (\<lambda>i. JInsert (demo_audio ! i)) [2, 1] @ replicate (length demo_audio) JPop"
  by (simp_all add: demo_events_def demo_audio_def numeral_3_eq_3 echoed_def jops_def)

lemma demo_sends: "sends_work demo_os demo_peer"
  by (simp add: sends_work_def datagrams_work_def demo_os_def demo_peer_def)

lemma demo_quiet: "sent_data dw_tx demo_bound_world = []"
  by (simp add: sent_data_def demo_bound_world_def demo_rx_world_def demo_world_init_def)

lemma demo_run': "\<exists>m' w'. media_run demo_os (demo_started, demo_bound_world) demo_turns = ((m', w'), demo_events)"
  using demo_run by (simp add: demo_start demo_events_def)

theorem media_echo_stream_witness: "\<exists>m' w'.
    media_run demo_os (media_start demo_os demo_new_session demo_peer 8 101 demo_bound_world) demo_turns = ((m', w'), demo_events)
    \<and> sent_data dw_tx w' = map rtp_serialize (echo_stream 8 0x51D0DE70 0 0 demo_audio)"
proof -
  obtain m' w' where r: "media_run demo_os (demo_started, demo_bound_world) demo_turns = ((m', w'), demo_events)"
    using demo_run' by blast
  show ?thesis
    using media_echo_stream [OF demo_udp_laws demo_media_new demo_start r] demo_sends r
    by (auto simp: demo_start demo_quiet)
qed

theorem media_call_echo_witness: "\<exists>m' w' qs.
    media_run demo_os (media_start demo_os demo_new_session demo_peer 8 101 demo_bound_world) demo_turns = ((m', w'), demo_events)
    \<and> map rtp_parsed (sent_data dw_tx w') = map Some qs \<and> map payload qs = map payload demo_audio"
proof -
  obtain m' w' where r: "media_run demo_os (demo_started, demo_bound_world) demo_turns = ((m', w'), demo_events)"
    using demo_run' by blast
  have "stream_of demo_audio" "set [2, 1] = {1..<length demo_audio}" "3 \<le> length demo_audio" "length demo_audio \<le> 100"
    by (auto simp: stream_of_def demo_audio_def rtp_packet_init_def less_Suc_eq numeral_3_eq_3)
  then show ?thesis
    using media_call_echo [OF demo_udp_laws demo_sends demo_media_new demo_start r, of demo_audio "[2, 1]"] r
    by (auto simp: demo_start demo_quiet transparent_def)
qed

theorem media_symmetric_rtp_witness:
  "ms_remote (fst (fst (media_turn_of demo_os (demo_started, demo_bound_world) RecvTurn)))
    = \<lparr>ep_ip = ''127.0.0.1'', ep_port = 4000\<rparr>"
proof -
  have s: "session_start demo_started 8 101" using media_new_start [OF demo_media_new demo_start] by blast
  let ?p = "demo_audio ! 0"
  let ?dg = "\<lparr>dg_data = rtp_serialize ?p, dg_from = \<lparr>ep_ip = ''127.0.0.1'', ep_port = 4000\<rparr>\<rparr>"
  have wf: "rtp_wf ?p" "length (rtp_serialize ?p) \<le> 2048"
    by (simp_all add: demo_audio_def rtp_wf_def rtp_packet_init_def rtp_serialize_def wr16_def wr32_def)
  obtain v where r: "udp_recvFrom demo_os (ms_sock demo_started) 200 demo_bound_world = (Inr (Some ?dg), v)"
    using wf(2) by (simp add: udp_recvFrom_def udp_read_def demo_os_def udp_recv_buffer_def demo_bound_world_def demo_rx_world_def)
  obtain m' w' evs where t: "media_turn_of demo_os (demo_started, demo_bound_world) RecvTurn = ((m', w'), evs)"
    by (metis surj_pair)
  show ?thesis using media_symmetric_rtp [OF _ _ r t] s wf(1) by (simp add: session_start_def rtp_parsed_serialize t)
qed

theorem media_forward_fits_witness:
  "length (pcm_bytes (upsample8kTo16k (media_decode 8 (payload (demo_audio ! 0))))) = 4
    \<and> frame_header 0x2 (length (pcm_bytes (upsample8kTo16k (media_decode 8 (payload (demo_audio ! 0)))))) \<noteq> None"
proof -
  let ?p = "demo_audio ! 0"
  let ?dg = "\<lparr>dg_data = rtp_serialize ?p, dg_from = \<lparr>ep_ip = ''127.0.0.1'', ep_port = 4000\<rparr>\<rparr>"
  have wf: "rtp_wf ?p" "length (rtp_serialize ?p) \<le> 2048"
    by (simp_all add: demo_audio_def rtp_wf_def rtp_packet_init_def rtp_serialize_def wr16_def wr32_def)
  obtain v where r: "udp_recvFrom demo_os (ms_sock demo_started) 200 demo_bound_world = (Inr (Some ?dg), v)"
    using wf(2) by (simp add: udp_recvFrom_def udp_read_def demo_os_def udp_recv_buffer_def demo_bound_world_def demo_rx_world_def)
  have one: "length (payload ?p) = 1" by (simp add: demo_audio_def)
  have "rtp_parsed (dg_data ?dg) = Some ?p" by (simp add: rtp_parsed_serialize wf(1))
  note f = media_forward_fits [OF demo_udp_laws r this, of 8]
  have "length (pcm_bytes (upsample8kTo16k (media_decode 8 (payload ?p)))) = 4" using f one by linarith
  then show ?thesis using f by blast
qed

theorem media_stop_drains_witness: "\<exists>m' w'.
    media_stop demo_os (demo_started\<lparr>ms_queue := (bq_new 200)\<lparr>bq_items := demo_audio\<rparr>\<rparr>, demo_bound_world) = (m', w')
    \<and> bq_items (ms_queue m') = [] \<and> \<not> ms_outputThread m'
    \<and> sent_data dw_tx w' = map rtp_serialize (echo_stream 8 0x51D0DE70 0 0 demo_audio)"
proof -
  let ?m = "demo_started\<lparr>ms_queue := (bq_new 200)\<lparr>bq_items := demo_audio\<rparr>\<rparr>"
  have s: "session_start demo_started 8 101" "ms_remote demo_started = demo_peer"
    using media_new_start [OF demo_media_new demo_start] by blast+
  obtain m' w' where r: "media_stop demo_os (?m, demo_bound_world) = (m', w')" by fastforce
  show ?thesis using media_stop_drains [OF demo_udp_laws _ _ r] s demo_sends r
    by (simp add: session_start_def delivered_def demo_quiet)
qed

theorem media_call_no_leak_witness:
  "set (dw_open (media_destroy demo_os (fst (media_run demo_os
      (media_start demo_os demo_new_session demo_peer 8 101 demo_bound_world) demo_turns))))
    \<inter> {0..<int (dw_next (media_destroy demo_os (fst (media_run demo_os
      (media_start demo_os demo_new_session demo_peer 8 101 demo_bound_world) demo_turns))))} = {}"
  using media_call_no_leak [OF demo_fd_laws demo_media_new, of demo_peer 8 101 demo_turns]
  by (simp add: demo_rx_world_def demo_world_init_def)

end
