(* ===== verification/Media_Threads.thy ===== *)
theory Media_Threads
  imports Media_Session Jitter_Stream Lock_Discipline
begin

text \<open>
  The threads of \<open>MediaSession\<close> (src/src/app/main.cpp) at the grain of their critical sections. In the
  theory Media_Session an iteration of a loop is one step; here it is as many steps as it has places
  where another thread can come between: a thread has a program counter with its local variables, a
  \<open>lock_guard\<close> is a step that takes the mutex (not enabled while another thread owns it) and a step that
  does the section and releases it, and each call on the socket, the jitter buffer or the WebSocket
  client is a step. The fourth thread is the one of \<open>main\<close>, which prints statistics and stops the session.

  The wait of \<open>BoundedQueue::pop\<close> is a step enabled when the mutex is free and the predicate holds (that no
  wake-up is lost is proved in the theory Bounded_Queue). \<open>active_\<close> is atomic; the WebSocket client locks
  inside its own methods. A call on the jitter buffer is one step although the code takes no lock for
  it: \<open>data_race\<close> says what can go wrong there, and what is proved of the data flow holds for the runs
  in which those calls do not overlap.

  A thread has ended when its counter is at its exit; the flags \<open>ms_recvThread\<close>, \<open>ms_playoutThread\<close> and
  \<open>ms_outputThread\<close>, which say so in Media_Session, are not used here. The arguments of the \<open>printf\<close> in
  \<open>printStats\<close> are evaluated in an order that C++ leaves open; the steps have one of them.

  Shown: every member but the jitter buffer is free of data races in every reachable state, by the
  lock discipline of the theory Lock_Discipline; \<open>stop\<close> ends under every schedule that keeps running
  every thread; a stream of any length that the buffer restores is echoed whole (over Jitter_Stream); and
  the datagrams sent are those of one echo stream, whatever the interleaving of the steps.
\<close>

section \<open>Threads and mutexes\<close>

datatype mutex = RemoteMu | StatsMu | QueueMu

datatype thread = Receiver | Player | Echoer | Main

datatype recv_pc =
    RTest
  | RRecv
  | RLatch endpoint rtp_packet
  | RLatchIn endpoint rtp_packet
  | RPacket rtp_packet
  | RDigit char
  | RStats rtp_packet
  | RStatsIn rtp_packet
  | RInsert rtp_packet
  | RExit

datatype playout_pc = PTest | PPop | PPush rtp_packet | PPushIn rtp_packet | PExit

datatype output_pc =
    OWait
  | OPopIn
  | OGot rtp_packet
  | OForward rtp_packet
  | OBuild rtp_packet
  | OSend rtp_packet
  | OSendIn rtp_packet
  | OSendTo rtp_packet endpoint
  | OExit

text \<open>Of \<open>main\<close>: idle in its own loop, in \<open>printStats\<close>, in \<open>stop\<close>, and after it.\<close>

datatype main_pc =
    MIdle
  | MStatsIn
  | MPrint nat
  | MSize media_stats
  | MSizeIn media_stats
  | MClose
  | MCloseIn
  | MJoinRecv
  | MJoinPlayout
  | MJoinOutput
  | MWsClose
  | MStopped

record 'w threads =
  th_m :: media_session
  th_w :: 'w
  th_owner :: "mutex \<Rightarrow> thread option"
  th_recv :: recv_pc
  th_playout :: playout_pc
  th_output :: output_pc
  th_main :: main_pc
  th_lines :: "media_stats list"

text \<open>After \<open>start\<close>: the three threads at the top of their loops.\<close>

definition threads_of :: "'w media_state \<Rightarrow> 'w threads" where
  "threads_of st = \<lparr>th_m = fst st, th_w = snd st, th_owner = (\<lambda>_. None), th_recv = RTest, th_playout = PTest,
     th_output = OWait, th_main = MIdle, th_lines = []\<rparr>"

definition acquire :: "thread \<Rightarrow> mutex \<Rightarrow> 'w threads \<Rightarrow> 'w threads option" where
  "acquire t mu c = (if th_owner c mu = None then Some (c\<lparr>th_owner := (th_owner c)(mu := Some t)\<rparr>) else None)"

definition release :: "mutex \<Rightarrow> 'w threads \<Rightarrow> 'w threads" where
  "release mu c = c\<lparr>th_owner := (th_owner c)(mu := None)\<rparr>"

section \<open>The steps of each thread\<close>

text \<open>\<open>None\<close> when the thread is blocked or has ended. The events are those of Media_Session.\<close>

type_synonym 'w stepped = "('w threads \<times> media_event list) option"

definition quiet :: "'w threads option \<Rightarrow> 'w stepped" where
  "quiet r = map_option (\<lambda>c. (c, [])) r"

definition recv_step :: "'w net_os \<Rightarrow> 'w threads \<Rightarrow> 'w stepped" where
  "recv_step os c = (let m = th_m c in
    case th_recv c of
      RTest \<Rightarrow> quiet (Some (c\<lparr>th_recv := if ms_active m then RRecv else RExit\<rparr>))
    | RRecv \<Rightarrow>
        (case udp_recvFrom os (ms_sock m) 200 (th_w c) of
           (Inl _, w) \<Rightarrow> quiet (Some (c\<lparr>th_w := w, th_recv := RTest\<rparr>))
         | (Inr None, w) \<Rightarrow> quiet (Some (c\<lparr>th_w := w, th_recv := RTest\<rparr>))
         | (Inr (Some dg), w) \<Rightarrow>
             (case rtp_parsed (dg_data dg) of
                None \<Rightarrow> quiet (Some (c\<lparr>th_w := w, th_recv := RTest\<rparr>))
              | Some pkt \<Rightarrow> quiet (Some (c\<lparr>th_w := w, th_recv := RLatch (dg_from dg) pkt\<rparr>))))
    | RLatch src pkt \<Rightarrow> quiet (map_option (\<lambda>c. c\<lparr>th_recv := RLatchIn src pkt\<rparr>) (acquire Receiver RemoteMu c))
    | RLatchIn src pkt \<Rightarrow> quiet (Some (release RemoteMu (c\<lparr>th_m := media_latch m src, th_recv := RPacket pkt\<rparr>)))
    | RPacket pkt \<Rightarrow>
        (if ms_dtmfPayloadType m \<ge> 0 \<and> uint (payloadType pkt) = ms_dtmfPayloadType m then
           (case dtmf_feed (ms_dtmf m) (payload pkt) of
              None \<Rightarrow> quiet (Some (c\<lparr>th_recv := RTest\<rparr>))
            | Some (d, None) \<Rightarrow> quiet (Some (c\<lparr>th_m := m\<lparr>ms_dtmf := d\<rparr>, th_recv := RTest\<rparr>))
            | Some (d, Some digit) \<Rightarrow> Some (c\<lparr>th_m := m\<lparr>ms_dtmf := d\<rparr>, th_recv := RDigit digit\<rparr>, [Pressed digit]))
         else quiet (Some (c\<lparr>th_recv := RStats pkt\<rparr>)))
    | RDigit digit \<Rightarrow>
        (let (m, w) = media_onDtmfDigit os m digit (th_w c)
         in quiet (Some (c\<lparr>th_m := m, th_w := w, th_recv := RTest\<rparr>)))
    | RStats pkt \<Rightarrow> quiet (map_option (\<lambda>c. c\<lparr>th_recv := RStatsIn pkt\<rparr>) (acquire Receiver StatsMu c))
    | RStatsIn pkt \<Rightarrow>
        quiet (Some (release StatsMu (c\<lparr>th_m := m\<lparr>ms_rtpStats :=
          rs_update (ms_rtpStats m) (sequence pkt) (timestamp pkt) (os_now os (th_w c))\<rparr>, th_recv := RInsert pkt\<rparr>)))
    | RInsert pkt \<Rightarrow>
        Some (c\<lparr>th_m := m\<lparr>ms_jitter := jb_insert (ms_jitter m) pkt\<rparr>, th_recv := RTest\<rparr>, [Inserted pkt])
    | RExit \<Rightarrow> None)"

definition playout_step :: "'w threads \<Rightarrow> 'w stepped" where
  "playout_step c = (let m = th_m c in
    case th_playout c of
      PTest \<Rightarrow> quiet (Some (c\<lparr>th_playout := if ms_active m then PPop else PExit\<rparr>))
    | PPop \<Rightarrow>
        (let (jitter, pkt, lost) = jb_pop (ms_jitter m)
         in Some (c\<lparr>th_m := m\<lparr>ms_jitter := jitter\<rparr>,
              th_playout := (case pkt of None \<Rightarrow> PTest | Some p \<Rightarrow> PPush p)\<rparr>, [Popped]))
    | PPush pkt \<Rightarrow> quiet (map_option (\<lambda>c. c\<lparr>th_playout := PPushIn pkt\<rparr>) (acquire Player QueueMu c))
    | PPushIn pkt \<Rightarrow>
        quiet (Some (release QueueMu (c\<lparr>th_m := m\<lparr>ms_queue := snd (bq_tryPush (ms_queue m) pkt)\<rparr>, th_playout := PTest\<rparr>)))
    | PExit \<Rightarrow> None)"

definition output_step :: "'w net_os \<Rightarrow> 'w threads \<Rightarrow> 'w stepped" where
  "output_step os c = (let m = th_m c in
    case th_output c of
      OWait \<Rightarrow>
        (if bq_items (ms_queue m) \<noteq> [] \<or> bq_closed (ms_queue m)
         then quiet (map_option (\<lambda>c. c\<lparr>th_output := OPopIn\<rparr>) (acquire Echoer QueueMu c)) else None)
    | OPopIn \<Rightarrow>
        (case bq_pop (ms_queue m) of
           None \<Rightarrow> quiet (Some (release QueueMu (c\<lparr>th_output := OWait\<rparr>)))
         | Some (None, q) \<Rightarrow> quiet (Some (release QueueMu (c\<lparr>th_m := m\<lparr>ms_queue := q\<rparr>, th_output := OExit\<rparr>)))
         | Some (Some pkt, q) \<Rightarrow> quiet (Some (release QueueMu (c\<lparr>th_m := m\<lparr>ms_queue := q\<rparr>, th_output := OGot pkt\<rparr>))))
    | OGot pkt \<Rightarrow>
        quiet (Some (c\<lparr>th_output :=
          if ws_connected (ms_ws m) \<and> media_decode (ms_payloadType m) (payload pkt) \<noteq> [] then OForward pkt else OBuild pkt\<rparr>))
    | OForward pkt \<Rightarrow>
        (let (ok, ws, w) = ws_sendBinary os (ms_ws m)
               (pcm_bytes (upsample8kTo16k (media_decode (ms_payloadType m) (payload pkt)))) (th_w c)
         in quiet (Some (c\<lparr>th_m := m\<lparr>ms_ws := ws\<rparr>, th_w := w, th_output := OBuild pkt\<rparr>)))
    | OBuild pkt \<Rightarrow>
        (let pcm = media_decode (ms_payloadType m) (payload pkt); out = media_out_packet m pcm
         in Some (c\<lparr>th_m := m\<lparr>ms_outSeq := ms_outSeq m + 1, ms_outTs := ms_outTs m + of_nat (length pcm)\<rparr>,
              th_output := OSend out\<rparr>, [Echoed pkt]))
    | OSend out \<Rightarrow> quiet (map_option (\<lambda>c. c\<lparr>th_output := OSendIn out\<rparr>) (acquire Echoer RemoteMu c))
    | OSendIn out \<Rightarrow> quiet (Some (release RemoteMu (c\<lparr>th_output := OSendTo out (ms_remote m)\<rparr>)))
    | OSendTo out dest \<Rightarrow>
        (let (r, w) = udp_sendTo os (ms_sock m) (rtp_serialize out) dest (th_w c)
         in quiet (Some (c\<lparr>th_w := w, th_output := OWait\<rparr>)))
    | OExit \<Rightarrow> None)"

text \<open>\<open>printStats\<close> holds \<open>statsMu_\<close> to its end; \<open>queue_.size()\<close> locks the queue inside it.\<close>

definition main_step :: "'w net_os \<Rightarrow> 'w threads \<Rightarrow> 'w stepped" where
  "main_step os c = (let m = th_m c in quiet (
    case th_main c of
      MIdle \<Rightarrow> map_option (\<lambda>c. c\<lparr>th_main := MStatsIn\<rparr>) (acquire Main StatsMu c)
    | MStatsIn \<Rightarrow> Some (c\<lparr>th_main := MPrint (st_currentDepth (jb_stats (ms_jitter m)))\<rparr>)
    | MPrint depth \<Rightarrow>
        Some (c\<lparr>th_main := MSize \<lparr>mst_recv = rs_received (ms_rtpStats m), mst_loss = rs_lossFraction (ms_rtpStats m) * 100,
          mst_reorder = rs_reordered (ms_rtpStats m), mst_jitter = rs_jitterMs (ms_rtpStats m),
          mst_jbuf = depth, mst_q = 0\<rparr>\<rparr>)
    | MSize st \<Rightarrow> map_option (\<lambda>c. c\<lparr>th_main := MSizeIn st\<rparr>) (acquire Main QueueMu c)
    | MSizeIn st \<Rightarrow>
        Some (release StatsMu (release QueueMu (c\<lparr>th_lines := th_lines c @ [st\<lparr>mst_q := bq_size (ms_queue m)\<rparr>],
          th_main := MIdle\<rparr>)))
    | MClose \<Rightarrow> map_option (\<lambda>c. c\<lparr>th_main := MCloseIn\<rparr>) (acquire Main QueueMu c)
    | MCloseIn \<Rightarrow> Some (release QueueMu (c\<lparr>th_m := m\<lparr>ms_queue := bq_close (ms_queue m)\<rparr>, th_main := MJoinRecv\<rparr>))
    | MJoinRecv \<Rightarrow> if th_recv c = RExit then Some (c\<lparr>th_main := MJoinPlayout\<rparr>) else None
    | MJoinPlayout \<Rightarrow> if th_playout c = PExit then Some (c\<lparr>th_main := MJoinOutput\<rparr>) else None
    | MJoinOutput \<Rightarrow> if th_output c = OExit then Some (c\<lparr>th_main := MWsClose\<rparr>) else None
    | MWsClose \<Rightarrow>
        (let (ws, w) = ws_close os (ms_ws m) (th_w c) in Some (c\<lparr>th_m := m\<lparr>ms_ws := ws\<rparr>, th_w := w, th_main := MStopped\<rparr>))
    | MStopped \<Rightarrow> None))"

text \<open>A step of the schedule: a thread goes on, or \<open>main\<close>, when idle, calls \<open>stop\<close>.\<close>

datatype thread_turn = Go thread | CallStop

definition fine_step :: "'w net_os \<Rightarrow> 'w threads \<Rightarrow> thread_turn \<Rightarrow> 'w stepped" where
  "fine_step os c e =
    (case e of
       Go Receiver \<Rightarrow> recv_step os c
     | Go Player \<Rightarrow> playout_step c
     | Go Echoer \<Rightarrow> output_step os c
     | Go Main \<Rightarrow> main_step os c
     | CallStop \<Rightarrow>
         if th_main c = MIdle \<and> ms_active (th_m c)
         then quiet (Some (c\<lparr>th_m := (th_m c)\<lparr>ms_active := False\<rparr>, th_main := MClose\<rparr>)) else None)"

fun fine_run :: "'w net_os \<Rightarrow> 'w threads \<Rightarrow> thread_turn list \<Rightarrow> 'w threads \<times> media_event list" where
  "fine_run os c [] = (c, [])"
| "fine_run os c (e # es) =
    (case fine_step os c e of
       None \<Rightarrow> fine_run os c es
     | Some (c, a) \<Rightarrow> (let (c, b) = fine_run os c es in (c, a @ b)))"

section \<open>The accesses of the threads\<close>

datatype member = RemoteEndpoint | PayloadTypes | QueueState | JitterState | StatsState | DtmfState | OutStream

definition in_section :: "'w threads \<Rightarrow> thread \<Rightarrow> mutex \<Rightarrow> bool" where
  "in_section c t mu =
    (case t of
       Receiver \<Rightarrow> (case th_recv c of RLatchIn _ _ \<Rightarrow> mu = RemoteMu | RStatsIn _ \<Rightarrow> mu = StatsMu | _ \<Rightarrow> False)
     | Player \<Rightarrow> (case th_playout c of PPushIn _ \<Rightarrow> mu = QueueMu | _ \<Rightarrow> False)
     | Echoer \<Rightarrow> (case th_output c of OPopIn \<Rightarrow> mu = QueueMu | OSendIn _ \<Rightarrow> mu = RemoteMu | _ \<Rightarrow> False)
     | Main \<Rightarrow> (case th_main c of
           MStatsIn \<Rightarrow> mu = StatsMu | MPrint _ \<Rightarrow> mu = StatsMu | MSize _ \<Rightarrow> mu = StatsMu
         | MSizeIn _ \<Rightarrow> mu = StatsMu \<or> mu = QueueMu | MCloseIn \<Rightarrow> mu = QueueMu | _ \<Rightarrow> False))"

text \<open>Whether the next step of the thread reads (\<open>wr\<close> false) or writes the member.\<close>

definition accesses :: "'w threads \<Rightarrow> thread \<Rightarrow> member \<Rightarrow> bool \<Rightarrow> bool" where
  "accesses c t x wr =
    (case t of
       Receiver \<Rightarrow> (case th_recv c of
           RLatchIn _ _ \<Rightarrow> x = RemoteEndpoint
         | RPacket _ \<Rightarrow> x = DtmfState \<or> (x = PayloadTypes \<and> \<not> wr)
         | RStatsIn _ \<Rightarrow> x = StatsState
         | RInsert _ \<Rightarrow> x = JitterState
         | _ \<Rightarrow> False)
     | Player \<Rightarrow> (case th_playout c of PPop \<Rightarrow> x = JitterState | PPushIn _ \<Rightarrow> x = QueueState | _ \<Rightarrow> False)
     | Echoer \<Rightarrow> (case th_output c of
           OPopIn \<Rightarrow> x = QueueState
         | OGot _ \<Rightarrow> x = PayloadTypes \<and> \<not> wr
         | OForward _ \<Rightarrow> x = PayloadTypes \<and> \<not> wr
         | OBuild _ \<Rightarrow> x = OutStream \<or> (x = PayloadTypes \<and> \<not> wr)
         | OSendIn _ \<Rightarrow> x = RemoteEndpoint \<and> \<not> wr
         | _ \<Rightarrow> False)
     | Main \<Rightarrow> (case th_main c of
           MStatsIn \<Rightarrow> x = JitterState \<and> \<not> wr
         | MPrint _ \<Rightarrow> x = StatsState \<and> \<not> wr
         | MSizeIn _ \<Rightarrow> x = QueueState \<and> \<not> wr
         | MCloseIn \<Rightarrow> x = QueueState
         | _ \<Rightarrow> False))"

text \<open>How the class means to protect its members.\<close>

definition protection :: "member \<Rightarrow> (mutex, thread) policy" where
  "protection x =
    (case x of
       RemoteEndpoint \<Rightarrow> Guarded RemoteMu
     | PayloadTypes \<Rightarrow> Constant
     | QueueState \<Rightarrow> Guarded QueueMu
     | JitterState \<Rightarrow> Unprotected
     | StatsState \<Rightarrow> Guarded StatsMu
     | DtmfState \<Rightarrow> Owned Receiver
     | OutStream \<Rightarrow> Owned Echoer)"

definition kept :: "member \<Rightarrow> media_session \<Rightarrow> media_session \<Rightarrow> bool" where
  "kept x m m' =
    (case x of
       RemoteEndpoint \<Rightarrow> ms_remote m' = ms_remote m \<and> ms_remoteLatched m' = ms_remoteLatched m
     | PayloadTypes \<Rightarrow> ms_payloadType m' = ms_payloadType m \<and> ms_dtmfPayloadType m' = ms_dtmfPayloadType m
     | QueueState \<Rightarrow> ms_queue m' = ms_queue m
     | JitterState \<Rightarrow> ms_jitter m' = ms_jitter m
     | StatsState \<Rightarrow> ms_rtpStats m' = ms_rtpStats m
     | DtmfState \<Rightarrow> ms_dtmf m' = ms_dtmf m
     | OutStream \<Rightarrow> ms_outSsrc m' = ms_outSsrc m \<and> ms_outSeq m' = ms_outSeq m \<and> ms_outTs m' = ms_outTs m)"

text \<open>A data race: two threads whose next steps are on the same member, one of them writing.\<close>

definition data_race :: "'w threads \<Rightarrow> member \<Rightarrow> bool" where
  "data_race c x \<longleftrightarrow> (\<exists>t u wr. t \<noteq> u \<and> accesses c t x True \<and> accesses c u x wr)"

definition fine_next :: "'w net_os \<Rightarrow> 'w threads \<Rightarrow> thread_turn \<Rightarrow> 'w threads" where
  "fine_next os c e = (case fine_step os c e of None \<Rightarrow> c | Some (c', _) \<Rightarrow> c')"

lemma fine_run_next: "fst (fine_run os c es) = foldl (fine_next os) c es"
proof (induction es arbitrary: c)
  case (Cons e es)
  then show ?case by (cases "fine_step os c e") (auto simp: fine_next_def split_beta Let_def)
qed simp

named_theorems thread_steps

lemmas [thread_steps] = recv_step_def playout_step_def output_step_def main_step_def quiet_def acquire_def release_def

text \<open>A step writes only the members that \<open>accesses\<close> says it writes.\<close>

lemma accesses_sound:
  assumes "fine_step os c (Go t) = Some (c', evs)"
  shows "kept x (th_m c) (th_m c') \<or> accesses c t x True"
proof (cases t)
  case Receiver
  then show ?thesis using assms
    by (cases x; cases "th_recv c") (auto simp: fine_step_def thread_steps accesses_def kept_def Let_def media_latch_def
        media_onDtmfDigit_def split: if_splits prod.splits sum.splits option.splits)
next
  case Player
  then show ?thesis using assms
    by (cases x; cases "th_playout c") (auto simp: fine_step_def thread_steps accesses_def kept_def Let_def
        split: if_splits prod.splits option.splits)
next
  case Echoer
  then show ?thesis using assms
    by (cases x; cases "th_output c") (auto simp: fine_step_def thread_steps accesses_def kept_def Let_def
        split: if_splits prod.splits option.splits)
next
  case Main
  then show ?thesis using assms
    by (cases x; cases "th_main c") (auto simp: fine_step_def thread_steps accesses_def kept_def Let_def
        split: if_splits prod.splits option.splits)
qed


definition turn_thread :: "thread_turn \<Rightarrow> thread" where
  "turn_thread e = (case e of Go t \<Rightarrow> t | CallStop \<Rightarrow> Main)"

lemma step_frames:
  "recv_step os c = Some (c', evs) \<Longrightarrow> th_playout c' = th_playout c \<and> th_output c' = th_output c \<and> th_main c' = th_main c"
  "playout_step c = Some (c', evs) \<Longrightarrow> th_recv c' = th_recv c \<and> th_output c' = th_output c \<and> th_main c' = th_main c"
  "output_step os c = Some (c', evs) \<Longrightarrow> th_recv c' = th_recv c \<and> th_playout c' = th_playout c \<and> th_main c' = th_main c"
  "main_step os c = Some (c', evs) \<Longrightarrow> th_recv c' = th_recv c \<and> th_playout c' = th_playout c \<and> th_output c' = th_output c"
  by (auto simp: thread_steps Let_def split: recv_pc.splits playout_pc.splits output_pc.splits main_pc.splits
      if_splits prod.splits sum.splits option.splits)


lemma fine_others: "t \<noteq> turn_thread e \<Longrightarrow> in_section (fine_next os c e) t mu = in_section c t mu"
proof (cases "fine_step os c e")
  case (Some r)
  assume t: "t \<noteq> turn_thread e"
  obtain c' evs where s: "fine_step os c e = Some (c', evs)" using Some by (cases r) auto
  show ?thesis
  proof (cases e)
    case (Go u)
    then show ?thesis using t s by (cases u; cases t)
      (auto simp: fine_next_def fine_step_def turn_thread_def in_section_def dest: step_frames)
  qed (use t s in \<open>cases t; auto simp: fine_next_def fine_step_def turn_thread_def in_section_def quiet_def split: if_splits\<close>)
qed (simp add: fine_next_def)

definition mutex_move :: "'w threads \<Rightarrow> 'w threads \<Rightarrow> thread \<Rightarrow> mutex \<Rightarrow> bool" where
  "mutex_move c c' t mu \<longleftrightarrow>
    th_owner c' mu = th_owner c mu \<and> in_section c' t mu = in_section c t mu
    \<or> th_owner c mu = None \<and> th_owner c' mu = Some t \<and> in_section c' t mu
    \<or> in_section c t mu \<and> th_owner c' mu = None \<and> \<not> in_section c' t mu"

lemma recv_moved: "recv_step os c = Some (c', evs) \<Longrightarrow> mutex_move c c' Receiver mu"
  by (cases "th_recv c") (auto simp: mutex_move_def thread_steps in_section_def Let_def
      split: if_splits prod.splits sum.splits option.splits)

lemma playout_moved: "playout_step c = Some (c', evs) \<Longrightarrow> mutex_move c c' Player mu"
  by (cases "th_playout c") (auto simp: mutex_move_def thread_steps in_section_def Let_def
      split: if_splits prod.splits option.splits)

lemma output_moved: "output_step os c = Some (c', evs) \<Longrightarrow> mutex_move c c' Echoer mu"
  by (cases "th_output c") (auto simp: mutex_move_def thread_steps in_section_def Let_def
      split: if_splits prod.splits option.splits)

lemma main_moved: "main_step os c = Some (c', evs) \<Longrightarrow> mutex_move c c' Main mu"
  by (cases "th_main c") (auto simp: mutex_move_def thread_steps in_section_def Let_def
      split: if_splits prod.splits option.splits)

lemma fine_moved: "mutex_move c (fine_next os c e) (turn_thread e) mu"
proof (cases "fine_step os c e")
  case (Some r)
  obtain c' evs where s: "fine_step os c e = Some (c', evs)" using Some by (cases r) auto
  show ?thesis
  proof (cases e)
    case (Go u)
    then show ?thesis using s by (cases u)
      (auto simp: fine_next_def fine_step_def turn_thread_def intro: recv_moved playout_moved output_moved main_moved)
  qed (use s in \<open>auto simp: fine_next_def fine_step_def turn_thread_def in_section_def quiet_def mutex_move_def split: if_splits\<close>)
qed (simp add: fine_next_def mutex_move_def)

lemma accesses_policy:
  "accesses c t x wr \<Longrightarrow> protection x = Guarded mu \<Longrightarrow> in_section c t mu"
  "accesses c t x wr \<Longrightarrow> protection x = Owned u \<Longrightarrow> t = u"
  "accesses c t x wr \<Longrightarrow> protection x = Constant \<Longrightarrow> \<not> wr"
  by (cases x; cases t; auto simp: accesses_def protection_def in_section_def
      split: recv_pc.splits playout_pc.splits output_pc.splits main_pc.splits)+

interpretation locks: lock_discipline "fine_next os" th_owner in_section accesses protection turn_thread for os
proof unfold_locales
  show "in_section (fine_next os s e) t mu = in_section s t mu" if "t \<noteq> turn_thread e" for s e t mu
    using that by (rule fine_others)
qed (use fine_moved accesses_policy in \<open>unfold mutex_move_def, blast+\<close>)

lemma start_locked: "locks.locked (threads_of st)"
  by (auto simp: locks.locked_def threads_of_def in_section_def split: thread.split)


section \<open>Stopping\<close>

text \<open>How far \<open>stop\<close> has come.\<close>

definition stop_rank :: "main_pc \<Rightarrow> nat" where
  "stop_rank pc =
    (case pc of MClose \<Rightarrow> 1 | MCloseIn \<Rightarrow> 2 | MJoinRecv \<Rightarrow> 3 | MJoinPlayout \<Rightarrow> 4 | MJoinOutput \<Rightarrow> 5
       | MWsClose \<Rightarrow> 6 | MStopped \<Rightarrow> 7 | _ \<Rightarrow> 0)"

definition stopping :: "'w threads \<Rightarrow> bool" where
  "stopping c \<longleftrightarrow>
    (ms_active (th_m c) \<longleftrightarrow> stop_rank (th_main c) = 0)
    \<and> (3 \<le> stop_rank (th_main c) \<longrightarrow> bq_closed (ms_queue (th_m c)))
    \<and> (4 \<le> stop_rank (th_main c) \<longrightarrow> th_recv c = RExit)
    \<and> (5 \<le> stop_rank (th_main c) \<longrightarrow> th_playout c = PExit)
    \<and> (6 \<le> stop_rank (th_main c) \<longrightarrow> th_output c = OExit)
    \<and> (th_main c = MStopped \<longrightarrow> \<not> ws_connected (ms_ws (th_m c)))
    \<and> (th_output c = OPopIn \<longrightarrow> bq_items (ms_queue (th_m c)) \<noteq> [] \<or> bq_closed (ms_queue (th_m c)))
    \<and> (th_output c = OExit \<longrightarrow> bq_items (ms_queue (th_m c)) = [] \<and> bq_closed (ms_queue (th_m c)))"

text \<open>A bound on the steps that are left once \<open>active_\<close> is false.\<close>

definition recv_work :: "recv_pc \<Rightarrow> nat" where
  "recv_work pc =
    (case pc of RExit \<Rightarrow> 0 | RTest \<Rightarrow> 1 | RInsert _ \<Rightarrow> 2 | RDigit _ \<Rightarrow> 2 | RStatsIn _ \<Rightarrow> 3 | RStats _ \<Rightarrow> 4
       | RPacket _ \<Rightarrow> 5 | RLatchIn _ _ \<Rightarrow> 6 | RLatch _ _ \<Rightarrow> 7 | RRecv \<Rightarrow> 8)"

definition playout_work :: "playout_pc \<Rightarrow> nat" where
  "playout_work pc = (case pc of PExit \<Rightarrow> 0 | PTest \<Rightarrow> 1 | PPushIn _ \<Rightarrow> 12 | PPush _ \<Rightarrow> 13 | PPop \<Rightarrow> 14)"

definition output_work :: "output_pc \<Rightarrow> nat" where
  "output_work pc =
    (case pc of OExit \<Rightarrow> 0 | OPopIn \<Rightarrow> 1 | OWait \<Rightarrow> 2 | OSendTo _ _ \<Rightarrow> 3 | OSendIn _ \<Rightarrow> 4 | OSend _ \<Rightarrow> 5
       | OBuild _ \<Rightarrow> 6 | OForward _ \<Rightarrow> 7 | OGot _ \<Rightarrow> 8)"

definition stop_work :: "'w threads \<Rightarrow> nat" where
  "stop_work c = recv_work (th_recv c) + playout_work (th_playout c) + output_work (th_output c)
    + 10 * length (bq_items (ms_queue (th_m c))) + (7 - stop_rank (th_main c))"

lemma media_latch_frame [simp]: "ms_active (media_latch m src) = ms_active m" "ms_ws (media_latch m src) = ms_ws m"
  "ms_queue (media_latch m src) = ms_queue m"
  by (simp_all add: media_latch_def)

lemma recv_step_pc:
  assumes "recv_step os c = Some (c', evs)"
  shows "th_recv c \<noteq> RExit \<and> ms_active (th_m c') = ms_active (th_m c) \<and> ms_queue (th_m c') = ms_queue (th_m c)
    \<and> (th_recv c' = RExit \<longrightarrow> \<not> ms_active (th_m c))
    \<and> (\<not> ms_active (th_m c) \<longrightarrow> recv_work (th_recv c') < recv_work (th_recv c))"
  using assms by (cases "th_recv c") (auto simp: thread_steps recv_work_def Let_def media_onDtmfDigit_def
      split: if_splits prod.splits sum.splits option.splits)

lemma playout_step_pc:
  assumes "playout_step c = Some (c', evs)"
  shows "th_playout c \<noteq> PExit \<and> ms_active (th_m c') = ms_active (th_m c) \<and> ms_ws (th_m c') = ms_ws (th_m c)
    \<and> bq_closed (ms_queue (th_m c')) = bq_closed (ms_queue (th_m c))
    \<and> (bq_items (ms_queue (th_m c)) \<noteq> [] \<longrightarrow> bq_items (ms_queue (th_m c')) \<noteq> [])
    \<and> (bq_closed (ms_queue (th_m c)) \<longrightarrow> bq_items (ms_queue (th_m c')) = bq_items (ms_queue (th_m c)))
    \<and> (th_playout c' = PExit \<longrightarrow> \<not> ms_active (th_m c))
    \<and> (\<not> ms_active (th_m c) \<longrightarrow> playout_work (th_playout c') + 10 * length (bq_items (ms_queue (th_m c')))
         < playout_work (th_playout c) + 10 * length (bq_items (ms_queue (th_m c))))"
  using assms by (cases "th_playout c") (auto simp: thread_steps playout_work_def Let_def bq_tryPush_def
      split: if_splits prod.splits option.splits)

lemma output_step_pc:
  assumes "output_step os c = Some (c', evs)"
    and "th_output c = OPopIn \<Longrightarrow> bq_items (ms_queue (th_m c)) \<noteq> [] \<or> bq_closed (ms_queue (th_m c))"
  shows "th_output c \<noteq> OExit \<and> ms_active (th_m c') = ms_active (th_m c)
    \<and> bq_closed (ms_queue (th_m c')) = bq_closed (ms_queue (th_m c))
    \<and> (th_output c' = OPopIn \<longrightarrow> bq_items (ms_queue (th_m c')) \<noteq> [] \<or> bq_closed (ms_queue (th_m c')))
    \<and> (th_output c' = OExit \<longrightarrow> bq_items (ms_queue (th_m c')) = [] \<and> bq_closed (ms_queue (th_m c')))
    \<and> output_work (th_output c') + 10 * length (bq_items (ms_queue (th_m c')))
         < output_work (th_output c) + 10 * length (bq_items (ms_queue (th_m c)))"
  using assms by (cases "th_output c") (auto simp: thread_steps output_work_def Let_def bq_pop_def
      neq_Nil_conv split: if_splits prod.splits option.splits)

lemma main_step_pc:
  assumes "main_step os c = Some (c', evs)"
  shows "th_main c \<noteq> MStopped \<and> ms_active (th_m c') = ms_active (th_m c)
    \<and> bq_items (ms_queue (th_m c')) = bq_items (ms_queue (th_m c))
    \<and> (bq_closed (ms_queue (th_m c)) \<or> th_main c = MCloseIn \<longleftrightarrow> bq_closed (ms_queue (th_m c')))
    \<and> (if stop_rank (th_main c) = 0 then stop_rank (th_main c') = 0 else stop_rank (th_main c') = Suc (stop_rank (th_main c)))
    \<and> (th_main c = MJoinRecv \<longrightarrow> th_recv c = RExit) \<and> (th_main c = MJoinPlayout \<longrightarrow> th_playout c = PExit)
    \<and> (th_main c = MJoinOutput \<longrightarrow> th_output c = OExit)
    \<and> (th_main c' = MStopped \<longrightarrow> \<not> ws_connected (ms_ws (th_m c')))"
  using assms by (cases "th_main c") (auto simp: thread_steps stop_rank_def Let_def bq_close_def
      dest: ws_close_facts(2) split: if_splits prod.splits option.splits)


lemma stop_rank_pc:
  "stop_rank pc = 1 \<longleftrightarrow> pc = MClose" "stop_rank pc = 2 \<longleftrightarrow> pc = MCloseIn" "stop_rank pc = 3 \<longleftrightarrow> pc = MJoinRecv"
  "stop_rank pc = 4 \<longleftrightarrow> pc = MJoinPlayout" "stop_rank pc = 5 \<longleftrightarrow> pc = MJoinOutput" "stop_rank pc = 6 \<longleftrightarrow> pc = MWsClose"
  "stop_rank pc = 7 \<longleftrightarrow> pc = MStopped" "stop_rank pc \<le> 7"
  by (cases pc; simp add: stop_rank_def)+

lemma recv_stopping:
  assumes "recv_step os c = Some (c', evs)" "stopping c"
  shows "stopping c' \<and> (\<not> ms_active (th_m c) \<longrightarrow> stop_work c' < stop_work c)"
proof -
  have "th_main c \<noteq> MStopped"
  proof
    assume "th_main c = MStopped"
    then have "th_recv c = RExit" using assms(2) by (simp add: stopping_def stop_rank_def)
    then show False using recv_step_pc [OF assms(1)] by blast
  qed
  then have "stopping c'" using recv_step_pc [OF assms(1)] step_frames(1) [OF assms(1)] assms(2)
    by (auto simp: stopping_def)
  then show ?thesis using recv_step_pc [OF assms(1)] step_frames(1) [OF assms(1)]
    by (auto simp: stop_work_def)
qed

lemma playout_stopping:
  assumes "playout_step c = Some (c', evs)" "stopping c"
  shows "stopping c' \<and> (\<not> ms_active (th_m c) \<longrightarrow> stop_work c' < stop_work c)"
proof
  note p = playout_step_pc [OF assms(1)] step_frames(2) [OF assms(1)]
  show "stopping c'" using p assms(2) by (auto simp: stopping_def)
  show "\<not> ms_active (th_m c) \<longrightarrow> stop_work c' < stop_work c" using p by (auto simp: stop_work_def)
qed

lemma output_stopping:
  assumes "output_step os c = Some (c', evs)" "stopping c"
  shows "stopping c' \<and> (\<not> ms_active (th_m c) \<longrightarrow> stop_work c' < stop_work c)"
proof -
  have "th_output c = OPopIn \<Longrightarrow> bq_items (ms_queue (th_m c)) \<noteq> [] \<or> bq_closed (ms_queue (th_m c))"
    using assms(2) by (simp add: stopping_def)
  note p = output_step_pc [OF assms(1) this]
  have "th_main c \<noteq> MStopped"
  proof
    assume "th_main c = MStopped"
    then have "th_output c = OExit" using assms(2) by (simp add: stopping_def stop_rank_def)
    then show False using p by blast
  qed
  then have "stopping c'" using p step_frames(3) [OF assms(1)] assms(2) by (auto simp: stopping_def)
  then show ?thesis using p step_frames(3) [OF assms(1)] by (auto simp: stop_work_def)
qed

lemma main_stopping:
  assumes "main_step os c = Some (c', evs)" "stopping c"
  shows "stopping c' \<and> (\<not> ms_active (th_m c) \<longrightarrow> stop_work c' < stop_work c)"
proof -
  note p = main_step_pc [OF assms(1)]
  note f = step_frames(4) [OF assms(1)]
  show ?thesis
  proof (cases "stop_rank (th_main c) = 0")
    case True
    then show ?thesis using p f assms(2) by (auto simp: stopping_def stop_work_def)
  next
    case False
    then have r: "stop_rank (th_main c') = Suc (stop_rank (th_main c))" using p by simp
    have "stop_rank (th_main c) < 7"
      using p stop_rank_pc(7,8) [of "th_main c"] by linarith
    then consider "th_main c = MClose" | "th_main c = MCloseIn" | "th_main c = MJoinRecv" | "th_main c = MJoinPlayout"
      | "th_main c = MJoinOutput" | "th_main c = MWsClose"
      using False by (cases "th_main c") (auto simp: stop_rank_def)
    then show ?thesis using p f assms(2) r
      by cases (auto simp: stopping_def stop_work_def stop_rank_def)
  qed
qed

lemma fine_stopping:
  assumes "stopping c" "fine_step os c e = Some (c', evs)"
  shows "stopping c' \<and> (\<not> ms_active (th_m c) \<longrightarrow> stop_work c' < stop_work c \<and> \<not> ms_active (th_m c'))"
proof (cases e)
  case (Go t)
  have "ms_active (th_m c') = ms_active (th_m c)"
  proof (cases t)
    case Echoer
    then have "output_step os c = Some (c', evs)" using assms(2) Go by (simp add: fine_step_def)
    from output_step_pc [OF this] assms(1) show ?thesis by (simp add: stopping_def)
  qed (use assms(2) Go in \<open>auto simp: fine_step_def dest: recv_step_pc playout_step_pc main_step_pc\<close>)
  then show ?thesis using assms Go
    by (cases t) (auto simp: fine_step_def dest: recv_stopping playout_stopping output_stopping main_stopping)
next
  case CallStop
  then show ?thesis using assms by (auto simp: fine_step_def quiet_def stopping_def stop_rank_def split: if_splits)
qed

lemma next_stopping: "stopping c \<Longrightarrow> stopping (fine_next os c e)"
  using fine_stopping [of c os e] by (auto simp: fine_next_def split: option.split)

interpretation stops: machine "fine_next os" stopping for os
  by unfold_locales (rule next_stopping)


text \<open>No deadlock: whoever owns a mutex can go on, and without owners only ended threads wait.\<close>

lemma in_section_enabled:
  assumes "in_section c t mu" "stopping c" "\<not> ms_active (th_m c)"
  shows "fine_step os c (Go t) \<noteq> None"
proof (cases t)
  case Main
  then have "th_main c = MCloseIn" using assms
    by (cases "th_main c") (auto simp: in_section_def stopping_def stop_rank_def)
  then show ?thesis using Main by (simp add: fine_step_def thread_steps Let_def)
qed (use assms(1) in \<open>auto simp: in_section_def fine_step_def thread_steps Let_def
    split: recv_pc.splits playout_pc.splits output_pc.splits option.splits\<close>)

lemma free_enabled:
  assumes "\<forall>mu. th_owner c mu = None"
  shows "th_recv c \<noteq> RExit \<Longrightarrow> fine_step os c (Go Receiver) \<noteq> None"
    "th_playout c \<noteq> PExit \<Longrightarrow> fine_step os c (Go Player) \<noteq> None"
    "th_output c \<noteq> OExit \<Longrightarrow> bq_closed (ms_queue (th_m c)) \<Longrightarrow> fine_step os c (Go Echoer) \<noteq> None"
  using assms by (auto simp: fine_step_def thread_steps Let_def split: recv_pc.split playout_pc.split output_pc.split
      prod.split sum.split option.split)

lemma stop_progress:
  assumes "stopping c" "locks.locked c" "\<not> ms_active (th_m c)" "th_main c \<noteq> MStopped"
  shows "\<exists>t. fine_step os c (Go t) \<noteq> None"
proof (cases "\<exists>t mu. in_section c t mu")
  case True
  then show ?thesis using in_section_enabled assms(1,3) by blast
next
  case False
  then have free: "\<forall>mu. th_owner c mu = None" using assms(2) unfolding locks.locked_def by (metis not_Some_eq)
  note s = assms(1) [unfolded stopping_def]
  show ?thesis
  proof (rule ccontr)
    assume "\<nexists>t. fine_step os c (Go t) \<noteq> None"
    then have n: "fine_step os c (Go t) = None" for t by blast
    have "th_recv c = RExit \<and> th_playout c = PExit \<and> (bq_closed (ms_queue (th_m c)) \<longrightarrow> th_output c = OExit)"
      using free_enabled [OF free, of os] n by auto
    then have "main_step os c \<noteq> None" using s assms(3,4) free
      by (cases "th_main c") (auto simp: stop_rank_def thread_steps Let_def split: prod.split)
    then show False using n [of Main] by (simp add: fine_step_def)
  qed
qed

text \<open>A round is a stretch of the schedule in which every thread has its turn.\<close>

definition full_round :: "thread_turn list \<Rightarrow> bool" where
  "full_round es \<longleftrightarrow> {Go Receiver, Go Player, Go Echoer, Go Main} \<subseteq> set es"

lemma next_work:
  assumes "stopping c" "\<not> ms_active (th_m c)"
  shows "\<not> ms_active (th_m (fine_next os c e))"
    "fine_step os c e \<noteq> None \<Longrightarrow> stop_work (fine_next os c e) < stop_work c"
  using fine_stopping [OF assms(1), of os e] assms(2) by (auto simp: fine_next_def split: option.split)

lemma stopped_stays: "th_main c = MStopped \<Longrightarrow> th_main (fine_next os c e) = MStopped"
proof (cases e)
  case (Go t)
  assume "th_main c = MStopped"
  then show ?thesis using Go
    by (cases t) (auto simp: fine_next_def fine_step_def main_step_def quiet_def dest: step_frames split: option.split)
qed (simp add: fine_next_def fine_step_def)

interpretation stop_run: fair_run "fine_next os" "\<lambda>c e. fine_step os c e \<noteq> None"
    "\<lambda>c. stopping c \<and> locks.locked c \<and> \<not> ms_active (th_m c)" "\<lambda>c. th_main c = MStopped" stop_work "\<lambda>_. True"
    "{Go Receiver, Go Player, Go Echoer, Go Main}" for os
proof unfold_locales
  fix c :: "'a threads" and e
  assume "stopping c \<and> locks.locked c \<and> \<not> ms_active (th_m c)"
  then have c: "stopping c" "locks.locked c" "\<not> ms_active (th_m c)" by blast+
  show "stopping (fine_next os c e) \<and> locks.locked (fine_next os c e) \<and> \<not> ms_active (th_m (fine_next os c e))"
    using c by (simp add: next_stopping locks.locked_step next_work(1))
  show "fine_step os c e \<noteq> None \<Longrightarrow> stop_work (fine_next os c e) < stop_work c" using next_work(2) [OF c(1,3)] .
  show "th_main c = MStopped \<Longrightarrow> th_main (fine_next os c e) = MStopped" by (rule stopped_stays)
  assume "th_main c \<noteq> MStopped"
  then obtain t where "fine_step os c (Go t) \<noteq> None" using stop_progress [OF c] by blast
  then show "\<exists>e \<in> {Go Receiver, Go Player, Go Echoer, Go Main}. fine_step os c e \<noteq> None" by (cases t) auto
qed (auto simp: fine_next_def split: option.split)

lemma rounds_stop:
  assumes "stopping c" "locks.locked c" "\<not> ms_active (th_m c)" "list_all full_round rs" "stop_work c \<le> length rs"
  shows "th_main (foldl (fine_next os) c (concat rs)) = MStopped"
  by (rule stop_run.rounds) (use assms in \<open>auto simp: full_round_def list_all_iff\<close>)

section \<open>The data flow\<close>

text \<open>Packets in flight: popped and not yet queued, taken from the queue and not yet built, built and not yet sent.\<close>

definition played_pend :: "playout_pc \<Rightarrow> rtp_packet list" where
  "played_pend pc = (case pc of PPush p \<Rightarrow> [p] | PPushIn p \<Rightarrow> [p] | _ \<Rightarrow> [])"

definition taken_pend :: "output_pc \<Rightarrow> rtp_packet list" where
  "taken_pend pc = (case pc of OGot p \<Rightarrow> [p] | OForward p \<Rightarrow> [p] | OBuild p \<Rightarrow> [p] | _ \<Rightarrow> [])"

definition built_pend :: "output_pc \<Rightarrow> bytes list" where
  "built_pend pc = (case pc of OSend p \<Rightarrow> [rtp_serialize p] | OSendIn p \<Rightarrow> [rtp_serialize p] | OSendTo p _ \<Rightarrow> [rtp_serialize p] | _ \<Rightarrow> [])"

definition same_params :: "media_session \<Rightarrow> media_session \<Rightarrow> bool" where
  "same_params m m' \<longleftrightarrow> ms_payloadType m' = ms_payloadType m \<and> ms_dtmfPayloadType m' = ms_dtmfPayloadType m
    \<and> ms_outSsrc m' = ms_outSsrc m"

definition queue_flow :: "media_session \<Rightarrow> 'w threads \<Rightarrow> media_event list \<Rightarrow> bool" where
  "queue_flow m0 c evs \<longleftrightarrow>
    ms_jitter (th_m c) = fst (jb_run (ms_jitter m0) (jops evs))
    \<and> subseq (echoed evs @ taken_pend (th_output c) @ bq_items (ms_queue (th_m c)) @ played_pend (th_playout c))
        (bq_items (ms_queue m0) @ snd (jb_run (ms_jitter m0) (jops evs)))"

definition stream_flow :: "media_session \<Rightarrow> 'w threads \<Rightarrow> media_event list \<Rightarrow> bool" where
  "stream_flow m0 c evs \<longleftrightarrow> same_params m0 (th_m c)
    \<and> ms_outSeq (th_m c) = ms_outSeq m0 + of_nat (length (echoed evs))
    \<and> ms_outTs (th_m c) = ms_outTs m0
        + of_nat (sum_list (map (\<lambda>p. length (media_decode (ms_payloadType m0) (payload p))) (echoed evs)))"

definition route_flow :: "'w net_os \<Rightarrow> media_session \<Rightarrow> 'w threads \<Rightarrow> bool" where
  "route_flow os m0 c \<longleftrightarrow> (sends_work os (ms_remote m0) \<longrightarrow> sends_work os (ms_remote (th_m c))
    \<and> (case th_recv c of RLatch src _ \<Rightarrow> os_pton os (ep_ip src) \<noteq> None | RLatchIn src _ \<Rightarrow> os_pton os (ep_ip src) \<noteq> None | _ \<Rightarrow> True)
    \<and> (case th_output c of OSendTo _ dest \<Rightarrow> sends_work os dest | _ \<Rightarrow> True))"

definition audio_flow :: "media_session \<Rightarrow> 'w threads \<Rightarrow> media_event list \<Rightarrow> bool" where
  "audio_flow m0 c evs \<longleftrightarrow> (\<forall>p. Inserted p \<in> set evs \<longrightarrow> \<not> dtmf_packet (ms_dtmfPayloadType m0) p)
    \<and> (case th_recv c of RStats p \<Rightarrow> \<not> dtmf_packet (ms_dtmfPayloadType m0) p
        | RStatsIn p \<Rightarrow> \<not> dtmf_packet (ms_dtmfPayloadType m0) p
        | RInsert p \<Rightarrow> \<not> dtmf_packet (ms_dtmfPayloadType m0) p | _ \<Rightarrow> True)"

definition sent_flow :: "'w net_os \<Rightarrow> ('w \<Rightarrow> (int \<times> bytes \<times> sockaddr) list) \<Rightarrow> media_session \<Rightarrow> bytes list \<Rightarrow> 'w threads \<Rightarrow> media_event list \<Rightarrow> bool" where
  "sent_flow os out m0 before c evs \<longleftrightarrow> (\<exists>ss. sent_data out (th_w c) = before @ ss
    \<and> subseq (ss @ built_pend (th_output c))
        (map rtp_serialize (echo_stream (ms_payloadType m0) (ms_outSsrc m0) (ms_outSeq m0) (ms_outTs m0) (echoed evs)))
    \<and> (sends_work os (ms_remote m0) \<longrightarrow> ss @ built_pend (th_output c) =
        map rtp_serialize (echo_stream (ms_payloadType m0) (ms_outSsrc m0) (ms_outSeq m0) (ms_outTs m0) (echoed evs))))"

lemma recv_out:
  assumes "udp_laws os out" "recv_step os c = Some (c', evs)"
  shows "out (th_w c') = out (th_w c)"
proof (cases "th_recv c")
  case RRecv
  obtain r v where r: "udp_recvFrom os (ms_sock (th_m c)) 200 (th_w c) = (r, v)" by fastforce
  have "out v = out (th_w c)" using udp_recv_out [OF assms(1), of "ms_sock (th_m c)" 200 "th_w c"] r by simp
  then show ?thesis using assms(2) RRecv r
    by (auto simp: recv_step_def quiet_def Let_def split: sum.splits option.splits)
next
  case (RDigit d)
  obtain ok ws v where s: "ws_sendText os (ms_ws (th_m c)) (dtmf_json d) (th_w c) = (ok, ws, v)" by (metis surj_pair)
  have "out v = out (th_w c)" using s by (auto simp: ws_sendText_def dest: sendFrame_out [OF assms(1)])
  then show ?thesis using assms(2) RDigit s by (auto simp: recv_step_def quiet_def Let_def media_onDtmfDigit_def)
qed (use assms(2) in \<open>auto simp: thread_steps Let_def split: if_splits option.splits\<close>)

lemma recv_route:
  assumes "recv_step os c = Some (c', evs)" "route_flow os m0 c"
  shows "route_flow os m0 c'"
proof (cases "th_recv c")
  case RRecv
  obtain r v where r: "udp_recvFrom os (ms_sock (th_m c)) 200 (th_w c) = (r, v)" by fastforce
  have "datagrams_work os \<Longrightarrow> r = Inr (Some dg) \<Longrightarrow> os_pton os (ep_ip (dg_from dg)) \<noteq> None" for dg
    using r by (auto simp: datagrams_work_def udp_recvFrom_def udp_read_def Let_def
        split: if_splits prod.splits option.splits)
  then show ?thesis using assms RRecv r
    by (auto simp: recv_step_def quiet_def Let_def route_flow_def sends_work_def split: sum.splits option.splits)
qed (use assms in \<open>auto simp: thread_steps Let_def route_flow_def media_latch_def sends_work_def media_onDtmfDigit_def
    split: if_splits option.splits prod.splits\<close>)

lemma recv_audio:
  assumes "recv_step os c = Some (c', a)" "audio_flow m0 c evs" "same_params m0 (th_m c)"
  shows "audio_flow m0 c' (evs @ a)"
  using assms by (cases "th_recv c") (auto simp: thread_steps Let_def audio_flow_def dtmf_packet_def same_params_def
      split: if_splits option.splits prod.splits sum.splits)

lemma recv_rest:
  assumes "recv_step os c = Some (c', a)"
  shows "queue_flow m0 c evs \<Longrightarrow> queue_flow m0 c' (evs @ a)" "stream_flow m0 c evs \<Longrightarrow> stream_flow m0 c' (evs @ a)"
    "echoed a = []"
  using assms by (cases "th_recv c"; auto simp: thread_steps Let_def queue_flow_def stream_flow_def same_params_def jb_run_append
      media_latch_def media_onDtmfDigit_def split_beta split: if_splits option.splits prod.splits sum.splits)+


lemma playout_flow:
  assumes "playout_step c = Some (c', a)"
  shows "queue_flow m0 c evs \<Longrightarrow> queue_flow m0 c' (evs @ a)" "stream_flow m0 c evs \<Longrightarrow> stream_flow m0 c' (evs @ a)"
    "route_flow os m0 c \<Longrightarrow> route_flow os m0 c'" "audio_flow m0 c evs \<Longrightarrow> audio_flow m0 c' (evs @ a)"
    "echoed a = []" "th_w c' = th_w c"
proof -
  show "queue_flow m0 c' (evs @ a)" if q: "queue_flow m0 c evs"
  proof (cases "th_playout c")
    case PPop
    obtain jb r l where p: "jb_pop (ms_jitter (th_m c)) = (jb, r, l)" by (metis surj_pair)
    have e: "jops a = [JPop]" "echoed a = []" and m: "ms_jitter (th_m c') = jb" "ms_queue (th_m c') = ms_queue (th_m c)"
      "th_output c' = th_output c" and o: "played_pend (th_playout c') = (case r of None \<Rightarrow> [] | Some x \<Rightarrow> [x])"
      using assms PPop p by (auto simp: playout_step_def Let_def played_pend_def split: option.split)
    have "played_pend (th_playout c) = []" using PPop by (simp add: played_pend_def)
    then show ?thesis using q p e m o
        list_emb_append_mono [of "(=)" "echoed evs @ taken_pend (th_output c) @ bq_items (ms_queue (th_m c))"
          "bq_items (ms_queue m0) @ snd (jb_run (ms_jitter m0) (jops evs))" "case r of None \<Rightarrow> [] | Some x \<Rightarrow> [x]"
          "case r of None \<Rightarrow> [] | Some x \<Rightarrow> [x]"]
      unfolding queue_flow_def by (auto simp: jb_run_append split_beta Let_def split: option.splits)
  next
    case (PPushIn p)
    have "subseq (echoed evs @ taken_pend (th_output c) @ bq_items (ms_queue (th_m c)))
        (echoed evs @ taken_pend (th_output c) @ bq_items (ms_queue (th_m c)) @ [p])"
      by (simp add: prefix_imp_subseq subseq_append')
    with q PPushIn have "subseq (echoed evs @ taken_pend (th_output c) @ bq_items (ms_queue (th_m c)))
        (bq_items (ms_queue m0) @ snd (jb_run (ms_jitter m0) (jops evs)))"
      by (auto simp: queue_flow_def played_pend_def intro: subseq_order.order_trans)
    then show ?thesis using assms PPushIn q
      by (auto simp: queue_flow_def thread_steps Let_def bq_tryPush_def played_pend_def split: if_splits)
  qed (use assms q in \<open>auto simp: thread_steps Let_def queue_flow_def played_pend_def split: if_splits\<close>)
qed (use assms in \<open>cases "th_playout c"; auto simp: thread_steps Let_def stream_flow_def same_params_def route_flow_def
    audio_flow_def split: if_splits prod.splits option.splits\<close>)+

lemma output_flow:
  assumes "output_step os c = Some (c', a)"
  shows "queue_flow m0 c evs \<Longrightarrow> queue_flow m0 c' (evs @ a)"
    "stream_flow m0 c evs \<Longrightarrow> stream_flow m0 c' (evs @ a)"
    "route_flow os m0 c \<Longrightarrow> route_flow os m0 c'" "audio_flow m0 c evs \<Longrightarrow> audio_flow m0 c' (evs @ a)"
  using assms by (cases "th_output c"; auto simp: thread_steps Let_def queue_flow_def stream_flow_def same_params_def
    route_flow_def audio_flow_def taken_pend_def bq_pop_def neq_Nil_conv algebra_simps split: if_splits prod.splits option.splits)+

lemma main_flow:
  assumes "main_step os c = Some (c', a)"
  shows "queue_flow m0 c evs \<Longrightarrow> queue_flow m0 c' (evs @ a)"
    "stream_flow m0 c evs \<Longrightarrow> stream_flow m0 c' (evs @ a)"
    "route_flow os m0 c \<Longrightarrow> route_flow os m0 c'" "audio_flow m0 c evs \<Longrightarrow> audio_flow m0 c' (evs @ a)" "a = []"
  using assms by (cases "th_main c"; auto simp: thread_steps Let_def queue_flow_def stream_flow_def same_params_def
    route_flow_def audio_flow_def bq_close_def split: if_splits prod.splits option.splits)+

lemma main_out:
  assumes "udp_laws os out" "main_step os c = Some (c', a)"
  shows "out (th_w c') = out (th_w c)"
proof (cases "th_main c")
  case MWsClose
  obtain ws v where s: "ws_close os (ms_ws (th_m c)) (th_w c) = (ws, v)" by fastforce
  have "out v = out (th_w c)" using s
    by (auto simp: ws_close_def ws_closeFdUnlocked_def udp_law_same(5) [OF assms(1)] split: if_splits prod.splits)
  then show ?thesis using assms(2) MWsClose s by (auto simp: main_step_def quiet_def Let_def)
qed (use assms(2) in \<open>auto simp: thread_steps Let_def split: if_splits\<close>)


lemma sent_flow_frame:
  assumes "sent_flow os out m0 before c evs" "out (th_w c') = out (th_w c)" "echoed a = []"
    and "built_pend (th_output c') = built_pend (th_output c)"
  shows "sent_flow os out m0 before c' (evs @ a)"
  using assms by (simp add: sent_flow_def sent_data_def)

lemma output_sent:
  assumes "udp_laws os out" "output_step os c = Some (c', a)" "sent_flow os out m0 before c evs"
    and "stream_flow m0 c evs" "route_flow os m0 c"
  shows "sent_flow os out m0 before c' (evs @ a)"
proof (cases "th_output c")
  case (OForward p)
  obtain ok ws v where s: "ws_sendBinary os (ms_ws (th_m c))
      (pcm_bytes (upsample8kTo16k (media_decode (ms_payloadType (th_m c)) (payload p)))) (th_w c) = (ok, ws, v)" by (metis surj_pair)
  have "out v = out (th_w c)" using s by (auto simp: ws_sendBinary_def dest: sendFrame_out [OF assms(1)])
  then show ?thesis using assms(2) OForward s
    by (intro sent_flow_frame [OF assms(3)]) (auto simp: output_step_def quiet_def Let_def built_pend_def)
next
  case (OBuild p)
  let ?d = "media_out_packet (th_m c) (media_decode (ms_payloadType (th_m c)) (payload p))"
  let ?es = "\<lambda>ps. map rtp_serialize (echo_stream (ms_payloadType m0) (ms_outSsrc m0) (ms_outSeq m0) (ms_outTs m0) ps)"
  have "?es (echoed evs @ [p]) = ?es (echoed evs) @ [rtp_serialize ?d]"
    using assms(4) by (simp add: stream_flow_def same_params_def echo_stream_append media_out_packet_def)
  moreover have "echoed (evs @ a) = echoed evs @ [p]" "th_w c' = th_w c" "built_pend (th_output c') = [rtp_serialize ?d]"
    "built_pend (th_output c) = []" using assms(2) OBuild by (auto simp: output_step_def Let_def built_pend_def)
  ultimately show ?thesis using assms(3) by (auto simp: sent_flow_def)
next
  case (OSendTo d dest)
  obtain r v where s: "udp_sendTo os (ms_sock (th_m c)) (rtp_serialize d) dest (th_w c) = (r, v)" by fastforce
  have c': "th_w c' = v" "built_pend (th_output c') = []" "a = []" and b: "built_pend (th_output c) = [rtp_serialize d]"
    using assms(2) OSendTo s by (auto simp: output_step_def quiet_def Let_def built_pend_def)
  have "delivered os out (th_m c\<lparr>ms_remote := dest\<rparr>, th_w c) (th_m c\<lparr>ms_remote := dest\<rparr>, v) [rtp_serialize d]"
    by (rule delivered_send [OF assms(1), where s = "ms_sock (th_m c)"]) (use s in simp_all)
  then obtain rs where rs: "sent_data out v = sent_data out (th_w c) @ rs" "subseq rs [rtp_serialize d]"
    "sends_work os dest \<Longrightarrow> rs = [rtp_serialize d]" by (auto simp: delivered_def)
  have g: "sends_work os (ms_remote m0) \<Longrightarrow> sends_work os dest" using assms(5) OSendTo by (simp add: route_flow_def)
  obtain ss where ss: "sent_data out (th_w c) = before @ ss"
    "subseq (ss @ [rtp_serialize d]) (map rtp_serialize (echo_stream (ms_payloadType m0) (ms_outSsrc m0) (ms_outSeq m0) (ms_outTs m0) (echoed evs)))"
    "sends_work os (ms_remote m0) \<Longrightarrow> ss @ [rtp_serialize d] = map rtp_serialize (echo_stream (ms_payloadType m0) (ms_outSsrc m0) (ms_outSeq m0) (ms_outTs m0) (echoed evs))"
    using assms(3) b by (auto simp: sent_flow_def)
  have "subseq (ss @ rs) (ss @ [rtp_serialize d])" by (rule list_emb_append_mono) (simp_all add: rs(2))
  with ss(2) have "subseq (ss @ rs) (map rtp_serialize (echo_stream (ms_payloadType m0) (ms_outSsrc m0) (ms_outSeq m0) (ms_outTs m0) (echoed evs)))"
    by (rule subseq_order.order_trans [rotated])
  then show ?thesis using rs ss c' g by (auto simp: sent_flow_def)
qed (use assms(2) in \<open>intro sent_flow_frame [OF assms(3)]; auto simp: thread_steps Let_def built_pend_def
    split: if_splits option.splits\<close>)+

definition flow :: "'w net_os \<Rightarrow> ('w \<Rightarrow> (int \<times> bytes \<times> sockaddr) list) \<Rightarrow> media_session \<Rightarrow> bytes list \<Rightarrow> 'w threads \<Rightarrow> media_event list \<Rightarrow> bool" where
  "flow os out m0 before c evs \<longleftrightarrow> queue_flow m0 c evs \<and> stream_flow m0 c evs \<and> route_flow os m0 c
    \<and> audio_flow m0 c evs \<and> sent_flow os out m0 before c evs"

lemma fine_flow:
  assumes "udp_laws os out" "flow os out m0 before c evs" "fine_step os c e = Some (c', a)"
  shows "flow os out m0 before c' (evs @ a)"
proof -
  have f: "queue_flow m0 c evs" "stream_flow m0 c evs" "route_flow os m0 c" "audio_flow m0 c evs"
    "sent_flow os out m0 before c evs" "same_params m0 (th_m c)" using assms(2) by (simp_all add: flow_def stream_flow_def)
  show ?thesis
  proof (cases e)
    case (Go t)
    show ?thesis
    proof (cases t)
      case Receiver
      then have s: "recv_step os c = Some (c', a)" using assms(3) Go by (simp add: fine_step_def)
      show ?thesis unfolding flow_def
        using recv_rest [OF s] recv_route [OF s f(3)] recv_audio [OF s f(4,6)] f step_frames(1) [OF s]
          sent_flow_frame [OF f(5) recv_out [OF assms(1) s]] by simp
    next
      case Player
      then have s: "playout_step c = Some (c', a)" using assms(3) Go by (simp add: fine_step_def)
      show ?thesis unfolding flow_def
        using playout_flow [OF s] f step_frames(2) [OF s] sent_flow_frame [OF f(5), of c' a] by simp
    next
      case Echoer
      then have s: "output_step os c = Some (c', a)" using assms(3) Go by (simp add: fine_step_def)
      show ?thesis unfolding flow_def
        using output_flow [OF s] f output_sent [OF assms(1) s f(5,2,3)] by simp
    next
      case Main
      then have s: "main_step os c = Some (c', a)" using assms(3) Go by (simp add: fine_step_def)
      show ?thesis unfolding flow_def
        using main_flow [OF s] f step_frames(4) [OF s] sent_flow_frame [OF f(5) main_out [OF assms(1) s], of "[]"] by simp
    qed
  next
    case CallStop
    then show ?thesis using assms(3) f
      by (auto simp: fine_step_def quiet_def flow_def queue_flow_def stream_flow_def same_params_def route_flow_def
          audio_flow_def sent_flow_def split: if_splits)
  qed
qed

lemma run_flow:
  assumes "udp_laws os out"
  shows "flow os out m0 before c evs \<Longrightarrow> fine_run os c es = (c', b) \<Longrightarrow> flow os out m0 before c' (evs @ b)"
proof (induction es arbitrary: c evs b)
  case (Cons e es)
  show ?case
  proof (cases "fine_step os c e")
    case (Some r)
    obtain c1 a where s: "fine_step os c e = Some (c1, a)" using Some by (cases r) auto
    obtain b' where b: "fine_run os c1 es = (c', b')" "b = a @ b'" using Cons.prems(2) s by (auto split: prod.splits)
    from Cons.IH [OF fine_flow [OF assms Cons.prems(1) s] b(1)] show ?thesis by (simp add: b(2))
  qed (use Cons in simp)
qed simp

lemma start_flow: "flow os out m (sent_data out w) (threads_of (m, w)) []"
  by (simp add: flow_def queue_flow_def stream_flow_def same_params_def route_flow_def audio_flow_def sent_flow_def
      threads_of_def taken_pend_def played_pend_def built_pend_def)

lemma start_stopping: "ms_active (fst st) \<Longrightarrow> stopping (threads_of st)"
  by (simp add: stopping_def threads_of_def stop_rank_def)


section \<open>Whole iterations are a special case\<close>

lemma fine_run_append:
  "fine_run os c (a @ b) = (let (c1, x) = fine_run os c a; (c2, y) = fine_run os c1 b in (c2, x @ y))"
  by (induction a arbitrary: c) (auto simp: split_beta Let_def split: option.splits)

lemma fine_recv_turn:
  assumes "threads_run m" "media_recv_turn os (m, w) = ((m', w'), evs)"
  shows "\<exists>es. fine_run os (threads_of (m, w)) es = (threads_of (m', w'), evs)"
proof -
  have act: "ms_active m" using assms(1) by (simp add: threads_run_def)
  obtain r v where r: "udp_recvFrom os (ms_sock m) 200 w = (r, v)" by fastforce
  note defs = threads_of_def fine_step_def thread_steps Let_def act r
  show ?thesis
  proof (cases "\<exists>dg pkt. r = Inr (Some dg) \<and> rtp_parsed (dg_data dg) = Some pkt")
    case False
    then have e: "m' = m" "w' = v" "evs = []" using assms(2) act r
      by (auto simp: media_recv_turn_def split: sum.splits option.splits)
    show ?thesis by (rule exI [of _ "replicate 2 (Go Receiver)"])
      (use False in \<open>auto simp: numeral_2_eq_2 defs e split: sum.splits option.splits\<close>)
  next
    case True
    then obtain dg pkt where dg: "r = Inr (Some dg)" "rtp_parsed (dg_data dg) = Some pkt" by blast
    then have p: "media_packet os m (dg_from dg) pkt v = ((m', w'), evs)"
      using assms(2) act r by (simp add: media_recv_turn_def)
    let ?m = "media_latch m (dg_from dg)"
    have latch: "fine_run os (threads_of (m, w)) (replicate 4 (Go Receiver))
        = ((threads_of (?m, v))\<lparr>th_recv := RPacket pkt\<rparr>, [])"
      by (auto simp: numeral_eq_Suc defs dg fun_upd_idem)
    have rest: "\<exists>es. fine_run os ((threads_of (?m, v))\<lparr>th_recv := RPacket pkt\<rparr>) es = (threads_of (m', w'), evs)"
    proof (cases "ms_dtmfPayloadType ?m \<ge> 0 \<and> uint (payloadType pkt) = ms_dtmfPayloadType ?m")
      case False
      then show ?thesis using p
        by (intro exI [of _ "replicate 4 (Go Receiver)"])
          (auto simp: numeral_eq_Suc defs media_packet_def fun_upd_idem)
    next
      case True
      obtain d digit where f: "dtmf_feed (ms_dtmf ?m) (payload pkt) = Some (d, digit)" using dtmf_feed_safe by blast
      show ?thesis
      proof (cases digit)
        case None
        then show ?thesis using p True f
          by (intro exI [of _ "[Go Receiver]"]) (auto simp: defs media_packet_def)
      next
        case (Some ch)
        then show ?thesis using p True f
          by (intro exI [of _ "[Go Receiver, Go Receiver]"]) (auto simp: defs media_packet_def split: prod.splits)
      qed
    qed
    then obtain es where "fine_run os ((threads_of (?m, v))\<lparr>th_recv := RPacket pkt\<rparr>) es = (threads_of (m', w'), evs)" by blast
    then show ?thesis by (intro exI [of _ "replicate 4 (Go Receiver) @ es"]) (simp add: fine_run_append latch)
  qed
qed

lemma fine_playout_turn:
  assumes "threads_run m" "media_playout_turn (m, w) = ((m', w'), evs)"
  shows "\<exists>es. fine_run os (threads_of (m, w)) es = (threads_of (m', w'), evs)"
proof -
  have act: "ms_active m" using assms(1) by (simp add: threads_run_def)
  obtain jb r l where p: "jb_pop (ms_jitter m) = (jb, r, l)" by (metis surj_pair)
  show ?thesis
    by (rule exI [of _ "replicate (case r of None \<Rightarrow> 2 | Some _ \<Rightarrow> 4) (Go Player)"], cases r)
      (use assms(2) act p in \<open>auto simp: numeral_eq_Suc threads_of_def fine_step_def thread_steps Let_def
        media_playout_turn_def fun_upd_idem\<close>)
qed

lemma fine_output_turn:
  assumes "threads_run m" "media_output_turn os (m, w) = ((m', w'), evs)"
  shows "\<exists>es. fine_run os (threads_of (m, w)) es = (threads_of (m', w'), evs)"
proof (cases "bq_items (ms_queue m)")
  case Nil
  then have "m' = m" "w' = w" "evs = []" using assms by (auto simp: media_output_turn_def bq_pop_def threads_run_def)
  then show ?thesis by (intro exI [of _ "[]"]) simp
next
  case (Cons pkt ps)
  let ?pcm = "media_decode (ms_payloadType m) (payload pkt)"
  show ?thesis
    by (rule exI [of _ "replicate (if ws_connected (ms_ws m) \<and> ?pcm \<noteq> [] then 8 else 7) (Go Echoer)"])
      (use assms(2) Cons in \<open>auto simp: numeral_eq_Suc threads_of_def fine_step_def thread_steps Let_def
        media_output_turn_def media_echo_def media_out_packet_def bq_pop_def fun_upd_idem split: prod.splits\<close>)
qed


lemma media_turn_running:
  assumes "threads_run m" "media_turn_of os (m, w) t = ((m', w'), evs)"
  shows "threads_run m'"
proof (cases t)
  case OutputTurn
  then have t: "media_output_turn os (m, w) = ((m', w'), evs)" using assms by (simp add: media_turn_of_def threads_run_def)
  show ?thesis
  proof (cases "bq_items (ms_queue m)")
    case Nil
    then show ?thesis using t assms(1) by (auto simp: media_output_turn_def bq_pop_def threads_run_def)
  next
    case (Cons pkt ps)
    then obtain m1 where e: "media_echo os (m\<lparr>ms_queue := (ms_queue m)\<lparr>bq_items := ps\<rparr>\<rparr>) pkt w = (m1, w')" "m' = m1"
      using t by (auto simp: media_output_turn_def bq_pop_def)
    show ?thesis unfolding e(2) by (subst media_echo_frame [OF e(1)]) (use assms(1) in \<open>simp add: threads_run_def\<close>)
  qed
qed (use assms in \<open>auto simp: media_turn_of_def threads_run_def media_recv_turn_def media_playout_turn_def media_packet_def
    media_latch_def media_onDtmfDigit_def bq_tryPush_def Let_def split: if_splits sum.splits option.splits prod.splits\<close>)

lemma media_run_running: "threads_run m \<Longrightarrow> media_run os (m, w) ts = ((m', w'), evs) \<Longrightarrow> threads_run m'"
proof (induction ts arbitrary: m w evs)
  case (Cons t ts)
  obtain m1 w1 a where a: "media_turn_of os (m, w) t = ((m1, w1), a)" by (metis surj_pair)
  then obtain b where "media_run os (m1, w1) ts = ((m', w'), b)" using Cons.prems(2) by (auto split: prod.splits)
  then show ?case using Cons.IH [OF media_turn_running [OF Cons.prems(1) a]] by blast
qed simp

lemma fine_media_run:
  "threads_run m \<Longrightarrow> media_run os (m, w) ts = ((m', w'), evs) \<Longrightarrow>
    \<exists>es. fine_run os (threads_of (m, w)) es = (threads_of (m', w'), evs)"
proof (induction ts arbitrary: m w evs)
  case Nil
  then show ?case by (intro exI [of _ "[]"]) simp
next
  case (Cons t ts)
  obtain m1 w1 a where a: "media_turn_of os (m, w) t = ((m1, w1), a)" by (metis surj_pair)
  obtain b where b: "media_run os (m1, w1) ts = ((m', w'), b)" "evs = a @ b"
    using Cons.prems(2) a by (auto split: prod.splits)
  have "\<exists>es. fine_run os (threads_of (m, w)) es = (threads_of (m1, w1), a)"
    using a Cons.prems(1) by (cases t) (auto simp: media_turn_of_def threads_run_def
        intro: fine_recv_turn fine_playout_turn fine_output_turn)
  then obtain e1 where e1: "fine_run os (threads_of (m, w)) e1 = (threads_of (m1, w1), a)" by blast
  obtain e2 where e2: "fine_run os (threads_of (m1, w1)) e2 = (threads_of (m', w'), b)"
    using Cons.IH [OF media_turn_running [OF Cons.prems(1) a] b(1)] by blast
  show ?case by (rule exI [of _ "e1 @ e2"]) (simp add: fine_run_append e1 e2 b(2))
qed

lemma reachable_facts:
  assumes "fine_run os (threads_of st) es = (c, evs)"
  shows "locks.locked c" "ms_active (fst st) \<Longrightarrow> stopping c"
  using locks.locked_run [OF start_locked, of os st es] stops.inv_run [OF start_stopping, of st os es] assms
  by (simp_all add: fine_run_next [symmetric])

text \<open>A session from its construction: what was echoed is what the jitter buffer played, in order; after
\<open>stop\<close> all of it was sent.\<close>

lemma session_flow:
  assumes "udp_laws os out"
    and "media_new os ip port url w0 = (Inr m0, w1)" "media_start os m0 remote pt dpt w1 = (m, w)"
    and "fine_run os (threads_of (m, w)) es = (c, evs)"
  shows "session_start m pt dpt" "ms_remote m = remote" "flow os out m (sent_data out w) c evs"
    "subseq (echoed evs @ bq_items (ms_queue (th_m c))) (snd (jb_run (jb_new \<lparr>targetDepth = 3, capacity = 100\<rparr>) (jops evs)))"
proof -
  show s: "session_start m pt dpt" and "ms_remote m = remote" using media_new_start [OF assms(2,3)] by blast+
  show f: "flow os out m (sent_data out w) c evs" using run_flow [OF assms(1) start_flow assms(4)] by simp
  have "subseq (echoed evs @ taken_pend (th_output c) @ bq_items (ms_queue (th_m c)) @ played_pend (th_playout c))
      (snd (jb_run (jb_new \<lparr>targetDepth = 3, capacity = 100\<rparr>) (jops evs)))"
    using f s by (simp add: flow_def queue_flow_def session_start_def bq_new_def)
  moreover have "subseq (echoed evs @ bq_items (ms_queue (th_m c)))
      (echoed evs @ taken_pend (th_output c) @ bq_items (ms_queue (th_m c)) @ played_pend (th_playout c))"
    by (rule list_emb_append_mono [OF subseq_order.order_refl list_emb_append2]) (simp add: prefix_imp_subseq)
  ultimately show "subseq (echoed evs @ bq_items (ms_queue (th_m c))) (snd (jb_run (jb_new \<lparr>targetDepth = 3, capacity = 100\<rparr>) (jops evs)))"
    by (rule subseq_order.order_trans [rotated])
qed

lemma stopped_stream:
  assumes "udp_laws os out"
    and "media_new os ip port url w0 = (Inr m0, w1)" "media_start os m0 remote pt dpt w1 = (m, w)"
    and "fine_run os (threads_of (m, w)) es = (c, evs)" "th_main c = MStopped"
  shows "subseq (echoed evs) (snd (jb_run (jb_new \<lparr>targetDepth = 3, capacity = 100\<rparr>) (jops evs)))"
    "sends_work os remote \<Longrightarrow> sent_data out (th_w c) = sent_data out w @ map rtp_serialize (echo_stream pt 0x51D0DE70 0 0 (echoed evs))"
proof -
  note f = session_flow [OF assms(1-4)]
  have "th_output c = OExit \<and> bq_items (ms_queue (th_m c)) = []"
    using reachable_facts(2) [OF assms(4)] f(1) assms(5) by (simp add: stopping_def stop_rank_def session_start_def)
  then show "subseq (echoed evs) (snd (jb_run (jb_new \<lparr>targetDepth = 3, capacity = 100\<rparr>) (jops evs)))"
    "sends_work os remote \<Longrightarrow> sent_data out (th_w c) = sent_data out w @ map rtp_serialize (echo_stream pt 0x51D0DE70 0 0 (echoed evs))"
    using f by (auto simp: flow_def sent_flow_def session_start_def built_pend_def)
qed

text \<open>A stream that the buffer restores and of which all is echoed is sent back whole.\<close>

lemma streamed_echo:
  assumes "udp_laws os out" "sends_work os remote"
    and "media_new os ip port url w0 = (Inr m0, w1)" "media_start os m0 remote pt dpt w1 = (m, w)"
    and "fine_run os (threads_of (m, w)) es = (c, evs)" "th_main c = MStopped"
    and "numbered ps" "displaced d is" "length is = length ps" "d < 16384" "is ! 0 = 0"
    and "filter is_insert (jops evs) = map (\<lambda>i. JInsert (ps ! i)) is"
    and "paced \<lparr>targetDepth = 3, capacity = 100\<rparr> d (length ps) clock_start (jops evs)"
    and "length (echoed evs) = length ps" "pt = 0 \<or> pt = 8"
  shows "map rtp_parsed (drop (length (sent_data out w)) (sent_data out (th_w c)))
    = map Some (echo_stream pt 0x51D0DE70 0 0 ps)"
proof -
  let ?c = "\<lparr>targetDepth = 3, capacity = 100\<rparr>"
  note p = stopped_stream [OF assms(1,3-6)]
  have "snd (jb_run (jb_new ?c) (jops evs)) = map ((!) ps) [0..<clock_played ?c clock_start (jops evs)]"
    and b: "clock_played ?c clock_start (jops evs) \<le> length ps"
    using stream_played [OF assms(7-11) _ assms(13)] assms(12) by simp_all
  moreover from this have "length ps \<le> clock_played ?c clock_start (jops evs)"
    using p(1) assms(14) list_emb_length by fastforce
  ultimately have "snd (jb_run (jb_new ?c) (jops evs)) = ps" by (simp add: map_nth)
  then have e: "echoed evs = ps" using p(1) assms(14) by (simp add: subseq_full)
  have "drop (length (sent_data out w)) (sent_data out (th_w c)) = map rtp_serialize (echo_stream pt 0x51D0DE70 0 0 ps)"
    using p(2) [OF assms(2)] e by simp
  then show ?thesis
    using echo_stream_facts [OF assms(15), of "0x51D0DE70" 0 0 ps] by (auto simp: rtp_parsed_serialize)
qed

section \<open>Properties\<close>

text \<open>C6. What the caller hears, at the grain of the critical sections: however the steps of the four threads
interleave and whatever arrives, the datagrams sent are, in order, serialisations of one echo stream (sequence
numbers from 0, timestamps advancing by the samples of each frame, the fixed SSRC) of packets the jitter buffer
played, in its order, each at most once, none a telephone event; once \<open>stop\<close> has returned, the whole
stream was sent if no send fails.\<close>

theorem threads_echo_stream:
  assumes "udp_laws os out"
    and "media_new os ip port url w0 = (Inr m0, w1)" "media_start os m0 remote pt dpt w1 = (m, w)"
    and "fine_run os (threads_of (m, w)) es = (c, evs)"
  shows "(\<exists>ss. sent_data out (th_w c) = sent_data out w @ ss
      \<and> subseq ss (map rtp_serialize (echo_stream pt 0x51D0DE70 0 0 (echoed evs)))
      \<and> (th_main c = MStopped \<and> sends_work os remote
          \<longrightarrow> ss = map rtp_serialize (echo_stream pt 0x51D0DE70 0 0 (echoed evs))))
    \<and> subseq (echoed evs) (snd (jb_run (jb_new \<lparr>targetDepth = 3, capacity = 100\<rparr>) (jops evs)))
    \<and> set (echoed evs) \<subseteq> {p. JInsert p \<in> set (jops evs) \<and> \<not> dtmf_packet dpt p}"
proof -
  note F = session_flow [OF assms]
  let ?jb = "jb_new \<lparr>targetDepth = 3, capacity = 100\<rparr>"
  have "subseq (echoed evs) (echoed evs @ bq_items (ms_queue (th_m c)))" by (simp add: prefix_imp_subseq)
  then have sub: "subseq (echoed evs) (snd (jb_run ?jb (jops evs)))" using F(4) by (rule subseq_order.order_trans)
  have "set (echoed evs) \<subseteq> {p. JInsert p \<in> set (jops evs)}"
  proof
    fix q assume "q \<in> set (echoed evs)"
    with sub have "q \<in> set (snd (jb_run ?jb (jops evs)))" by (rule list_emb_set) simp
    from subsetD [OF jb_run_subset this] show "q \<in> {p. JInsert p \<in> set (jops evs)}" unfolding jb_new_empty by simp
  qed
  moreover have "JInsert p \<in> set (jops evs) \<Longrightarrow> \<not> dtmf_packet dpt p" for p
    using F(1,3) by (simp add: jops_insert flow_def audio_flow_def session_start_def)
  moreover obtain ss where ss: "sent_data out (th_w c) = sent_data out w @ ss"
    "subseq (ss @ built_pend (th_output c)) (map rtp_serialize (echo_stream pt 0x51D0DE70 0 0 (echoed evs)))"
    using F(1,3) by (auto simp: flow_def sent_flow_def session_start_def)
  moreover have "subseq ss (ss @ built_pend (th_output c))" by (simp add: prefix_imp_subseq)
  ultimately show ?thesis using sub stopped_stream(2) [OF assms] by (auto intro: subseq_order.order_trans)
qed

text \<open>C7. End to end, the caller hears itself exactly: when the packets of a consecutive stream of any length
arrive each at most \<open>d < 2^14\<close> places off its order, the first one first, no pop comes while \<open>d\<close> or fewer
packets are buffered and more are to come, the buffer is never full, and all are echoed, then under any
interleaving of the threads' steps that does this, once \<open>stop\<close> has returned the datagrams sent parse to
packets with exactly the received payloads in the stream's order, numbered from 0, for A-law and for mu-law
without negative zeros.\<close>

theorem threads_call_echo:
  assumes "udp_laws os out" "sends_work os remote"
    and "media_new os ip port url w0 = (Inr m0, w1)" "media_start os m0 remote pt dpt w1 = (m, w)"
    and "fine_run os (threads_of (m, w)) es = (c, evs)" "th_main c = MStopped"
    and "numbered ps" "displaced d is" "length is = length ps" "d < 16384" "is ! 0 = 0"
    and "filter is_insert (jops evs) = map (\<lambda>i. JInsert (ps ! i)) is"
    and "paced \<lparr>targetDepth = 3, capacity = 100\<rparr> d (length ps) clock_start (jops evs)"
    and "length (echoed evs) = length ps" "pt = 0 \<or> pt = 8" "\<forall>p \<in> set ps. transparent pt (payload p)"
  shows "\<exists>qs. map rtp_parsed (drop (length (sent_data out w)) (sent_data out (th_w c))) = map Some qs
    \<and> map payload qs = map payload ps \<and> map sequence qs = map of_nat [0..<length ps]
    \<and> list_all (\<lambda>q. ssrc q = 0x51D0DE70 \<and> uint (payloadType q) = pt) qs"
proof -
  let ?qs = "echo_stream pt 0x51D0DE70 0 0 ps"
  note f = echo_stream_facts [OF assms(15), of "0x51D0DE70" 0 0 ps]
  have "map rtp_parsed (drop (length (sent_data out w)) (sent_data out (th_w c))) = map Some ?qs"
    by (rule streamed_echo [OF assms(1-15)])
  moreover have "map payload ?qs = map payload ps" by (rule echo_recoded [OF assms(16,15)])
  ultimately show ?thesis using f by (intro exI [of _ ?qs]) (auto simp: list_all_iff)
qed




section \<open>Witnesses\<close>

lemma demo_started_facts: "session_start demo_started 8 101" "threads_run demo_started"
proof -
  show s: "session_start demo_started 8 101" using media_new_start [OF demo_media_new demo_start] by blast
  then show "threads_run demo_started" by (simp add: session_start_def threads_run_def bq_new_def)
qed

definition demo_round :: "thread_turn list" where
  "demo_round = [Go Receiver, Go Player, Go Echoer, Go Main]"

lemma demo_rounds: "list_all full_round (replicate n demo_round)"
  by (simp add: list_all_iff full_round_def demo_round_def)

lemma call_stop:
  "threads_run m \<Longrightarrow> fine_run os (threads_of (m, w)) [CallStop]
    = ((threads_of (m\<lparr>ms_active := False\<rparr>, w))\<lparr>th_main := MClose\<rparr>, [])"
  by (simp add: threads_run_def threads_of_def fine_step_def quiet_def)

lemma call_stop_work:
  "stop_work ((threads_of (m\<lparr>ms_active := False\<rparr>, w))\<lparr>th_main := MClose\<rparr>) = 10 + 10 * length (bq_items (ms_queue m))"
  by (simp add: stop_work_def threads_of_def recv_work_def playout_work_def output_work_def stop_rank_def)



text \<open>The demonstration call, then \<open>stop\<close>: nothing more happens on the way to its end.\<close>

definition settled :: "'w threads \<Rightarrow> bool" where
  "settled c \<longleftrightarrow> \<not> ms_active (th_m c) \<and> th_recv c \<in> {RTest, RExit} \<and> th_playout c \<in> {PTest, PExit}
    \<and> th_output c \<in> {OWait, OPopIn, OExit} \<and> bq_items (ms_queue (th_m c)) = []"

lemma settled_step: "settled c \<Longrightarrow> fine_step os c e = Some (c', a) \<Longrightarrow> a = [] \<and> settled c'"
proof (cases e)
  case (Go t)
  assume s: "settled c" "fine_step os c e = Some (c', a)"
  show ?thesis
  proof (cases t)
    case Main
    then have m: "main_step os c = Some (c', a)" using s(2) Go by (simp add: fine_step_def)
    show ?thesis using main_step_pc [OF m] step_frames(4) [OF m] main_flow(5) [OF m] s(1) by (simp add: settled_def)
  qed (use s Go in \<open>auto simp: settled_def fine_step_def thread_steps Let_def bq_pop_def split: if_splits\<close>)
qed (auto simp: settled_def fine_step_def quiet_def split: if_splits)

lemma settled_run: "settled c \<Longrightarrow> snd (fine_run os c es) = []"
proof (induction es arbitrary: c)
  case (Cons e es)
  then show ?case using settled_step [OF Cons.prems, of os e] by (auto simp: split_beta Let_def split: option.split)
qed simp

text \<open>A run in which all that was played was echoed can be stopped with nothing more sent.\<close>

lemma stop_after_run:
  assumes "udp_laws os out"
    and "media_new os ip port url w0 = (Inr m0, w1)" "media_start os m0 remote pt dpt w1 = (m, w)"
    and "media_run os (m, w) ts = ((m', w'), evs)"
    and "length (snd (jb_run (jb_new \<lparr>targetDepth = 3, capacity = 100\<rparr>) (jops evs))) = length (echoed evs)"
  shows "\<exists>es c. fine_run os (threads_of (m, w)) es = (c, evs) \<and> th_main c = MStopped"
proof -
  let ?rs = "\<lambda>n. concat (replicate n demo_round)"
  have m: "threads_run m" using media_new_start [OF assms(2,3)] by (simp add: session_start_def threads_run_def bq_new_def)
  obtain e1 where e1: "fine_run os (threads_of (m, w)) e1 = (threads_of (m', w'), evs)"
    using fine_media_run [OF m assms(4)] by blast
  have active: "threads_run m'" by (rule media_run_running [OF m assms(4)])
  let ?c = "(threads_of (m'\<lparr>ms_active := False\<rparr>, w'))\<lparr>th_main := MClose\<rparr>"
  have c0: "fine_run os (threads_of (m, w)) (e1 @ [CallStop]) = (?c, evs)"
    using e1 call_stop [OF active, of os w'] by (simp only: fine_run_append) simp
  have "subseq (echoed evs @ bq_items (ms_queue m')) (snd (jb_run (jb_new \<lparr>targetDepth = 3, capacity = 100\<rparr>) (jops evs)))"
    using session_flow(4) [OF assms(1-3) e1] by (simp add: threads_of_def)
  then have "bq_items (ms_queue m') = []" using assms(5) list_emb_length by fastforce
  then have "settled ?c" by (simp add: settled_def threads_of_def)
  note quiet = settled_run [OF this, of os "?rs (stop_work ?c)"]
  have "ms_active (fst (m, w))" using m by (simp add: threads_run_def)
  note r = reachable_facts(1) [OF c0] reachable_facts(2) [OF c0 this]
  obtain c where c: "fine_run os ?c (?rs (stop_work ?c)) = (c, [])" using quiet by (metis prod.collapse)
  have "\<not> ms_active (th_m ?c)" by (simp add: threads_of_def)
  from rounds_stop [OF r(2,1) this demo_rounds, of "stop_work ?c" os]
  have "th_main c = MStopped" unfolding fine_run_next [symmetric] c by simp
  moreover have "fine_run os (threads_of (m, w)) ((e1 @ [CallStop]) @ ?rs (stop_work ?c)) = (c, evs)"
    unfolding fine_run_append [of _ _ "e1 @ [CallStop]"] by (simp add: c0 c)
  ultimately show ?thesis by blast
qed

lemma demo_stopped: "\<exists>es c. fine_run demo_os (threads_of (demo_started, demo_bound_world)) es = (c, demo_events)
    \<and> th_main c = MStopped"
proof -
  obtain m w where run: "media_run demo_os (demo_started, demo_bound_world) demo_turns = ((m, w), demo_events)"
    using demo_run' by blast
  have "length (snd (jb_run (jb_new \<lparr>targetDepth = 3, capacity = 100\<rparr>) (jops demo_events))) = length (echoed demo_events)"
    unfolding demo_traffic demo_audio_def by code_simp
  from stop_after_run [OF demo_udp_laws demo_media_new demo_start run this] show ?thesis .
qed

theorem threads_echo_stream_witness: "\<exists>es c.
    fine_run demo_os (threads_of (media_start demo_os demo_new_session demo_peer 8 101 demo_bound_world)) es = (c, demo_events)
    \<and> th_main c = MStopped \<and> sent_data dw_tx (th_w c) = map rtp_serialize (echo_stream 8 0x51D0DE70 0 0 demo_audio)"
proof -
  obtain es c where r: "fine_run demo_os (threads_of (demo_started, demo_bound_world)) es = (c, demo_events)" "th_main c = MStopped"
    using demo_stopped by blast
  show ?thesis using threads_echo_stream [OF demo_udp_laws demo_media_new demo_start r(1)] demo_sends r
    by (auto simp: demo_start demo_quiet)
qed

theorem threads_call_echo_witness: "\<exists>es c qs.
    fine_run demo_os (threads_of (media_start demo_os demo_new_session demo_peer 8 101 demo_bound_world)) es = (c, demo_events)
    \<and> map rtp_parsed (sent_data dw_tx (th_w c)) = map Some qs \<and> map payload qs = map payload demo_audio"
proof -
  obtain es c where r: "fine_run demo_os (threads_of (demo_started, demo_bound_world)) es = (c, demo_events)" "th_main c = MStopped"
    using demo_stopped by blast
  have p: "numbered demo_audio" "displaced 1 [0, 2, 1]" "length [0, 2, 1 :: nat] = length demo_audio"
    by (auto simp: numbered_def displaced_def demo_audio_def rtp_packet_init_def less_Suc_eq numeral_3_eq_3)
  have "filter is_insert (jops demo_events) = map (\<lambda>i. JInsert (demo_audio ! i)) [0, 2, 1]" by simp
  moreover have "paced \<lparr>targetDepth = 3, capacity = 100\<rparr> 1 (length demo_audio) clock_start (jops demo_events)"
    by (simp add: clock_start_def) (simp add: demo_audio_def)
  moreover have "length (echoed demo_events) = length demo_audio" "\<forall>p \<in> set demo_audio. transparent 8 (payload p)"
    by (simp_all add: transparent_def)
  ultimately obtain qs where "map rtp_parsed (drop (length (sent_data dw_tx demo_bound_world)) (sent_data dw_tx (th_w c))) = map Some qs"
    "map payload qs = map payload demo_audio"
    using threads_call_echo [OF demo_udp_laws demo_sends demo_media_new demo_start r p(1-3)] by auto
  then show ?thesis using r by (auto simp: demo_start demo_quiet)
qed

end
