(* ===== verification/Call_Ports.thy ===== *)
theory Call_Ports
  imports Media_Session
begin

text \<open>
  The local address of a session stays taken as long as the session lives. The law for \<open>bind\<close> that the
  theorems about a second session rest on, over a view of the world (the addresses that are bound, each
  with its descriptor), and its consequence for every operation of a session.
\<close>

section \<open>The law\<close>

text \<open>
  A bind succeeds only on a free address and takes it (port 0 asks for any free port instead); only
  closing a descriptor frees its address.
\<close>

definition grows :: "('w \<Rightarrow> 'b set) \<Rightarrow> ('w \<Rightarrow> 'r \<times> 'w) \<Rightarrow> bool" where
  "grows bound f \<longleftrightarrow> (\<forall>w. bound w \<subseteq> bound (snd (f w)))"

definition port_laws :: "'w net_os \<Rightarrow> ('w \<Rightarrow> (int \<times> sockaddr) set) \<Rightarrow> bool" where
  "port_laws os bound \<longleftrightarrow>
    (\<forall>fd a w w'. os_bind os fd a w = (0, w') \<longrightarrow> a \<notin> snd ` bound w \<and> (sa_port a \<noteq> 0 \<longrightarrow> (fd, a) \<in> bound w'))
    \<and> (\<forall>fd w. {b \<in> bound w. fst b \<noteq> fd} \<subseteq> bound (os_close os fd w))
    \<and> (\<forall>fd a. grows bound (os_bind os fd a)) \<and> (\<forall>k. grows bound (os_socket os k))
    \<and> (\<forall>fd d a. grows bound (os_sendto os fd d a)) \<and> (\<forall>n s u. grows bound (os_select os n s u))
    \<and> (\<forall>fd n. grows bound (os_recvfrom os fd n)) \<and> (\<forall>h p. grows bound (os_getaddrinfo os h p))
    \<and> (\<forall>fd a. grows bound (os_connect os fd a)) \<and> (\<forall>fd d. grows bound (os_send os fd d))
    \<and> (\<forall>fd n. grows bound (os_recv os fd n)) \<and> grows bound (os_random os)"

lemma growsD: "grows bound f \<Longrightarrow> f w = (r, w') \<Longrightarrow> b \<in> bound w \<Longrightarrow> b \<in> bound w'"
  unfolding grows_def by (metis snd_conv subsetD)

lemma port_law_bind:
  assumes "port_laws os bound" "os_bind os fd a w = (0, w')"
  shows "a \<notin> snd ` bound w \<and> (sa_port a \<noteq> 0 \<longrightarrow> (fd, a) \<in> bound w')"
  using conjunct1 [OF assms(1) [unfolded port_laws_def], rule_format, OF assms(2)] .

lemma port_law_close:
  assumes "port_laws os bound" "b \<in> bound w" "fst b \<noteq> fd"
  shows "b \<in> bound (os_close os fd w)"
  using assms(2,3) assms(1) [unfolded port_laws_def, THEN conjunct2, THEN conjunct1] by blast

lemma port_law_grows:
  assumes "port_laws os bound"
  shows "grows bound (os_bind os fd a)" "grows bound (os_socket os k)" "grows bound (os_sendto os fd d a)"
    "grows bound (os_select os m s u)" "grows bound (os_recvfrom os fd i)" "grows bound (os_getaddrinfo os h p)"
    "grows bound (os_connect os fd a)" "grows bound (os_send os fd d)" "grows bound (os_recv os fd i)"
    "grows bound (os_random os)"
  using assms by (simp_all add: port_laws_def)

lemmas port_law_mono = port_law_grows [THEN growsD]

lemma demo_port_laws: "port_laws demo_os (\<lambda>w. set (dw_bound w))"
  by (auto simp: port_laws_def grows_def demo_os_def list_ex_iff split: list.splits if_splits)

section \<open>The operations of the sockets\<close>

lemma udp_kept:
  assumes "port_laws os bound" "b \<in> bound w"
  shows "udp_sendTo os s d dest w = (r, w') \<Longrightarrow> b \<in> bound w'"
    "udp_recvFrom os s t w = (q, w') \<Longrightarrow> b \<in> bound w'"
proof -
  note m = port_law_mono [OF assms(1)]
  show "udp_sendTo os s d dest w = (r, w') \<Longrightarrow> b \<in> bound w'"
    using assms(2) by (auto simp: udp_sendTo_def Let_def dest: m(3) split: option.splits prod.splits if_splits)
  have r: "udp_read os s v = (q, v') \<Longrightarrow> b \<in> bound v \<Longrightarrow> b \<in> bound v'" for v v' q
    by (auto simp: udp_read_def Let_def dest: m(5) split: option.splits prod.splits if_splits)
  show "udp_recvFrom os s t w = (q, w') \<Longrightarrow> b \<in> bound w'"
    using assms(2) by (auto simp: udp_recvFrom_def Let_def dest: m(4) r split: prod.splits if_splits)
qed

lemma sendAll_kept: "port_laws os bound \<Longrightarrow> b \<in> bound w \<Longrightarrow> b \<in> bound (snd (sendAll os fd data off w))"
proof (induction os fd data off w rule: sendAll.induct)
  case (1 os fd data off w)
  obtain n v where n: "os_send os fd (drop off data) w = (n, v)" by fastforce
  note v = port_law_mono(8) [OF 1(2) n 1(3)]
  show ?case
  proof (cases "off < length data \<and> \<not> n \<le> 0")
    case True
    then show ?thesis using 1(1) [OF _ n [symmetric]] 1(2) v n by (simp add: sendAll.simps [of os fd data off w])
  next
    case False
    then show ?thesis using 1(3) n v by (auto simp: sendAll.simps [of os fd data off w])
  qed
qed

lemma closeFd_kept:
  "port_laws os bound \<Longrightarrow> b \<in> bound w \<Longrightarrow> fst b \<notin> own_fd c \<Longrightarrow> b \<in> bound (snd (ws_closeFdUnlocked os c w))"
  by (auto simp: ws_closeFdUnlocked_def Let_def own_fd_def intro: port_law_close)

lemma sendFrame_kept:
  assumes "port_laws os bound" "b \<in> bound w" "fst b \<notin> own_fd c" "sendFrameUnlocked os c op d w = (ok, c', w')"
  shows "b \<in> bound w'"
proof -
  have r: "random_mask os w = (mk, v) \<Longrightarrow> b \<in> bound v" for mk v
    using assms(2) by (auto simp: random_mask_def dest: port_law_mono(10) [OF assms(1)] split: prod.splits)
  have s: "sendAll os fd f 0 v = (k, u) \<Longrightarrow> b \<in> bound v \<Longrightarrow> b \<in> bound u" for fd f v k u
    using sendAll_kept [OF assms(1), of b v fd f 0] by simp
  have c: "ws_closeFdUnlocked os c v = (k, u) \<Longrightarrow> b \<in> bound v \<Longrightarrow> b \<in> bound u" for v k u
    using closeFd_kept [OF assms(1), of b v c] assms(3) by simp
  show ?thesis using assms(2,4)
    by (auto simp: sendFrameUnlocked_def Let_def split: if_splits option.splits prod.splits dest!: r intro: s c)
qed

lemma read_response_kept:
  "port_laws os bound \<Longrightarrow> b \<in> bound w \<Longrightarrow> b \<in> bound (snd (read_response os fd resp w))"
proof (induction os fd resp w rule: read_response.induct)
  case (1 os fd resp w)
  obtain r v where r: "os_recv os fd 1024 w = (r, v)" by fastforce
  note v = port_law_mono(9) [OF 1(2) r 1(3)]
  show ?case
  proof (cases "find_str CRLF2 resp 0 = None \<and> (\<exists>d. r = Some d \<and> d \<noteq> [] \<and> length (resp @ bytes_text d) \<le> 8192)")
    case True
    then show ?thesis using 1(1) [OF _ r [symmetric]] 1(2) v r
      by (auto simp: read_response.simps [of os fd resp w])
  next
    case False
    then show ?thesis using 1(3) r v by (auto simp: read_response.simps [of os fd resp w] split: option.splits)
  qed
qed


lemma ws_connect_kept:
  assumes "port_laws os bound" "fd_laws os opened" "own_fd c = {}" "b \<in> bound w" "fst b \<in> opened w"
    and "ws_connect os c url w = (ok, c', w')"
  shows "b \<in> bound w'"
proof -
  obtain c0 where c: "ws_close os c w = (c0, w)"
    using assms(3) by (auto simp: ws_close_def ws_closeFdUnlocked_def own_fd_def split: if_splits)
  show ?thesis
  proof (cases "parseWsUrl url")
    case None
    then show ?thesis using assms(4,6) c by (simp add: ws_connect_def)
  next
    case (Some p)
    obtain a w1 where a: "os_getaddrinfo os (up_host p) (to_string (uint (up_port p))) w = (a, w1)" by fastforce
    obtain fd w2 where fd: "os_socket os SockStream w1 = (fd, w2)" by fastforce
    have b: "b \<in> bound w1" "b \<in> bound w2"
      using port_law_mono(6) [OF assms(1) a assms(4)] port_law_mono(2) [OF assms(1) fd] by auto
    have "fst b \<in> opened w1" using fd_law_same(5) [OF assms(2) a] assms(5) by simp
    then have ne: "fst b \<noteq> fd \<or> fd = kInvalidFd" using fd_law_socket [OF assms(2) fd] by auto
    have close: "fd \<noteq> kInvalidFd \<Longrightarrow> b \<in> bound v \<Longrightarrow> b \<in> bound (os_close os fd v)" for v
      using port_law_close [OF assms(1)] ne by blast
    have s: "sendAll os fd f 0 v = (k, u) \<Longrightarrow> b \<in> bound v \<Longrightarrow> b \<in> bound u" for f v k u
      using sendAll_kept [OF assms(1), of b v fd f 0] by simp
    have r: "read_response os fd f v = (k, u) \<Longrightarrow> b \<in> bound v \<Longrightarrow> b \<in> bound u" for f v k u
      using read_response_kept [OF assms(1), of b v fd f] by simp
    have k: "randomWsKey os v = (k, u) \<Longrightarrow> b \<in> bound v \<Longrightarrow> b \<in> bound u" for v k u
      by (auto simp: randomWsKey_def Let_def dest: port_law_mono(10) [OF assms(1)] split: prod.splits)
    show ?thesis using assms(6) b Some c a fd
      by (auto simp: ws_connect_def Let_def split: option.splits if_splits prod.splits
          intro!: close dest: port_law_mono(7) [OF assms(1)] k s r)
  qed
qed

section \<open>A session holds its address\<close>

definition holds :: "('w \<Rightarrow> (int \<times> sockaddr) set) \<Rightarrow> sockaddr \<Rightarrow> 'w media_state \<Rightarrow> bool" where
  "holds bound a st \<longleftrightarrow> (us_fd (ms_sock (fst st)), a) \<in> bound (snd st)"

lemma holds_update: "ms_sock m' = ms_sock m \<Longrightarrow> holds bound a (m, w) \<Longrightarrow> holds bound a (m', w)"
  by (simp add: holds_def)

lemma media_echo_holds:
  assumes "port_laws os bound" "holds bound a (m, w)" "us_fd (ms_sock m) \<notin> own_fd (ms_ws m)"
  shows "holds bound a (media_echo os m pkt w)"
proof -
  let ?pcm = "media_decode (ms_payloadType m) (payload pkt)"
  obtain m' w' where e: "media_echo os m pkt w = (m', w')" by fastforce
  have sock: "ms_sock m' = ms_sock m" by (subst media_echo_frame [OF e]) simp
  obtain ws v where v: "(if ws_connected (ms_ws m) \<and> ?pcm \<noteq> []
      then snd (ws_sendBinary os (ms_ws m) (pcm_bytes (upsample8kTo16k ?pcm)) w) else (ms_ws m, w)) = (ws, v)" by fastforce
  have b: "(us_fd (ms_sock m), a) \<in> bound v"
  proof (cases "ws_connected (ms_ws m) \<and> ?pcm \<noteq> []")
    case True
    then obtain ok where "sendFrameUnlocked os (ms_ws m) 2 (pcm_bytes (upsample8kTo16k ?pcm)) w = (ok, ws, v)"
      using v by (metis ws_sendBinary_def prod.collapse snd_conv)
    then show ?thesis using assms by (auto simp: holds_def intro: sendFrame_kept)
  qed (use v assms(2) in \<open>auto simp: holds_def\<close>)
  obtain r u where u: "udp_sendTo os (ms_sock m) (rtp_serialize (media_out_packet m ?pcm)) (ms_remote m) v = (r, u)" by fastforce
  have "w' = u" using e v u by (simp add: media_echo_def media_out_packet_def)
  then show ?thesis using udp_kept(1) [OF assms(1) b u] sock by (simp add: e holds_def)
qed

lemma media_packet_holds:
  assumes "port_laws os bound" "holds bound a (m, w)" "us_fd (ms_sock m) \<notin> own_fd (ms_ws m)"
  shows "holds bound a (fst (media_packet os m src pkt w))"
proof -
  have latch: "ms_ws (media_latch m src) = ms_ws m" "ms_sock (media_latch m src) = ms_sock m"
    by (simp_all add: media_latch_def)
  have digit: "holds bound a (media_onDtmfDigit os m' c w)" if "ms_ws m' = ms_ws m" "ms_sock m' = ms_sock m" for m' c
  proof -
    obtain ok ws v where s: "sendFrameUnlocked os (ms_ws m) 1 (text_bytes (dtmf_json c)) w = (ok, ws, v)" by (metis surj_pair)
    then show ?thesis using sendFrame_kept [OF assms(1) _ _ s] assms(2,3) that
      by (simp add: media_onDtmfDigit_def ws_sendText_def holds_def)
  qed
  show ?thesis using assms(2)
    by (simp add: media_packet_def Let_def latch digit split: option.split) (simp add: holds_def latch)
qed

lemma media_turn_holds:
  assumes "port_laws os bound" "holds bound a (m, w)" "us_fd (ms_sock m) \<notin> own_fd (ms_ws m)"
  shows "holds bound a (fst (media_turn_of os (m, w) t))"
proof -
  obtain r v where r: "udp_recvFrom os (ms_sock m) 200 w = (r, v)" by fastforce
  have v: "holds bound a (m, v)" using udp_kept(2) [OF assms(1) _ r] assms(2) by (simp add: holds_def)
  have "holds bound a (fst (media_recv_turn os (m, w)))"
    using r v assms(2) media_packet_holds [OF assms(1) v assms(3)]
    by (auto simp: media_recv_turn_def holds_def split: sum.split option.split)
  moreover have "holds bound a (fst (media_playout_turn (m, w)))"
    using assms(2) by (simp add: media_playout_turn_def Let_def holds_def split: option.split prod.split)
  moreover have "holds bound a (fst (media_output_turn os (m, w)))"
    using assms(2,3) by (auto simp: media_output_turn_def split: option.split prod.split
        intro: holds_update intro!: media_echo_holds [OF assms(1)])
  ultimately show ?thesis using assms(2) by (simp add: media_turn_of_def split: media_turn.split)
qed

lemma call_fds_sock: "call_fds opened base (m, w) \<Longrightarrow> us_fd (ms_sock m) \<notin> own_fd (ms_ws m) \<and> us_fd (ms_sock m) \<in> opened w"
  by (auto simp: call_fds_def others_def Let_def)

text \<open>The address that \<open>bind\<close> asks for.\<close>

definition bind_addr :: "'w net_os \<Rightarrow> string \<Rightarrow> u16 \<Rightarrow> sockaddr option" where
  "bind_addr os ip port = map_option (\<lambda>a. \<lparr>sa_addr = a, sa_port = port\<rparr>)
     (if ip = [] \<or> ip = ''0.0.0.0'' then Some 0 else os_pton os ip)"

lemma udp_bind_addr:
  assumes "udp_bind os s ip port w = (r, s', w')"
  shows "(\<exists>e. r = Inl e) \<or> (\<exists>a. bind_addr os ip port = Some a \<and> os_bind os (us_fd s) a w = (0, w') \<and> us_fd s' = us_fd s)"
  using assms by (auto simp: udp_bind_def bind_addr_def Let_def split: option.splits prod.splits if_splits)

text \<open>A session can only be made on a free address, and then holds it.\<close>

lemma media_new_bound:
  assumes "port_laws os bound" "media_new os ip port url w = (Inr m, w')"
  shows "\<exists>a. bind_addr os ip port = Some a \<and> a \<notin> snd ` bound w \<and> (port \<noteq> 0 \<longrightarrow> holds bound a (m, w'))"
proof -
  obtain s v where s: "udp_new os w = (Inr s, v)"
    using assms(2) by (auto simp: media_new_def split: sum.splits prod.splits)
  obtain s' where b: "udp_bind os s ip port v = (Inr (), s', w')" "m = media_init s' url"
    using assms(2) s by (auto simp: media_new_def split: sum.splits prod.splits)
  obtain a where a: "bind_addr os ip port = Some a" "os_bind os (us_fd s) a v = (0, w')" "us_fd s' = us_fd s"
    using udp_bind_addr [OF b(1)] by auto
  have "sa_port a = port" using a(1) by (auto simp: bind_addr_def split: if_splits)
  moreover have "bound w \<subseteq> bound v" using s port_law_grows(2) [OF assms(1)]
    by (auto simp: udp_new_def grows_def Let_def split: prod.splits if_splits) (metis snd_conv subsetD)
  ultimately show ?thesis using port_law_bind [OF assms(1) a(2)] a(1,3) b(2)
    by (auto simp: holds_def media_init_def)
qed

lemma media_start_holds:
  assumes "port_laws os bound" "fd_laws os opened" "own_fd (ms_ws m) = {}" "us_fd (ms_sock m) \<in> opened w"
    and "holds bound a (m, w)" "media_start os m remote pt dpt w = (m', w')"
  shows "holds bound a (m', w')"
proof -
  obtain ok c v where c: "ws_connect os (ms_ws m) (ms_wsUrl m) w = (ok, c, v)" by (metis surj_pair)
  show ?thesis using ws_connect_kept [OF assms(1-3) _ _ c] assms(4-6) c
    by (auto simp: media_start_def holds_def Let_def split: if_splits)
qed

end
