(* ===== verification/Cxx_Args.thy ===== *)
theory Cxx_Args
  imports Complex_Main Cxx_Strings
begin

text \<open>
  What the two programs use of the C++ library to read their command lines: \<open>std::stoi\<close> and \<open>std::stod\<close>
  with the exceptions they throw, and the lambda \<open>next\<close> of both \<open>parseArgs\<close> functions (src/src/app/main.cpp,
  src/src/tools/rtp_sender.cpp). An uncaught exception ends the program, and so does the usage option.

  \<open>std::stod\<close> is modelled for decimal numbers with an optional fraction and exponent, with \<open>double\<close> as
  real; the hexadecimal, infinite and not-a-number forms and underflow are left out.
\<close>

section \<open>Definitions\<close>

datatype arg_exit = Usage | InvalidArgument | OutOfRange

definition stoi :: "string \<Rightarrow> arg_exit + int" where
  "stoi s =
    (let (v, ok) = strtol s
     in if \<not> ok then Inl InvalidArgument
        else if v < - (2 ^ 31) \<or> v > 2 ^ 31 - 1 then Inl OutOfRange
        else Inr v)"

definition exponent :: "string \<Rightarrow> int" where
  "exponent s = (case s of
     c # t \<Rightarrow> if c = CHR ''e'' \<or> c = CHR ''E'' then
         (let (neg, u) = sign_split t; v = int (dec_value (takeWhile is_digit u)) in if neg then - v else v)
       else 0
   | [] \<Rightarrow> 0)"

definition scale10 :: "int \<Rightarrow> real" where
  "scale10 e = (if e \<ge> 0 then 10 ^ nat e else 1 / 10 ^ nat (- e))"

definition stod :: "string \<Rightarrow> arg_exit + real" where
  "stod s =
    (let (neg, r) = sign_split (dropWhile is_space s);
         whole = takeWhile is_digit r;
         rest = dropWhile is_digit r;
         (frac, rest) = (case rest of
            c # t \<Rightarrow> if c = CHR ''.'' then (takeWhile is_digit t, dropWhile is_digit t) else ([], rest)
          | [] \<Rightarrow> ([], []))
     in if whole = [] \<and> frac = [] then Inl InvalidArgument
        else
          (let v = real (dec_value (whole @ frac)) * scale10 (exponent rest - int (length frac))
           in if v \<ge> 2 ^ 1024 then Inl OutOfRange else Inr (if neg then - v else v)))"

text \<open>The value of an option: the next argument, or the empty string after the last.\<close>

definition arg_next :: "string list \<Rightarrow> string" where
  "arg_next args = (case args of [] \<Rightarrow> [] | a # _ \<Rightarrow> a)"

section \<open>Numbers as they are written\<close>

lemma stoi_to_string: "- (2 ^ 31) \<le> i \<Longrightarrow> i < 2 ^ 31 \<Longrightarrow> stoi (to_string i) = Inr i"
  using strtol_to_string [of i "[]"] long_max_ge by (simp add: stoi_def)

lemma stoi_fits: "stoi s = Inr v \<Longrightarrow> - (2 ^ 31) \<le> v \<and> v < 2 ^ 31"
  by (auto simp: stoi_def split: prod.splits if_splits)

lemma stod_to_dec:
  assumes "real n < 2 ^ 1024"
  shows "stod (to_dec n) = Inr (real n)"
proof -
  have d: "list_all is_digit (to_dec n)" using to_dec_digits by (simp add: list_all_iff)
  obtain c cs where c: "to_dec n = c # cs" by (cases "to_dec n") simp_all
  then have "is_digit c" using d by simp
  then have "dropWhile is_space (to_dec n) = to_dec n" "sign_split (to_dec n) = (False, to_dec n)"
    using digit_not_space [of c] by (simp_all add: c sign_split_def)
  moreover have "takeWhile is_digit (to_dec n) = to_dec n" "dropWhile is_digit (to_dec n) = []"
    using d by (simp_all add: list_all_iff)
  ultimately show ?thesis using assms by (simp add: stod_def c exponent_def scale10_def) (simp flip: c)
qed

end
