(* ===== verification/Sip_App.thy ===== *)
theory Sip_App
  imports Cxx_Args Sip_Uas Call_Ports
begin

text \<open>
  The program sipdemo: \<open>parseArgs\<close> and \<open>main\<close> of src/src/app/main.cpp, which put the signaling agent
  (Sip_Uas), the sockets (Udp_Socket) and the call's media pipeline (Media_Session) together.

  One turn of the main thread is one iteration of its loop; between two of them the threads of the
  session may take any number of turns, so a run is a list of turns of both kinds. The list ends when
  \<open>g_running\<close> is cleared. An exception that \<open>main\<close> does not catch ends the program without running any
  destructor: the error values below. What is printed is left out, but for the statistics lines.
\<close>

section \<open>The command line\<close>

record app_config =
  ac_ip :: string
  ac_sipPort :: u16
  ac_rtpPort :: u16
  ac_wsUrl :: string

definition app_config_init :: app_config where
  "app_config_init = \<lparr>ac_ip = ''127.0.0.1'', ac_sipPort = 5060, ac_rtpPort = 40000,
     ac_wsUrl = ''ws://127.0.0.1:8080/stream''\<rparr>"

fun app_args :: "app_config \<Rightarrow> string list \<Rightarrow> arg_exit + app_config" where
  "app_args c [] = Inr c"
| "app_args c (k # args) =
    (if k = ''--ip'' then app_args (c\<lparr>ac_ip := arg_next args\<rparr>) (drop 1 args)
     else if k = ''--sip-port'' then
       (case stoi (arg_next args) of
          Inl e \<Rightarrow> Inl e | Inr v \<Rightarrow> app_args (c\<lparr>ac_sipPort := word_of_int v\<rparr>) (drop 1 args))
     else if k = ''--rtp-port'' then
       (case stoi (arg_next args) of
          Inl e \<Rightarrow> Inl e | Inr v \<Rightarrow> app_args (c\<lparr>ac_rtpPort := word_of_int v\<rparr>) (drop 1 args))
     else if k = ''--ws-url'' then app_args (c\<lparr>ac_wsUrl := arg_next args\<rparr>) (drop 1 args)
     else if k = ''--help'' \<or> k = ''-h'' then Inl Usage
     else app_args c args)"

definition app_parseArgs :: "string list \<Rightarrow> arg_exit + app_config" where
  "app_parseArgs args = app_args app_config_init args"

section \<open>One iteration of the main loop\<close>

record app =
  ap_cfg :: app_config
  ap_sock :: udp_socket
  ap_uas :: sip_uas
  ap_media :: "media_session option"
  ap_lastStats :: real

text \<open>What a turn did, for the theorems.\<close>

datatype app_event = Handled sip_message | Stats media_stats | Media media_event

fun app_respond :: "'w net_os \<Rightarrow> udp_socket \<Rightarrow> endpoint \<Rightarrow> sip_message list \<Rightarrow> 'w \<Rightarrow> (string + unit) \<times> 'w" where
  "app_respond os s dest [] w = (Inr (), w)"
| "app_respond os s dest (resp # rs) w =
    (case udp_sendTo os s (text_bytes (serialize resp)) dest w of
       (Inl e, w) \<Rightarrow> (Inl e, w)
     | (Inr _, w) \<Rightarrow> app_respond os s dest rs w)"

definition app_destroy_media :: "'w net_os \<Rightarrow> media_session option \<Rightarrow> 'w \<Rightarrow> 'w" where
  "app_destroy_media os md w = (case md of None \<Rightarrow> w | Some m \<Rightarrow> media_destroy os (m, w))"

text \<open>The assignment to the \<open>unique_ptr\<close>: the new session is constructed before the old one is destroyed.\<close>

definition app_start_media :: "'w net_os \<Rightarrow> app_config \<Rightarrow> uas_result \<Rightarrow> media_session option \<Rightarrow> 'w \<Rightarrow> (string + media_session) \<times> 'w" where
  "app_start_media os c res old w =
    (case media_new os (ac_ip c) (ac_rtpPort c) (ac_wsUrl c) w of
       (Inl e, w) \<Rightarrow> (Inl e, w)
     | (Inr m, w) \<Rightarrow>
         (let w = app_destroy_media os old w;
              (m, w) = media_start os m (remoteRtp res) (res_payloadType res) (res_dtmfPayloadType res) w
          in (Inr m, w)))"

definition app_request :: "'w net_os \<Rightarrow> (nat \<Rightarrow> u32) \<Rightarrow> app \<Rightarrow> endpoint \<Rightarrow> sip_message \<Rightarrow> 'w \<Rightarrow> (string + app) \<times> 'w" where
  "app_request os rnd a src req w =
    (let (u, res) = uas_handle rnd (ap_uas a) req; a = a\<lparr>ap_uas := u\<rparr>
     in case app_respond os (ap_sock a) src (responses res) w of
          (Inl e, w) \<Rightarrow> (Inl e, w)
        | (Inr _, w) \<Rightarrow>
            (case media res of
               MediaStart \<Rightarrow>
                 (case app_start_media os (ap_cfg a) res (ap_media a) w of
                    (Inl e, w) \<Rightarrow> (Inl e, w)
                  | (Inr m, w) \<Rightarrow> (Inr (a\<lparr>ap_media := Some m\<rparr>), w))
             | MediaStop \<Rightarrow> (Inr (a\<lparr>ap_media := None\<rparr>), app_destroy_media os (ap_media a) w)
             | MediaNone \<Rightarrow> (Inr a, w)))"

definition app_stats :: "'w net_os \<Rightarrow> app \<Rightarrow> 'w \<Rightarrow> app \<times> app_event list" where
  "app_stats os a w =
    (case ap_media a of
       Some m \<Rightarrow>
         if os_now os w - ap_lastStats a \<ge> 1 then (a\<lparr>ap_lastStats := os_now os w\<rparr>, [Stats (media_printStats m)])
         else (a, [])
     | None \<Rightarrow> (a, []))"

text \<open>The message of a datagram that the loop hands to the agent.\<close>

definition app_message :: "bytes \<Rightarrow> sip_message option" where
  "app_message d = (case parseSip (bytes_text d) of
     Some msg \<Rightarrow> if isRequest msg then Some msg else None | None \<Rightarrow> None)"

definition app_poll :: "'w net_os \<Rightarrow> (nat \<Rightarrow> u32) \<Rightarrow> app \<Rightarrow> 'w \<Rightarrow> ((string + app) \<times> 'w) \<times> app_event list" where
  "app_poll os rnd a w =
    (case udp_recvFrom os (ap_sock a) 200 w of
       (Inl e, w) \<Rightarrow> ((Inl e, w), [])
     | (Inr dg, w) \<Rightarrow>
         (let (r, w, evs) =
            (case Option.bind dg (\<lambda>d. app_message (dg_data d)) of
               None \<Rightarrow> (Inr a, w, [])
             | Some req \<Rightarrow> (case app_request os rnd a (dg_from (the dg)) req w of (r, w) \<Rightarrow> (r, w, [Handled req])))
          in case r of
               Inl e \<Rightarrow> ((Inl e, w), evs)
             | Inr a \<Rightarrow> (let (a, st) = app_stats os a w in ((Inr a, w), evs @ st))))"

section \<open>Runs\<close>

datatype app_turn = Poll | Thread media_turn

definition app_step :: "'w net_os \<Rightarrow> (nat \<Rightarrow> u32) \<Rightarrow> app \<Rightarrow> 'w \<Rightarrow> app_turn \<Rightarrow> ((string + app) \<times> 'w) \<times> app_event list" where
  "app_step os rnd a w t =
    (case t of
       Poll \<Rightarrow> app_poll os rnd a w
     | Thread mt \<Rightarrow>
         (case ap_media a of
            None \<Rightarrow> ((Inr a, w), [])
          | Some m \<Rightarrow>
              (case media_turn_of os (m, w) mt of ((m, w), evs) \<Rightarrow> ((Inr (a\<lparr>ap_media := Some m\<rparr>), w), map Media evs))))"

fun app_run :: "'w net_os \<Rightarrow> (nat \<Rightarrow> u32) \<Rightarrow> app \<Rightarrow> 'w \<Rightarrow> app_turn list \<Rightarrow> ((string + app) \<times> 'w) \<times> app_event list" where
  "app_run os rnd a w [] = ((Inr a, w), [])"
| "app_run os rnd a w (t # ts) =
    (case app_step os rnd a w t of
       ((Inl e, w), evs) \<Rightarrow> ((Inl e, w), evs)
     | ((Inr a, w), evs) \<Rightarrow> (case app_run os rnd a w ts of (r, evs') \<Rightarrow> (r, evs @ evs')))"

text \<open>The state before the loop.\<close>

definition app_start :: "'w net_os \<Rightarrow> app_config \<Rightarrow> 'w \<Rightarrow> (string + app) \<times> 'w" where
  "app_start os c w =
    (case udp_new os w of
       (Inl e, w) \<Rightarrow> (Inl e, w)
     | (Inr s, w) \<Rightarrow>
         (case udp_bind os s (ac_ip c) (ac_sipPort c) w of
            (Inl e, s, w) \<Rightarrow> (Inl e, w)
          | (Inr _, s, w) \<Rightarrow>
              (Inr \<lparr>ap_cfg = c, ap_sock = s,
                 ap_uas = uas_new \<lparr>uc_localIp = ac_ip c, uc_sipPort = ac_sipPort c, uc_rtpPort = ac_rtpPort c,
                   uc_userAgent = ''sipdemo/0.1''\<rparr>,
                 ap_media = None, ap_lastStats = os_now os w\<rparr>, w)))"

text \<open>After the loop, and the destructors of the locals of \<open>main\<close>.\<close>

definition app_finish :: "'w net_os \<Rightarrow> app \<Rightarrow> 'w \<Rightarrow> 'w" where
  "app_finish os a w = udp_destroy os (ap_sock a) (app_destroy_media os (ap_media a) w)"

text \<open>\<open>main\<close>: \<open>Inr ()\<close> is a normal exit, \<open>Inl e\<close> the end by an uncaught exception or \<open>std::exit\<close>.\<close>

datatype app_error = BadArgs arg_exit | Uncaught string

definition app_main :: "'w net_os \<Rightarrow> (nat \<Rightarrow> u32) \<Rightarrow> string list \<Rightarrow> app_turn list \<Rightarrow> 'w \<Rightarrow> (app_error + unit) \<times> 'w" where
  "app_main os rnd args ts w =
    (case app_parseArgs args of
       Inl e \<Rightarrow> (Inl (BadArgs e), w)
     | Inr c \<Rightarrow>
         (case app_start os c w of
            (Inl e, w) \<Rightarrow> (Inl (Uncaught e), w)
          | (Inr a, w) \<Rightarrow>
              (case fst (app_run os rnd a w ts) of
                 (Inl e, w) \<Rightarrow> (Inl (Uncaught e), w)
               | (Inr a, w) \<Rightarrow> (Inr (), app_finish os a w))))"


section \<open>The program refines the agent\<close>

text \<open>
  The specification: the agent on its own, over the messages handed to it, and the media it asked for
  last (the payload type and the telephone-event type).
\<close>

definition agent_step :: "(nat \<Rightarrow> u32) \<Rightarrow> sip_uas \<times> (int \<times> int) option \<Rightarrow> sip_message \<Rightarrow> sip_uas \<times> (int \<times> int) option" where
  "agent_step rnd = (\<lambda>(u, p) req.
    case uas_handle rnd u req of (v, r) \<Rightarrow>
      (v, case media r of MediaStart \<Rightarrow> Some (res_payloadType r, res_dtmfPayloadType r) | MediaStop \<Rightarrow> None | MediaNone \<Rightarrow> p))"

definition agent_run :: "(nat \<Rightarrow> u32) \<Rightarrow> uas_config \<Rightarrow> sip_message list \<Rightarrow> sip_uas \<times> (int \<times> int) option" where
  "agent_run rnd c msgs = foldl (agent_step rnd) (uas_new c, None) msgs"

definition app_uas_config :: "app_config \<Rightarrow> uas_config" where
  "app_uas_config c = \<lparr>uc_localIp = ac_ip c, uc_sipPort = ac_sipPort c, uc_rtpPort = ac_rtpPort c, uc_userAgent = ''sipdemo/0.1''\<rparr>"

definition handled :: "app_event list \<Rightarrow> sip_message list" where
  "handled evs = concat (map (\<lambda>e. case e of Handled m \<Rightarrow> [m] | _ \<Rightarrow> []) evs)"

lemma handled_simps [simp]: "handled [] = []" "handled (a @ b) = handled a @ handled b" "handled (map Media es) = []"
  "handled [Handled m] = [m]" "handled [Stats s] = []" "handled (Handled m # evs) = m # handled evs"
  by (simp_all add: handled_def comp_def)

text \<open>The program's part of that state: the agent, and the parameters of the running session.\<close>

definition session_params :: "media_session \<Rightarrow> int \<times> int" where
  "session_params m = (ms_payloadType m, ms_dtmfPayloadType m)"

definition app_abs :: "app \<Rightarrow> sip_uas \<times> (int \<times> int) option" where
  "app_abs a = (ap_uas a, map_option session_params (ap_media a))"

definition app_live :: "app \<Rightarrow> bool" where
  "app_live a \<longleftrightarrow> (\<forall>m. ap_media a = Some m \<longrightarrow> ms_active m)"

lemma media_turn_same_call: "media_turn_of os st t = (st', evs) \<Longrightarrow> same_call (fst st) (fst st')"
  by (cases st) (auto simp: media_turn_of_def media_recv_turn_def media_playout_turn_def media_output_turn_def same_call_def
      media_packet_def media_latch_def media_onDtmfDigit_def media_echo_def Let_def
      split: media_turn.splits if_splits sum.splits option.splits prod.splits)

lemma app_start_media_session:
  assumes "app_start_media os c res old w = (Inr m, w')"
  shows "session_start m (res_payloadType res) (res_dtmfPayloadType res) \<and> ms_remote m = remoteRtp res"
proof -
  obtain m0 w1 where n: "media_new os (ac_ip c) (ac_rtpPort c) (ac_wsUrl c) w = (Inr m0, w1)"
    using assms by (auto simp: app_start_media_def split: sum.splits prod.splits)
  then have "media_start os m0 (remoteRtp res) (res_payloadType res) (res_dtmfPayloadType res) (app_destroy_media os old w1) = (m, w')"
    using assms by (auto simp: app_start_media_def Let_def split: prod.splits)
  with n show ?thesis
    by (auto simp: media_new_def media_start_def media_init_def session_start_def Let_def split: sum.splits prod.splits)
qed

lemma app_request_abs:
  assumes "app_request os rnd a src req w = (Inr a', w')" "app_live a"
  shows "app_abs a' = agent_step rnd (app_abs a) req \<and> app_live a' \<and> ap_cfg a' = ap_cfg a \<and> ap_sock a' = ap_sock a"
proof -
  obtain u res where u: "uas_handle rnd (ap_uas a) req = (u, res)" by fastforce
  obtain w1 where r: "app_respond os (ap_sock a) src (responses res) w = (Inr (), w1)"
    using assms(1) u by (auto simp: app_request_def Let_def split: sum.splits prod.splits)
  show ?thesis
  proof (cases "media res")
    case MediaStart
    obtain m w2 where m: "app_start_media os (ap_cfg a) res (ap_media a) w1 = (Inr m, w2)" "a' = a\<lparr>ap_uas := u, ap_media := Some m\<rparr>"
      using assms(1) u r MediaStart by (auto simp: app_request_def split: sum.splits prod.splits)
    then show ?thesis using app_start_media_session [OF m(1)] u MediaStart
      by (simp add: app_abs_def agent_step_def session_params_def session_start_def app_live_def)
  qed (use assms u r in \<open>auto simp: app_request_def app_abs_def agent_step_def app_live_def\<close>)
qed

lemma app_stats_same:
  "app_stats os a w = (a', evs) \<Longrightarrow> app_abs a' = app_abs a \<and> ap_media a' = ap_media a \<and> ap_cfg a' = ap_cfg a
    \<and> ap_sock a' = ap_sock a \<and> handled evs = []"
  by (auto simp: app_stats_def app_abs_def split: option.splits if_splits)

text \<open>A turn of the main loop that does not end the program: nothing, or one handled request.\<close>

lemma app_poll_elim:
  assumes "app_poll os rnd a w = ((Inr a', w'), evs)"
  obtains (idle) dg where "udp_recvFrom os (ap_sock a) 200 w = (Inr dg, w')" "app_stats os a w' = (a', evs)"
      "Option.bind dg (\<lambda>d. app_message (dg_data d)) = None"
  | (request) dg v req a1 st where "udp_recvFrom os (ap_sock a) 200 w = (Inr (Some dg), v)" "app_message (dg_data dg) = Some req"
      "app_request os rnd a (dg_from dg) req v = (Inr a1, w')" "app_stats os a1 w' = (a', st)" "evs = Handled req # st"
proof -
  obtain dg v where d: "udp_recvFrom os (ap_sock a) 200 w = (Inr dg, v)"
    using assms by (auto simp: app_poll_def split: sum.splits prod.splits)
  show ?thesis
  proof (cases "Option.bind dg (\<lambda>d. app_message (dg_data d))")
    case None
    then show ?thesis using idle assms d by (auto simp: app_poll_def Let_def split: prod.splits)
  next
    case (Some req)
    then obtain g where g: "dg = Some g" "app_message (dg_data g) = Some req" by (cases dg) auto
    obtain r u where "app_request os rnd a (dg_from g) req v = (r, u)" by fastforce
    then show ?thesis using request assms d g
      by (auto simp: app_poll_def Let_def split: prod.splits sum.splits)
  qed
qed

lemma app_message_request: "app_message d = Some req \<Longrightarrow> isRequest req \<and> parseSip (bytes_text d) = Some req"
  by (auto simp: app_message_def split: option.splits if_splits)

lemma app_message_headers: "app_message d = Some req \<Longrightarrow> headers_ok req"
  by (drule app_message_request, elim conjE, erule parseSipE)
    (auto simp: headers_ok_def dest!: parsed_headers_ok)

lemma app_step_abs:
  assumes "app_step os rnd a w t = ((Inr a', w'), evs)" "app_live a"
  shows "app_abs a' = foldl (agent_step rnd) (app_abs a) (handled evs) \<and> app_live a' \<and> ap_cfg a' = ap_cfg a
    \<and> ap_sock a' = ap_sock a \<and> list_all headers_ok (handled evs)"
proof (cases t)
  case Poll
  then have "app_poll os rnd a w = ((Inr a', w'), evs)" using assms(1) by (simp add: app_step_def)
  then show ?thesis
  proof (cases rule: app_poll_elim)
    case (idle dg)
    then show ?thesis using app_stats_same [OF idle(2)] assms(2) by (simp add: app_live_def)
  next
    case (request dg v req a1 st)
    show ?thesis using app_request_abs [OF request(3) assms(2)] app_stats_same [OF request(4)] app_message_headers [OF request(2)]
      by (simp add: request(5) app_live_def)
  qed
next
  case (Thread mt)
  then show ?thesis using assms
    by (auto simp: app_step_def app_abs_def app_live_def same_call_def session_params_def
        dest!: media_turn_same_call split: option.splits prod.splits)
qed

lemma app_run_step:
  assumes "app_run os rnd a w (t # ts) = ((Inr a', w'), evs)"
  obtains a1 w1 e1 e2 where "app_step os rnd a w t = ((Inr a1, w1), e1)" "app_run os rnd a1 w1 ts = ((Inr a', w'), e2)" "evs = e1 @ e2"
  using assms that by (auto split: prod.splits sum.splits)

lemma app_run_abs:
  assumes "app_run os rnd a w ts = ((Inr a', w'), evs)" "app_live a"
  shows "app_abs a' = foldl (agent_step rnd) (app_abs a) (handled evs) \<and> app_live a' \<and> ap_cfg a' = ap_cfg a
    \<and> ap_sock a' = ap_sock a \<and> list_all headers_ok (handled evs)"
  using assms
proof (induction ts arbitrary: a w evs)
  case (Cons t ts)
  show ?case
  proof (rule app_run_step [OF Cons.prems(1)])
    fix a1 w1 e1 e2
    assume s: "app_step os rnd a w t = ((Inr a1, w1), e1)" "app_run os rnd a1 w1 ts = ((Inr a', w'), e2)" "evs = e1 @ e2"
    note A = app_step_abs [OF s(1) Cons.prems(2)]
    then show ?thesis using Cons.IH [OF s(2)] s(3) by simp
  qed
qed simp

lemma app_start_abs:
  assumes "app_start os c w = (Inr a, w')"
  shows "app_abs a = (uas_new (app_uas_config c), None)" "app_live a" "ap_cfg a = c" "ap_media a = None"
  using assms by (auto simp: app_start_def app_abs_def app_live_def app_uas_config_def split: sum.splits prod.splits)

lemma agent_run_uas: "fst (agent_run rnd c msgs) = uas_run rnd c msgs"
proof -
  have "fst (foldl (agent_step rnd) (u, p) msgs) = foldl (uas_step rnd) u msgs" for u p
    by (induction msgs arbitrary: u p) (simp_all add: agent_step_def uas_step_def split_beta)
  then show ?thesis by (simp add: agent_run_def uas_run_def)
qed

text \<open>While there is a dialog, its media was asked for.\<close>

lemma agent_dialog:
  "uas_inv (fst (agent_run rnd c msgs)) \<and> (haveDialog (fst (agent_run rnd c msgs)) \<longrightarrow> snd (agent_run rnd c msgs) \<noteq> None)"
proof (induction msgs rule: rev_induct)
  case Nil
  then show ?case by (simp add: agent_run_def uas_new_def uas_inv_def tags_ok_def)
next
  case (snoc req msgs)
  obtain u p where s: "agent_run rnd c msgs = (u, p)" by fastforce
  obtain v r where h: "uas_handle rnd u req = (v, r)" by fastforce
  have n: "agent_run rnd c (msgs @ [req]) = (v, case media r of
      MediaStart \<Rightarrow> Some (res_payloadType r, res_dtmfPayloadType r) | MediaStop \<Rightarrow> None | MediaNone \<Rightarrow> p)"
    using s h by (simp add: agent_run_def agent_step_def)
  have i: "uas_inv u" "haveDialog u \<longrightarrow> p \<noteq> None" using snoc s by simp_all
  have "haveDialog v \<longrightarrow> media r = MediaStart \<or> (media r = MediaNone \<and> haveDialog u)"
  proof (rule uas_handle_elim [OF h i(1)], goal_cases)
    case (5 cid cs)
    show ?case by (rule new_call_elim [OF 5(1)]) simp_all
  qed (auto simp: uas_result_init_def dest!: same_dialogD)
  then show ?case using uas_handle_inv [OF h i(1)] i(2) n by (auto split: media_action.split)
qed


section \<open>Descriptors\<close>

text \<open>What the program holds open besides \<open>base\<close>: nothing, or a session's socket and client.\<close>

definition app_fds :: "('w \<Rightarrow> int set) \<Rightarrow> int set \<Rightarrow> media_session option \<Rightarrow> 'w \<Rightarrow> bool" where
  "app_fds opened base md w \<longleftrightarrow> (case md of None \<Rightarrow> opened w = base | Some m \<Rightarrow> call_fds opened base (m, w))"

lemma app_fds_world: "opened w' = opened w \<Longrightarrow> app_fds opened base md w' = app_fds opened base md w"
  by (simp add: app_fds_def call_fds_def others_def split: option.split)

lemma app_respond_opened:
  "fd_laws os opened \<Longrightarrow> app_respond os s dest rs w = (r, w') \<Longrightarrow> opened w' = opened w"
proof (induction rs arbitrary: w)
  case (Cons resp rs)
  obtain q v where q: "udp_sendTo os s (text_bytes (serialize resp)) dest w = (q, v)" by fastforce
  then have "opened v = opened w" using udp_world_opened(2) [OF Cons.prems(1)] by (metis snd_conv)
  then show ?case using Cons q by (cases q) auto
qed simp

lemma app_destroy_fds:
  "fd_laws os opened \<Longrightarrow> app_fds opened base md w \<Longrightarrow> opened (app_destroy_media os md w) = base"
  by (auto simp: app_destroy_media_def app_fds_def media_destroy_opened split: option.splits)

lemma app_start_media_fds:
  assumes "fd_laws os opened" "app_fds opened base old w" "app_start_media os c res old w = (Inr m, w')"
  shows "call_fds opened base (m, w')"
proof -
  obtain m0 w1 where n: "media_new os (ac_ip c) (ac_rtpPort c) (ac_wsUrl c) w = (Inr m0, w1)"
    using assms(3) by (auto simp: app_start_media_def split: sum.splits prod.splits)
  let ?w = "app_destroy_media os old w1" and ?fd = "us_fd (ms_sock m0)"
  have s: "media_start os m0 (remoteRtp res) (res_payloadType res) (res_dtmfPayloadType res) ?w = (m, w')"
    using assms(3) n by (auto simp: app_start_media_def Let_def split: prod.splits)
  have f: "call_fds opened (opened w) (m0, w1)" "own_fd (ms_ws m0) = {}"
    using media_new_opened [OF assms(1) n] by simp_all
  then have o: "opened w1 = insert ?fd (opened w)" "?fd \<notin> opened w"
    by (simp_all add: call_fds_def others_def Let_def)
  have "app_fds opened (insert ?fd base) old w1 \<and> ?fd \<notin> base"
  proof (cases old)
    case None
    then show ?thesis using assms(2) o by (simp add: app_fds_def)
  next
    case (Some m1)
    then show ?thesis using assms(2) o by (auto simp: app_fds_def call_fds_def others_def Let_def)
  qed
  then have "call_fds opened base (m0, ?w)"
    using app_destroy_fds [OF assms(1), of "insert ?fd base" old w1] f by (simp add: call_fds_def others_def Let_def)
  from media_start_fds [OF assms(1) f(2) this s] show ?thesis .
qed

lemma app_request_fds:
  assumes "fd_laws os opened" "app_fds opened base (ap_media a) w" "app_request os rnd a src req w = (Inr a', w')"
  shows "app_fds opened base (ap_media a') w'"
proof -
  obtain u res where u: "uas_handle rnd (ap_uas a) req = (u, res)" by fastforce
  obtain w1 where r: "app_respond os (ap_sock a) src (responses res) w = (Inr (), w1)"
    using assms(3) u by (auto simp: app_request_def Let_def split: sum.splits prod.splits)
  have f: "app_fds opened base (ap_media a) w1"
    using app_fds_world [of opened w1 w base] app_respond_opened [OF assms(1) r] assms(2) by blast
  show ?thesis
  proof (cases "media res")
    case MediaStart
    obtain m w2 where m: "app_start_media os (ap_cfg a) res (ap_media a) w1 = (Inr m, w2)" "a' = a\<lparr>ap_uas := u, ap_media := Some m\<rparr>" "w' = w2"
      using assms(3) u r MediaStart by (auto simp: app_request_def split: sum.splits prod.splits)
    then show ?thesis using app_start_media_fds [OF assms(1) f m(1)] by (simp add: app_fds_def)
  next
    case MediaStop
    then show ?thesis using assms(3) u r app_destroy_fds [OF assms(1) f]
      by (auto simp: app_request_def app_fds_def)
  next
    case MediaNone
    then show ?thesis using assms(3) u r f by (auto simp: app_request_def)
  qed
qed

lemma app_step_fds:
  assumes "fd_laws os opened" "app_fds opened base (ap_media a) w" "app_step os rnd a w t = ((Inr a', w'), evs)"
  shows "app_fds opened base (ap_media a') w'"
proof (cases t)
  case Poll
  then have p: "app_poll os rnd a w = ((Inr a', w'), evs)" using assms(3) by (simp add: app_step_def)
  have recv: "udp_recvFrom os (ap_sock a) 200 w = (r, v) \<Longrightarrow> app_fds opened base (ap_media a) v" for r v
    using app_fds_world [of opened v w base] udp_world_opened(4) [OF assms(1), of "ap_sock a" 200 w] assms(2) by simp
  show ?thesis
  proof (cases rule: app_poll_elim [OF p])
    case (1 dg)
    then show ?thesis using recv [OF 1(1)] app_stats_same [OF 1(2)] by simp
  next
    case (2 dg v req a1 st)
    then show ?thesis using app_request_fds [OF assms(1) recv [OF 2(1)] 2(3)] app_stats_same [OF 2(4)] by simp
  qed
next
  case (Thread mt)
  then show ?thesis using assms(2,3) call_fds_same [OF media_turn_fds [OF assms(1)]]
    by (auto simp: app_step_def app_fds_def split: option.splits prod.splits) (metis fst_conv)
qed

lemma app_run_fds:
  assumes "fd_laws os opened" "app_fds opened base (ap_media a) w" "app_run os rnd a w ts = ((Inr a', w'), evs)"
  shows "app_fds opened base (ap_media a') w'"
  using assms(2,3)
proof (induction ts arbitrary: a w evs)
  case (Cons t ts)
  show ?case by (rule app_run_step [OF Cons.prems(2)]) (use Cons app_step_fds [OF assms(1)] in blast)
qed simp

lemma app_start_fds:
  assumes "fd_laws os opened" "app_start os c w = (Inr a, w')"
  shows "app_fds opened (insert (us_fd (ap_sock a)) (opened w)) (ap_media a) w'" "us_fd (ap_sock a) \<notin> opened w"
    "us_fd (ap_sock a) \<noteq> kInvalidFd"
proof -
  obtain s v where s: "udp_new os w = (Inr s, v)"
    using assms(2) by (auto simp: app_start_def split: sum.splits prod.splits)
  obtain fd v' where o: "os_socket os SockDgram w = (fd, v')" by fastforce
  have v: "us_fd s = fd" "fd \<noteq> kInvalidFd" "opened v = insert fd (opened w)" "fd \<notin> opened w"
    using s o fd_law_socket [OF assms(1) o] by (auto simp: udp_new_def split: if_splits)
  obtain s' where b: "udp_bind os s (ac_ip c) (ac_sipPort c) v = (Inr (), s', w')" "ap_sock a = s'" "ap_media a = None"
    using assms(2) s by (auto simp: app_start_def split: sum.splits prod.splits)
  have "us_fd s' = fd" "opened w' = insert fd (opened w)"
    using udp_bind_fd [OF b(1)] udp_world_opened(1) [OF assms(1) b(1)] v by simp_all
  then show "app_fds opened (insert (us_fd (ap_sock a)) (opened w)) (ap_media a) w'" "us_fd (ap_sock a) \<notin> opened w"
    "us_fd (ap_sock a) \<noteq> kInvalidFd" using b v by (simp_all add: app_fds_def)
qed

section \<open>The session's address\<close>

definition app_holds :: "'w net_os \<Rightarrow> ('w \<Rightarrow> (int \<times> sockaddr) set) \<Rightarrow> app_config \<Rightarrow> media_session option \<Rightarrow> 'w \<Rightarrow> bool" where
  "app_holds os bound c md w \<longleftrightarrow> (\<forall>m. md = Some m \<longrightarrow>
    (\<exists>a. bind_addr os (ac_ip c) (ac_rtpPort c) = Some a \<and> holds bound a (m, w)))"

lemma app_respond_kept:
  "port_laws os bound \<Longrightarrow> b \<in> bound w \<Longrightarrow> app_respond os s dest rs w = (r, w') \<Longrightarrow> b \<in> bound w'"
proof (induction rs arbitrary: w)
  case (Cons resp rs)
  obtain q v where q: "udp_sendTo os s (text_bytes (serialize resp)) dest w = (q, v)" by fastforce
  from Cons.IH [OF Cons.prems(1) udp_kept(1) [OF Cons.prems(1,2) q]] show ?case
    using Cons.prems(3) q udp_kept(1) [OF Cons.prems(1,2) q] by (cases q) auto
qed simp

text \<open>With the address held by a running session, there is no second one.\<close>

lemma app_start_media_taken:
  assumes "port_laws os bound" "app_holds os bound c old w" "old \<noteq> None"
  shows "\<exists>e w'. app_start_media os c res old w = (Inl e, w')"
proof (cases "media_new os (ac_ip c) (ac_rtpPort c) (ac_wsUrl c) w")
  case (Pair r v)
  show ?thesis
  proof (cases r)
    case (Inr m)
    obtain a where a: "bind_addr os (ac_ip c) (ac_rtpPort c) = Some a" "a \<notin> snd ` bound w"
      using media_new_bound [OF assms(1) Pair [unfolded Inr]] by blast
    then show ?thesis using assms(2,3) by (force simp: app_holds_def holds_def)
  qed (simp add: app_start_media_def Pair)
qed

lemma app_request_holds:
  assumes "port_laws os bound" "fd_laws os opened" "ac_rtpPort (ap_cfg a) \<noteq> 0"
    and "app_holds os bound (ap_cfg a) (ap_media a) w" "app_fds opened base (ap_media a) w"
    and "app_request os rnd a src req w = (Inr a', w')"
  shows "app_holds os bound (ap_cfg a) (ap_media a') w'"
proof -
  obtain u res where u: "uas_handle rnd (ap_uas a) req = (u, res)" by fastforce
  obtain w1 where r: "app_respond os (ap_sock a) src (responses res) w = (Inr (), w1)"
    using assms(6) u by (auto simp: app_request_def Let_def split: sum.splits prod.splits)
  have h: "app_holds os bound (ap_cfg a) (ap_media a) w1"
    using assms(4) app_respond_kept [OF assms(1) _ r] by (auto simp: app_holds_def holds_def)
  show ?thesis
  proof (cases "media res")
    case MediaStart
    obtain m w2 where m: "app_start_media os (ap_cfg a) res (ap_media a) w1 = (Inr m, w2)" "a' = a\<lparr>ap_uas := u, ap_media := Some m\<rparr>" "w' = w2"
      using assms(6) u r MediaStart by (auto simp: app_request_def split: sum.splits prod.splits)
    have "ap_media a = None" using app_start_media_taken [OF assms(1) h, of res] m(1) by (metis Inl_Inr_False prod.inject)
    then obtain m0 v where n: "media_new os (ac_ip (ap_cfg a)) (ac_rtpPort (ap_cfg a)) (ac_wsUrl (ap_cfg a)) w1 = (Inr m0, v)"
      "media_start os m0 (remoteRtp res) (res_payloadType res) (res_dtmfPayloadType res) v = (m, w2)"
      using m(1) by (auto simp: app_start_media_def app_destroy_media_def Let_def split: sum.splits prod.splits)
    obtain b where "bind_addr os (ac_ip (ap_cfg a)) (ac_rtpPort (ap_cfg a)) = Some b" "holds bound b (m0, v)"
      using media_new_bound [OF assms(1) n(1)] assms(3) by blast
    moreover have "own_fd (ms_ws m0) = {}" "us_fd (ms_sock m0) \<in> opened v"
      using media_new_opened [OF assms(2) n(1)] call_fds_sock [of opened "opened w1" m0 v] by simp_all
    ultimately show ?thesis using media_start_holds [OF assms(1,2) _ _ _ n(2)] m
      by (auto simp: app_holds_def)
  qed (use assms(6) u r h in \<open>auto simp: app_request_def app_holds_def\<close>)
qed

lemma app_step_holds:
  assumes "port_laws os bound" "fd_laws os opened" "ac_rtpPort (ap_cfg a) \<noteq> 0"
    and "app_holds os bound (ap_cfg a) (ap_media a) w" "app_fds opened base (ap_media a) w"
    and "app_step os rnd a w t = ((Inr a', w'), evs)"
  shows "app_holds os bound (ap_cfg a) (ap_media a') w'"
proof (cases t)
  case Poll
  then have p: "app_poll os rnd a w = ((Inr a', w'), evs)" using assms(6) by (simp add: app_step_def)
  have recv: "udp_recvFrom os (ap_sock a) 200 w = (r, v) \<Longrightarrow>
      app_fds opened base (ap_media a) v \<and> app_holds os bound (ap_cfg a) (ap_media a) v" for r v
    using app_fds_world [of opened v w base] udp_world_opened(4) [OF assms(2), of "ap_sock a" 200 w] assms(4,5)
      udp_kept(2) [OF assms(1)] by (auto simp: app_holds_def holds_def)
  show ?thesis
  proof (cases rule: app_poll_elim [OF p])
    case (1 dg)
    then show ?thesis using recv [OF 1(1)] app_stats_same [OF 1(2)] by simp
  next
    case (2 dg v req a1 st)
    note r = recv [OF 2(1)]
    show ?thesis using app_request_holds [OF assms(1-3) conjunct2 [OF r] conjunct1 [OF r] 2(3)] app_stats_same [OF 2(4)] by simp
  qed
next
  case (Thread mt)
  show ?thesis
  proof (cases "ap_media a")
    case None
    then show ?thesis using assms(6) Thread by (simp add: app_step_def app_holds_def)
  next
    case (Some m)
    then obtain m' w'' es where t: "media_turn_of os (m, w) mt = ((m', w''), es)" by (metis surj_pair)
    have "us_fd (ms_sock m) \<notin> own_fd (ms_ws m)" using assms(5) Some call_fds_sock [of opened base m w] by (simp add: app_fds_def)
    then show ?thesis using media_turn_holds [OF assms(1), of _ m w mt] assms(4,6) Some Thread t
      by (auto simp: app_step_def app_holds_def)
  qed
qed

lemma app_run_holds:
  assumes "port_laws os bound" "fd_laws os opened" "ac_rtpPort (ap_cfg a) \<noteq> 0" "app_live a"
    and "app_holds os bound (ap_cfg a) (ap_media a) w" "app_fds opened base (ap_media a) w"
    and "app_run os rnd a w ts = ((Inr a', w'), evs)"
  shows "app_holds os bound (ap_cfg a') (ap_media a') w'"
  using assms(3-)
proof (induction ts arbitrary: a w evs)
  case (Cons t ts)
  show ?case
  proof (rule app_run_step [OF Cons.prems(5)])
    fix a1 w1 e1 e2
    assume s: "app_step os rnd a w t = ((Inr a1, w1), e1)" "app_run os rnd a1 w1 ts = ((Inr a', w'), e2)" "evs = e1 @ e2"
    note A = app_step_abs [OF s(1) Cons.prems(2)]
    show ?thesis using Cons.IH [OF _ _ _ _ s(2)] Cons.prems A
        app_step_holds [OF assms(1,2) Cons.prems(1,3,4) s(1)] app_step_fds [OF assms(2) Cons.prems(4) s(1)] by simp
  qed
qed simp

section \<open>Options and datagrams\<close>

datatype app_option = OIp string | OSipPort int | ORtpPort int | OWsUrl string

fun option_args :: "app_option \<Rightarrow> string list" where
  "option_args (OIp s) = [''--ip'', s]"
| "option_args (OSipPort i) = [''--sip-port'', to_string i]"
| "option_args (ORtpPort i) = [''--rtp-port'', to_string i]"
| "option_args (OWsUrl s) = [''--ws-url'', s]"

fun option_set :: "app_config \<Rightarrow> app_option \<Rightarrow> app_config" where
  "option_set c (OIp s) = c\<lparr>ac_ip := s\<rparr>"
| "option_set c (OSipPort i) = c\<lparr>ac_sipPort := word_of_int i\<rparr>"
| "option_set c (ORtpPort i) = c\<lparr>ac_rtpPort := word_of_int i\<rparr>"
| "option_set c (OWsUrl s) = c\<lparr>ac_wsUrl := s\<rparr>"

fun option_fits :: "app_option \<Rightarrow> bool" where
  "option_fits (OSipPort i) = (- (2 ^ 31) \<le> i \<and> i < 2 ^ 31)"
| "option_fits (ORtpPort i) = (- (2 ^ 31) \<le> i \<and> i < 2 ^ 31)"
| "option_fits _ = True"

lemma app_args_option:
  "option_fits opt \<Longrightarrow> app_args c (option_args opt @ args) = app_args (option_set c opt) args"
  by (cases opt) (simp_all add: arg_next_def stoi_to_string)

lemma bytes_text_inverse [simp]: "bytes_text (text_bytes s) = s"
proof -
  have "unat (of_char c :: u8) = of_char c" for c
  proof -
    have "unat (of_nat (of_char c) :: u8) = of_char c" by (simp add: unat_of_nat del: of_nat_of_char)
    then show ?thesis by (simp only: of_nat_of_char)
  qed
  then have "char_of (unat (of_char c :: u8)) = c" for c by simp
  then show ?thesis by (induction s) (simp_all add: bytes_text_def text_bytes_def)
qed

lemma app_respond_out:
  assumes "udp_laws os out"
  shows "app_respond os s dest rs w = (Inr (), w') \<Longrightarrow> \<exists>ds. out w' = out w @ ds
    \<and> list_all2 (\<lambda>resp (fd, d, to). fd = us_fd s \<and> d = text_bytes (serialize resp)
        \<and> os_pton os (ep_ip dest) = Some (sa_addr to) \<and> sa_port to = ep_port dest) rs ds"
proof (induction rs arbitrary: w)
  case (Cons resp rs)
  obtain q v where q: "udp_sendTo os s (text_bytes (serialize resp)) dest w = (q, v)" by fastforce
  with Cons.prems obtain n where n: "q = Inr n" by (cases q) auto
  then obtain ds where ds: "out w' = out v @ ds" "list_all2 (\<lambda>resp (fd, d, to). fd = us_fd s \<and> d = text_bytes (serialize resp)
        \<and> os_pton os (ep_ip dest) = Some (sa_addr to) \<and> sa_port to = ep_port dest) rs ds"
    using Cons q by auto
  obtain a where "os_pton os (ep_ip dest) = Some a"
    "out v = out w @ [(us_fd s, text_bytes (serialize resp), \<lparr>sa_addr = a, sa_port = ep_port dest\<rparr>)]"
    using udp_send_facts [OF assms q] n by auto
  then show ?case using ds
    by (intro exI [of _ "(us_fd s, text_bytes (serialize resp), \<lparr>sa_addr = a, sa_port = ep_port dest\<rparr>) # ds"]) simp
qed simp


section \<open>Properties\<close>

lemma app_start_run:
  assumes "app_start os c w0 = (Inr a0, w1)" "app_run os rnd a0 w1 ts = ((Inr a, w), evs)"
  shows "app_abs a = agent_run rnd (app_uas_config c) (handled evs)" "app_live a" "ap_cfg a = c"
    "ap_uas a = uas_run rnd (app_uas_config c) (handled evs)" "list_all headers_ok (handled evs)" "ap_sock a = ap_sock a0"
proof -
  note s = app_start_abs [OF assms(1)]
  show r: "app_abs a = agent_run rnd (app_uas_config c) (handled evs)"
    using app_run_abs [OF assms(2) s(2)] by (simp add: agent_run_def s(1))
  show "app_live a" "ap_cfg a = c" "list_all headers_ok (handled evs)" "ap_sock a = ap_sock a0"
    using app_run_abs [OF assms(2) s(2)] s by simp_all
  show "ap_uas a = uas_run rnd (app_uas_config c) (handled evs)"
    using arg_cong [OF r, of fst] by (simp add: app_abs_def agent_run_uas)
qed

text \<open>C2. The program refines its signaling agent: whatever the operating system delivers and however the threads
interleave, as long as no exception ends it, the agent's state is that of the agent run on the requests
handled, in order, and the media session is the one that agent asked for last (none, or one that runs
with the payload and telephone-event type of its answer); in particular a dialog always has running media.\<close>

theorem app_refines_agent:
  assumes "app_start os c w0 = (Inr a0, w1)" "app_run os rnd a0 w1 ts = ((Inr a, w), evs)"
  shows "(ap_uas a, map_option session_params (ap_media a)) = agent_run rnd (app_uas_config c) (handled evs)
    \<and> (haveDialog (ap_uas a) \<longrightarrow> (\<exists>m. ap_media a = Some m \<and> ms_active m))"
proof -
  note r = app_start_run [OF assms]
  have "haveDialog (ap_uas a) \<longrightarrow> ap_media a \<noteq> None"
    using agent_dialog [of rnd "app_uas_config c" "handled evs"] r(1) by (auto simp: app_abs_def simp flip: r(1))
  then show ?thesis using r(1,2) by (auto simp: app_abs_def app_live_def)
qed


text \<open>C17. A second session ends the program: while a session exists, a request that makes the agent start media (a
re-INVITE of the call with a new sequence number, or a new call after a failed re-INVITE) ends the loop with
an uncaught exception, because the new session binds the RTP port before the old one is destroyed.\<close>

theorem app_second_session_fatal:
  assumes "port_laws os bound" "fd_laws os opened" "ac_rtpPort c \<noteq> 0"
    and "app_start os c w0 = (Inr a0, w1)" "app_run os rnd a0 w1 ts = ((Inr a, w), evs)" "ap_media a \<noteq> None"
    and "udp_recvFrom os (ap_sock a) 200 w = (Inr (Some dg), v)" "app_message (dg_data dg) = Some req"
    and "media (snd (uas_handle rnd (ap_uas a) req)) = MediaStart"
  shows "\<exists>e w'. app_poll os rnd a w = ((Inl e, w'), [Handled req])"
proof -
  note s = app_start_abs [OF assms(4)] and f = app_start_fds [OF assms(2,4)]
  have h: "app_holds os bound (ap_cfg a) (ap_media a) w"
    by (rule app_run_holds [OF assms(1,2) _ s(2) _ f(1) assms(5)]) (use assms(3) s in \<open>simp_all add: app_holds_def\<close>)
  obtain u res where u: "uas_handle rnd (ap_uas a) req = (u, res)" by fastforce
  obtain q v1 where q: "app_respond os (ap_sock a) (dg_from dg) (responses res) v = (q, v1)" by fastforce
  have "\<exists>e w'. app_request os rnd a (dg_from dg) req v = (Inl e, w')"
  proof (cases q)
    case (Inr x)
    then have q1: "app_respond os (ap_sock a) (dg_from dg) (responses res) v = (Inr (), v1)" using q by simp
    have "app_holds os bound (ap_cfg a) (ap_media a) v1"
      using h udp_kept(2) [OF assms(1) _ assms(7)] app_respond_kept [OF assms(1) _ q1] by (auto simp: app_holds_def holds_def)
    from app_start_media_taken [OF assms(1) this assms(6), of res]
    show ?thesis using u q1 assms(9) by (auto simp: app_request_def)
  qed (use u q in \<open>simp add: app_request_def\<close>)
  then show ?thesis using assms(7,8) by (auto simp: app_poll_def)
qed


text \<open>C25. The program leaks no descriptor: when \<open>main\<close> returns, whatever it received and however its threads
interleaved, exactly the descriptors that were open before it are open.\<close>

theorem app_no_leak:
  assumes "fd_laws os opened" "app_main os rnd args ts w0 = (Inr (), w)"
  shows "opened w = opened w0"
proof -
  obtain c where c: "app_parseArgs args = Inr c" using assms(2) by (auto simp: app_main_def split: sum.splits)
  obtain a0 w1 where s: "app_start os c w0 = (Inr a0, w1)"
    using assms(2) c by (auto simp: app_main_def split: sum.splits prod.splits)
  obtain a w2 evs where r: "app_run os rnd a0 w1 ts = ((Inr a, w2), evs)" "w = app_finish os a w2"
    using assms(2) c s by (cases "app_run os rnd a0 w1 ts") (auto simp: app_main_def split: sum.splits prod.splits)
  note f = app_start_fds [OF assms(1) s]
  have "app_fds opened (insert (us_fd (ap_sock a0)) (opened w0)) (ap_media a) w2"
    by (rule app_run_fds [OF assms(1) f(1) r(1)])
  then have "opened (app_destroy_media os (ap_media a) w2) = insert (us_fd (ap_sock a0)) (opened w0)"
    by (rule app_destroy_fds [OF assms(1)])
  moreover have "ap_sock a = ap_sock a0" by (rule app_start_run(6) [OF s r(1)])
  ultimately show ?thesis
    using f(2,3) udp_closeSocket_facts(2) [OF prod.collapse [symmetric] assms(1), of "ap_sock a" "app_destroy_media os (ap_media a) w2"]
    by (simp add: r(2) app_finish_def udp_destroy_def)
qed

text \<open>The command line is read as it is written: for any list of options with numbers that fit an \<open>int\<close>, the
configuration is the default with those options set, in order, so that a later one wins; a port is taken modulo
2 to the 16.\<close>

theorem app_parseArgs_options:
  assumes "list_all option_fits opts"
  shows "app_parseArgs (concat (map option_args opts)) = Inr (foldl option_set app_config_init opts)"
proof -
  have "list_all option_fits opts \<Longrightarrow> app_args c (concat (map option_args opts)) = Inr (foldl option_set c opts)" for c
    by (induction opts arbitrary: c) (simp_all add: app_args_option)
  with assms show ?thesis by (simp add: app_parseArgs_def)
qed

theorem app_parseArgs_options_witness:
  "app_parseArgs [''--rtp-port'', ''70000'', ''--ip'', ''10.0.0.1'', ''--rtp-port'', ''40010'']
    = Inr (app_config_init\<lparr>ac_ip := ''10.0.0.1'', ac_rtpPort := 40010\<rparr>)"
proof -
  have "to_string 70000 = ''70000''" "to_string 40010 = ''40010''"
    by (simp_all add: to_string_def to_dec.simps digit_char_def char_of_def bit_0)
  then show ?thesis using app_parseArgs_options [of "[ORtpPort 70000, OIp ''10.0.0.1'', ORtpPort 40010]"]
    by (simp add: app_config_init_def)
qed

section \<open>Witnesses\<close>

text \<open>The program without a gateway, and datagrams from one phone, each a serialised message.\<close>

definition demo_cfg :: app_config where
  "demo_cfg = app_config_init\<lparr>ac_wsUrl := []\<rparr>"

definition demo_phone :: "sip_message list \<Rightarrow> demo_world" where
  "demo_phone ms = demo_world_init\<lparr>dw_rx := map (\<lambda>m. (text_bytes (serialize m), \<lparr>sa_addr = 0, sa_port = 5070\<rparr>)) ms\<rparr>"

definition demo_ready :: "sip_message list \<Rightarrow> demo_world" where
  "demo_ready ms = (demo_phone ms)\<lparr>dw_next := 4, dw_open := [3], dw_bound := [(3, \<lparr>sa_addr = 0x7F000001, sa_port = 5060\<rparr>)]\<rparr>"

definition demo_app :: app where
  "demo_app = \<lparr>ap_cfg = demo_cfg, ap_sock = \<lparr>us_fd = 3, us_localPort = 5060\<rparr>, ap_uas = uas_new (app_uas_config demo_cfg),
     ap_media = None, ap_lastStats = 0\<rparr>"

lemma demo_app_start: "app_start demo_os demo_cfg (demo_phone ms) = (Inr demo_app, demo_ready ms)"
  by (simp add: app_start_def udp_new_def udp_bind_def demo_os_def demo_phone_def demo_ready_def demo_world_init_def
      demo_cfg_def app_config_init_def demo_app_def app_uas_config_def kInvalidFd_def Let_def)

definition demo_first :: sip_message where
  "demo_first = demo_invite ''c1'' ''1 INVITE'' demo_offer"

definition demo_again :: sip_message where
  "demo_again = demo_invite ''c1'' ''2 INVITE'' demo_offer"

definition demo_bad :: sip_message where
  "demo_bad = demo_invite ''c1'' ''2 INVITE'' []"

lemmas demo_messages = demo_first_def demo_again_def demo_bad_def

text \<open>A message that fits a datagram.\<close>

definition sendable :: "sip_message \<Rightarrow> bool" where
  "sendable m \<longleftrightarrow> sip_wf m \<and> isRequest m \<and> length (serialize m) \<le> 2048"

lemma demo_sendable: "sendable demo_first" "sendable demo_again" "sendable demo_bad"
proof -
  have wf: "sip_wf demo_first" "sip_wf demo_again" "sip_wf demo_bad"
    by (simp_all add: demo_messages sip_wf_def start_ok_def version_ok_def header_ok_def demo_invite_def demo_offer_def
        sip_message_init_def starts_with_def trimmed_def is_ws_def long_max_def)
  have "length (serialize demo_first) \<le> 2048" "length (serialize demo_again) \<le> 2048" "length (serialize demo_bad) \<le> 2048"
    by (simp_all add: demo_messages demo_invite_def demo_offer_def sip_message_init_def serialize_def start_line_def CRLF_def
        header_line_def iequals_def lower_def to_string_def to_dec.simps)
  with wf show "sendable demo_first" "sendable demo_again" "sendable demo_bad"
    by (simp_all add: sendable_def demo_messages demo_fields)
qed

text \<open>What the loop reads and hands on.\<close>

definition demo_datagram :: "sip_message \<Rightarrow> datagram" where
  "demo_datagram m = \<lparr>dg_data = text_bytes (serialize m), dg_from = \<lparr>ep_ip = ''127.0.0.1'', ep_port = 5070\<rparr>\<rparr>"

lemma demo_recv:
  assumes "sendable m" "dw_rx w = dw_rx (demo_phone (m # ms))"
  shows "udp_recvFrom demo_os s 200 w = (Inr (Some (demo_datagram m)), w\<lparr>dw_rx := dw_rx (demo_phone ms)\<rparr>)"
    "app_message (dg_data (demo_datagram m)) = Some (sip_norm m)"
proof -
  have "length (text_bytes (serialize m)) \<le> 2048" using assms(1) by (simp add: sendable_def text_bytes_def)
  then show "udp_recvFrom demo_os s 200 w = (Inr (Some (demo_datagram m)), w\<lparr>dw_rx := dw_rx (demo_phone ms)\<rparr>)"
    using assms(2) by (simp add: udp_recvFrom_def udp_read_def demo_os_def demo_phone_def udp_recv_buffer_def demo_datagram_def)
  show "app_message (dg_data (demo_datagram m)) = Some (sip_norm m)"
    using assms(1) sip_roundtrip [of m]
    by (simp add: sendable_def app_message_def demo_datagram_def sip_norm_def norm_start_def)
qed

lemma demo_norm:
  "sip_get (sip_norm (demo_invite cid cs b)) ''Call-ID'' = Some (trim cid)" "sip_get (sip_norm (demo_invite cid cs b)) ''CSeq'' = Some (trim cs)"
  "isRequest (sip_norm (demo_invite cid cs b))" "sip_method (sip_norm (demo_invite cid cs b)) = ''INVITE''"
  "sip_body (sip_norm (demo_invite cid cs b)) = b"
  by (simp_all add: sip_norm_def norm_start_def norm_headers_def is_cl_def demo_invite_def sip_message_init_def sip_get_def
      iequals_def lower_def)

lemma demo_respond: "\<exists>tx. app_respond demo_os s dest rs w = (Inr (), w\<lparr>dw_tx := tx\<rparr>)"
proof (induction rs arbitrary: w)
  case (Cons resp rs)
  obtain a where "udp_sendTo demo_os s (text_bytes (serialize resp)) dest w
      = (Inr a, w\<lparr>dw_tx := dw_tx w @ [(us_fd s, text_bytes (serialize resp), \<lparr>sa_addr = 0x7F000001, sa_port = ep_port dest\<rparr>)]\<rparr>)"
    by (simp add: udp_sendTo_def demo_os_def)
  then show ?case using Cons [of "w\<lparr>dw_tx := dw_tx w @ [(us_fd s, text_bytes (serialize resp), \<lparr>sa_addr = 0x7F000001, sa_port = ep_port dest\<rparr>)]\<rparr>"]
    by simp
next
  case Nil
  show ?case by (rule exI [of _ "dw_tx w"]) simp
qed

text \<open>After the first INVITE the call is up.\<close>

lemma demo_call_up: "\<exists>a w m. app_run demo_os demo_rnd demo_app (demo_ready (demo_first # ms)) [Poll] = ((Inr a, w), [Handled (sip_norm demo_first)])
    \<and> haveDialog (ap_uas a) \<and> uas_callId (ap_uas a) = ''c1'' \<and> inviteCSeq (ap_uas a) = 1 \<and> ap_media a = Some m
    \<and> dw_rx w = dw_rx (demo_phone ms)"
proof -
  let ?w = "(demo_ready (demo_first # ms))\<lparr>dw_rx := dw_rx (demo_phone ms)\<rparr>"
  have rx: "dw_rx (demo_ready (demo_first # ms)) = dw_rx (demo_phone (demo_first # ms))" by (simp add: demo_ready_def)
  note recv = demo_recv(1) [OF demo_sendable(1) rx, of "ap_sock demo_app"] demo_recv(2) [OF demo_sendable(1) rx]
  let ?u = "uas_new (app_uas_config demo_cfg)"
  obtain u res where h: "uas_handle demo_rnd ?u (sip_norm demo_first) = (u, res)" by fastforce
  have fresh: "\<not> haveDialog ?u" by (simp add: uas_new_def)
  have new: "handle_new_call demo_rnd ?u (sip_norm demo_first) ''c1'' (cseq_number ''1 INVITE'') = (u, res)"
    using h handle_invite_fresh [OF demo_norm(3,4,1,2) fresh, of demo_rnd "''c1''" "''1 INVITE''" demo_offer]
    by (simp add: demo_first_def trim_trimmed trimmed_def is_ws_def)
  have one: "cseq_number ''1 INVITE'' = 1" by code_simp
  have "media res = MediaStart \<and> haveDialog u \<and> uas_callId u = ''c1'' \<and> inviteCSeq u = 1"
    by (rule new_call_elim [OF new]) (use demo_offer_parses one in \<open>auto simp: demo_first_def demo_norm\<close>)
  then have up: "media res = MediaStart" "haveDialog u" "uas_callId u = ''c1''" "inviteCSeq u = 1" by simp_all
  obtain tx where tx: "app_respond demo_os (ap_sock demo_app) (dg_from (demo_datagram demo_first)) (responses res) ?w = (Inr (), ?w\<lparr>dw_tx := tx\<rparr>)"
    using demo_respond by blast
  obtain m0 v where n: "media_new demo_os (ac_ip demo_cfg) (ac_rtpPort demo_cfg) [] (?w\<lparr>dw_tx := tx\<rparr>) = (Inr m0, v)"
      "dw_rx v = dw_rx (demo_phone ms)" "ms_wsUrl m0 = []"
    by (simp add: media_new_def udp_new_def udp_bind_def demo_os_def kInvalidFd_def demo_ready_def demo_phone_def
        demo_world_init_def demo_cfg_def app_config_init_def Let_def media_init_def)
  obtain m where m: "app_start_media demo_os demo_cfg res None (?w\<lparr>dw_tx := tx\<rparr>) = (Inr m, v)"
    using n by (simp add: app_start_media_def app_destroy_media_def media_start_def Let_def demo_cfg_def)
  have cfg: "ap_cfg demo_app = demo_cfg" "ap_media demo_app = None" "ap_uas demo_app = ?u" "ap_lastStats demo_app = 0"
    by (simp_all add: demo_app_def)
  have r: "app_request demo_os demo_rnd demo_app (dg_from (demo_datagram demo_first)) (sip_norm demo_first) ?w
      = (Inr (demo_app\<lparr>ap_uas := u, ap_media := Some m\<rparr>), v)"
    using h tx m up(1) by (simp add: app_request_def cfg)
  show ?thesis
    using recv r up n(2) by (simp add: app_step_def app_poll_def app_stats_def cfg demo_os_def)
qed


text \<open>A re-INVITE starts media again, or is refused for its body.\<close>

lemma demo_reinvite:
  assumes "haveDialog u" "uas_callId u = ''c1''" "inviteCSeq u = 1"
  shows "media (snd (uas_handle demo_rnd u (sip_norm demo_again))) = MediaStart"
    "cseq_number ''2 INVITE'' \<noteq> inviteCSeq u"
proof -
  have two: "cseq_number ''2 INVITE'' = 2" by code_simp
  then show "cseq_number ''2 INVITE'' \<noteq> inviteCSeq u" using assms by simp
  obtain v r where h: "uas_handle demo_rnd u (sip_norm demo_again) = (v, r)" by fastforce
  then have new: "handle_new_call demo_rnd u (sip_norm demo_again) ''c1'' 2 = (v, r)"
    using assms two by (simp add: uas_handle_def handle_invite_def demo_norm demo_again_def trim_trimmed trimmed_def is_ws_def
        cseq_number_def Let_def)
  show "media (snd (uas_handle demo_rnd u (sip_norm demo_again))) = MediaStart" unfolding h
    by (rule new_call_elim [OF new]) (use demo_offer_parses in \<open>auto simp: demo_again_def demo_norm\<close>)
qed

lemma app_run_one: "app_run os rnd a w [t] = ((Inr a', w'), evs) \<Longrightarrow> app_step os rnd a w t = ((Inr a', w'), evs)"
  by (auto split: prod.splits sum.splits)

theorem app_refines_agent_witness:
  "\<exists>a w. app_run demo_os demo_rnd demo_app (demo_ready [demo_first]) [Poll] = ((Inr a, w), [Handled (sip_norm demo_first)])
    \<and> (ap_uas a, map_option session_params (ap_media a)) = agent_run demo_rnd (app_uas_config demo_cfg) [sip_norm demo_first]
    \<and> haveDialog (ap_uas a) \<and> (\<exists>m. ap_media a = Some m \<and> ms_active m)"
proof -
  obtain a w where r: "app_run demo_os demo_rnd demo_app (demo_ready [demo_first]) [Poll] = ((Inr a, w), [Handled (sip_norm demo_first)])"
    "haveDialog (ap_uas a)" using demo_call_up by blast
  show ?thesis using app_refines_agent [OF demo_app_start r(1)] r by auto
qed

theorem app_second_session_fatal_witness:
  "\<exists>e w. app_run demo_os demo_rnd demo_app (demo_ready [demo_first, demo_again]) [Poll, Poll]
    = ((Inl e, w), [Handled (sip_norm demo_first), Handled (sip_norm demo_again)])"
proof -
  obtain a w m where r: "app_run demo_os demo_rnd demo_app (demo_ready [demo_first, demo_again]) [Poll] = ((Inr a, w), [Handled (sip_norm demo_first)])"
    "haveDialog (ap_uas a)" "uas_callId (ap_uas a) = ''c1''" "inviteCSeq (ap_uas a) = 1" "ap_media a = Some m"
    "dw_rx w = dw_rx (demo_phone [demo_again])" using demo_call_up by blast
  have "ac_rtpPort demo_cfg \<noteq> 0" by (simp add: demo_cfg_def app_config_init_def)
  from app_second_session_fatal [OF demo_port_laws demo_fd_laws this demo_app_start r(1) _ demo_recv [OF demo_sendable(2) r(6)]
      demo_reinvite(1) [OF r(2-4)]]
  obtain e w' where "app_poll demo_os demo_rnd a w = ((Inl e, w'), [Handled (sip_norm demo_again)])" using r(5) by blast
  then show ?thesis using app_run_one [OF r(1)] by (auto simp: app_step_def [of demo_os demo_rnd a])
qed


theorem app_no_leak_witness:
  "\<exists>w. app_main demo_os demo_rnd [''--ws-url'', []] [Poll, Thread OutputTurn] (demo_phone [demo_first]) = (Inr (), w)
    \<and> set (dw_open w) \<inter> {0..<int (dw_next w)} = {}"
proof -
  have c: "app_parseArgs [''--ws-url'', []] = Inr demo_cfg"
    by (simp add: app_parseArgs_def arg_next_def demo_cfg_def)
  obtain a w where r: "app_run demo_os demo_rnd demo_app (demo_ready [demo_first]) [Poll] = ((Inr a, w), [Handled (sip_norm demo_first)])"
    using demo_call_up by blast
  then have p: "app_step demo_os demo_rnd demo_app (demo_ready [demo_first]) Poll = ((Inr a, w), [Handled (sip_norm demo_first)])"
    by (rule app_run_one)
  obtain a' w' es where "app_step demo_os demo_rnd a w (Thread OutputTurn) = ((Inr a', w'), es)"
    using that by (cases "ap_media a"; cases "media_turn_of demo_os (the (ap_media a), w) OutputTurn")
      (auto simp: app_step_def)
  then have "app_run demo_os demo_rnd demo_app (demo_ready [demo_first]) [Poll, Thread OutputTurn] = ((Inr a', w'), Handled (sip_norm demo_first) # es)"
    using p by simp
  then have m: "app_main demo_os demo_rnd [''--ws-url'', []] [Poll, Thread OutputTurn] (demo_phone [demo_first]) = (Inr (), app_finish demo_os a' w')"
    by (simp add: app_main_def c demo_app_start)
  show ?thesis using app_no_leak [OF demo_fd_laws m] m by (simp add: demo_phone_def demo_world_init_def)
qed


end
