(* ===== verification/Rtp_Sender.thy ===== *)
theory Rtp_Sender
  imports Cxx_Args G711 Rtp_Packet Udp_Socket
begin

text \<open>
  The test tool of src/src/tools/rtp_sender.cpp: a source of G.711 RTP packets with injected loss and
  reordering. The file read by \<open>--wav\<close> is a parameter (its bytes, or none when it cannot be opened), as
  are the operating system and what its random number generators draw: \<open>pct i\<close> is the \<open>i\<close>-th draw of the
  percentage, between 0 and 100. Pacing, the injected delays and what is printed are left out.

  The walk over the chunks of a WAVE file may not end, so it is a partial function: \<open>None\<close> is the value
  of a call that never returns.
\<close>

unbundle bit_operations_syntax

section \<open>The command line\<close>

record sender_args =
  sa_destIp :: string
  sa_destPort :: u16
  sa_seconds :: int
  sa_payloadType :: int
  sa_lossPct :: real
  sa_reorderPct :: real
  sa_maxDelayMs :: int
  sa_wavPath :: string

definition sender_args_init :: sender_args where
  "sender_args_init = \<lparr>sa_destIp = ''127.0.0.1'', sa_destPort = 40000, sa_seconds = 10, sa_payloadType = 0,
     sa_lossPct = 0, sa_reorderPct = 0, sa_maxDelayMs = 0, sa_wavPath = []\<rparr>"

definition parsePort :: "string \<Rightarrow> arg_exit + u16" where
  "parsePort s = map_sum id word_of_int (stoi s)"

fun sender_parse :: "sender_args \<Rightarrow> string list \<Rightarrow> arg_exit + sender_args" where
  "sender_parse a [] = Inr a"
| "sender_parse a (k # args) =
    (if k = ''--dest'' then
       (let v = arg_next args
        in case find_char (CHR '':'') v 0 of
             Some colon \<Rightarrow>
               (case parsePort (drop (colon + 1) v) of
                  Inl e \<Rightarrow> Inl e
                | Inr port \<Rightarrow> sender_parse (a\<lparr>sa_destIp := substr v 0 colon, sa_destPort := port\<rparr>) (drop 1 args))
           | None \<Rightarrow> sender_parse a (drop 1 args))
     else if k = ''--secs'' then
       (case stoi (arg_next args) of Inl e \<Rightarrow> Inl e | Inr v \<Rightarrow> sender_parse (a\<lparr>sa_seconds := v\<rparr>) (drop 1 args))
     else if k = ''--pt'' then
       (case stoi (arg_next args) of Inl e \<Rightarrow> Inl e | Inr v \<Rightarrow> sender_parse (a\<lparr>sa_payloadType := v\<rparr>) (drop 1 args))
     else if k = ''--loss'' then
       (case stod (arg_next args) of Inl e \<Rightarrow> Inl e | Inr v \<Rightarrow> sender_parse (a\<lparr>sa_lossPct := v\<rparr>) (drop 1 args))
     else if k = ''--reorder'' then
       (case stod (arg_next args) of Inl e \<Rightarrow> Inl e | Inr v \<Rightarrow> sender_parse (a\<lparr>sa_reorderPct := v\<rparr>) (drop 1 args))
     else if k = ''--delay'' then
       (case stoi (arg_next args) of Inl e \<Rightarrow> Inl e | Inr v \<Rightarrow> sender_parse (a\<lparr>sa_maxDelayMs := v\<rparr>) (drop 1 args))
     else if k = ''--wav'' then sender_parse (a\<lparr>sa_wavPath := arg_next args\<rparr>) (drop 1 args)
     else if k = ''--help'' \<or> k = ''-h'' then Inl Usage
     else sender_parse a args)"

section \<open>Samples\<close>

definition le16 :: "bytes \<Rightarrow> u16" where
  "le16 d = ucast (d ! 0) OR push_bit 8 (ucast (d ! 1))"

definition le32 :: "bytes \<Rightarrow> u32" where
  "le32 d = ucast (d ! 0) OR push_bit 8 (ucast (d ! 1)) OR push_bit 16 (ucast (d ! 2)) OR push_bit 24 (ucast (d ! 3))"

definition tag :: "string \<Rightarrow> bytes" where
  "tag s = map of_char s"

text \<open>Bytes copied into a vector of \<open>n\<close> samples.\<close>

definition pcm_of :: "bytes \<Rightarrow> nat \<Rightarrow> u16 list" where
  "pcm_of d n = map (\<lambda>i. le16 (drop (2 * i) d)) [0..<n]"

text \<open>\<open>8 + sz + (sz & 1)\<close> is computed in 32 bits before it is added to the position.\<close>

definition chunk_step :: "u32 \<Rightarrow> nat" where
  "chunk_step sz = unat (8 + sz + (sz AND 1))"

partial_function (option) wav_walk :: "bytes \<Rightarrow> nat \<Rightarrow> u16 list option" where
  "wav_walk buf pos =
    (if pos + 8 \<le> length buf then
       (let sz = le32 (drop (pos + 4) buf)
        in if take 4 (drop pos buf) = tag ''data'' then
             (let start = pos + 8; n = min (unat sz) (length buf - start)
              in Some (pcm_of (drop start buf) (n div 2)))
           else wav_walk buf (pos + chunk_step sz))
     else Some [])"

definition loadWavPcm16 :: "bytes option \<Rightarrow> u16 list option" where
  "loadWavPcm16 file =
    (case file of
       None \<Rightarrow> Some []
     | Some buf \<Rightarrow>
         if length buf < 44 \<or> take 4 buf \<noteq> tag ''RIFF'' \<or> take 4 (drop 8 buf) \<noteq> tag ''WAVE'' then Some []
         else wav_walk buf 12)"

text \<open>The conversion of a \<open>double\<close> to an integer drops the fraction.\<close>

definition trunc_int :: "real \<Rightarrow> int" where
  "trunc_int x = (if x < 0 then \<lceil>x\<rceil> else \<lfloor>x\<rfloor>)"

definition tone_sample :: "nat \<Rightarrow> u16" where
  "tone_sample i = word_of_int (trunc_int (8000 * sin (2 * pi * 440 * (real i / 8000))))"

text \<open>\<open>None\<close>: a vector of so many samples cannot be made, an exception.\<close>

definition generateTone :: "int \<Rightarrow> u16 list option" where
  "generateTone seconds =
    (let n = unat (word_of_int seconds * 8000 :: u64)
     in if n < 2 ^ 62 then Some (map tone_sample [0..<n]) else None)"

section \<open>The packets\<close>

definition kSamplesPerPacket :: nat where
  "kSamplesPerPacket = 160"

record sender =
  sd_seq :: u16
  sd_timestamp :: u32
  sd_held :: bytes
  sd_holding :: bool
  sd_sent :: u64
  sd_dropped :: u64
  sd_reordered :: u64
  sd_draws :: nat

definition sender_init :: "u16 \<Rightarrow> u32 \<Rightarrow> sender" where
  "sender_init seq ts = \<lparr>sd_seq = seq, sd_timestamp = ts, sd_held = [], sd_holding = False, sd_sent = 0,
     sd_dropped = 0, sd_reordered = 0, sd_draws = 0\<rparr>"

definition sender_frame :: "u16 list \<Rightarrow> nat \<Rightarrow> u16 list" where
  "sender_frame pcm p = take kSamplesPerPacket (drop (p * kSamplesPerPacket) pcm)"

definition sender_packet :: "int \<Rightarrow> u32 \<Rightarrow> u16 list \<Rightarrow> nat \<Rightarrow> u16 \<Rightarrow> u32 \<Rightarrow> rtp_packet" where
  "sender_packet pt src pcm p seq ts =
    (let frame = sender_frame pcm p; codes = (if pt = 8 then encodeALaw_bulk frame else encodeMuLaw_bulk frame)
     in rtp_packet_init\<lparr>payloadType := word_of_int pt, marker := (p = 0), sequence := seq, timestamp := ts,
          ssrc := src, payload := codes\<rparr>)"

text \<open>One draw of the percentage.\<close>

definition sender_draw :: "(nat \<Rightarrow> real) \<Rightarrow> sender \<Rightarrow> real \<times> sender" where
  "sender_draw pct st = (pct (sd_draws st), st\<lparr>sd_draws := sd_draws st + 1\<rparr>)"

text \<open>The loop body; \<open>Inl\<close> is an uncaught exception of a send.\<close>

definition sender_step :: "'w net_os \<Rightarrow> udp_socket \<Rightarrow> endpoint \<Rightarrow> sender_args \<Rightarrow> (nat \<Rightarrow> real) \<Rightarrow> u32 \<Rightarrow> u16 list \<Rightarrow> nat
    \<Rightarrow> nat \<Rightarrow> sender \<times> 'w \<Rightarrow> (string + sender) \<times> 'w" where
  "sender_step os s dest a pct src pcm np p = (\<lambda>(st, w).
    (let wire = rtp_serialize (sender_packet (sa_payloadType a) src pcm p (sd_seq st) (sd_timestamp st));
         st = st\<lparr>sd_seq := sd_seq st + 1, sd_timestamp := sd_timestamp st + of_nat kSamplesPerPacket\<rparr>;
         (x, st) = sender_draw pct st
     in if x < sa_lossPct a then (Inr (st\<lparr>sd_dropped := sd_dropped st + 1\<rparr>), w)
        else if sd_holding st then
          (case udp_sendTo os s wire dest w of
             (Inl e, w) \<Rightarrow> (Inl e, w)
           | (Inr _, w) \<Rightarrow>
               (case udp_sendTo os s (sd_held st) dest w of
                  (Inl e, w) \<Rightarrow> (Inl e, w)
                | (Inr _, w) \<Rightarrow>
                    (Inr (st\<lparr>sd_holding := False, sd_reordered := sd_reordered st + 1, sd_sent := sd_sent st + 2\<rparr>), w)))
        else
          (let (y, st) = sender_draw pct st
           in if y < sa_reorderPct a \<and> p + 1 < np then (Inr (st\<lparr>sd_held := wire, sd_holding := True\<rparr>), w)
              else
                (case udp_sendTo os s wire dest w of
                   (Inl e, w) \<Rightarrow> (Inl e, w)
                 | (Inr _, w) \<Rightarrow> (Inr (st\<lparr>sd_sent := sd_sent st + 1\<rparr>), w)))))"

fun sender_loop :: "'w net_os \<Rightarrow> udp_socket \<Rightarrow> endpoint \<Rightarrow> sender_args \<Rightarrow> (nat \<Rightarrow> real) \<Rightarrow> u32 \<Rightarrow> u16 list \<Rightarrow> nat
    \<Rightarrow> nat list \<Rightarrow> sender \<times> 'w \<Rightarrow> (string + sender) \<times> 'w" where
  "sender_loop os s dest a pct src pcm np [] (st, w) = (Inr st, w)"
| "sender_loop os s dest a pct src pcm np (p # ps) (st, w) =
    (case sender_step os s dest a pct src pcm np p (st, w) of
       (Inl e, w) \<Rightarrow> (Inl e, w)
     | (Inr st, w) \<Rightarrow> sender_loop os s dest a pct src pcm np ps (st, w))"

text \<open>The packet still held when the loop ends.\<close>

definition sender_flush :: "'w net_os \<Rightarrow> udp_socket \<Rightarrow> endpoint \<Rightarrow> sender \<times> 'w \<Rightarrow> (string + sender) \<times> 'w" where
  "sender_flush os s dest = (\<lambda>(st, w).
    if sd_holding st then
      (case udp_sendTo os s (sd_held st) dest w of
         (Inl e, w) \<Rightarrow> (Inl e, w)
       | (Inr _, w) \<Rightarrow> (Inr (st\<lparr>sd_sent := sd_sent st + 1\<rparr>), w))
    else (Inr st, w))"

definition sender_stream :: "'w net_os \<Rightarrow> udp_socket \<Rightarrow> endpoint \<Rightarrow> sender_args \<Rightarrow> (nat \<Rightarrow> real) \<Rightarrow> u32 \<Rightarrow> u16 \<Rightarrow> u32 \<Rightarrow> u16 list
    \<Rightarrow> 'w \<Rightarrow> (string + sender) \<times> 'w" where
  "sender_stream os s dest a pct src seq ts pcm w =
    (let np = length pcm div kSamplesPerPacket
     in case sender_loop os s dest a pct src pcm np [0..<np] (sender_init seq ts, w) of
          (Inl e, w) \<Rightarrow> (Inl e, w)
        | (Inr st, w) \<Rightarrow> sender_flush os s dest (st, w))"

text \<open>
  \<open>main\<close> after the command line; \<open>None\<close> when the file is never read to its end, else the error or the
  counters. The exception of the tone is named as the library names it; \<open>pct seed\<close> is what the generator
  seeded with the first random number draws.
\<close>

definition sender_main :: "'w net_os \<Rightarrow> (string \<Rightarrow> bytes option) \<Rightarrow> (u32 \<Rightarrow> nat \<Rightarrow> real) \<Rightarrow> sender_args \<Rightarrow> 'w \<Rightarrow> ((string + sender) \<times> 'w) option" where
  "sender_main os files pct a w =
    (case (if sa_wavPath a \<noteq> [] then loadWavPcm16 (files (sa_wavPath a)) else Some []) of
       None \<Rightarrow> None
     | Some pcm \<Rightarrow>
         (case (if pcm = [] then generateTone (sa_seconds a) else Some pcm) of
            None \<Rightarrow> Some (Inl ''length_error'', w)
          | Some pcm \<Rightarrow>
              (case udp_new os w of
                 (Inl e, w) \<Rightarrow> Some (Inl e, w)
               | (Inr s, w) \<Rightarrow>
                   (case udp_bind os s ''0.0.0.0'' 0 w of
                      (Inl e, s, w) \<Rightarrow> Some (Inl e, w)
                    | (Inr _, s, w) \<Rightarrow>
                        (let (seed, w) = os_random os w; (src, w) = os_random os w; (seq, w) = os_random os w; (ts, w) = os_random os w
                         in case sender_stream os s \<lparr>ep_ip = sa_destIp a, ep_port = sa_destPort a\<rparr> a (pct seed) src
                                   (ucast seq) ts pcm w of
                              (Inl e, w) \<Rightarrow> Some (Inl e, w)
                            | (Inr st, w) \<Rightarrow> Some (Inr st, udp_destroy os s w))))))"

section \<open>Canonical WAVE files\<close>

definition to_le32 :: "u32 \<Rightarrow> bytes" where
  "to_le32 x = [ucast x, ucast (drop_bit 8 x), ucast (drop_bit 16 x), ucast (drop_bit 24 x)]"

definition to_le16 :: "u16 \<Rightarrow> bytes" where
  "to_le16 x = [ucast x, ucast (drop_bit 8 x)]"

text \<open>A chunk: its tag, the size of its data, the data, and a byte of padding when that is odd.\<close>

definition wav_chunk :: "bytes \<times> bytes \<Rightarrow> bytes" where
  "wav_chunk c = fst c @ to_le32 (of_nat (length (snd c))) @ snd c @ replicate (length (snd c) mod 2) 0"

definition chunk_ok :: "bytes \<times> bytes \<Rightarrow> bool" where
  "chunk_ok c \<longleftrightarrow> length (fst c) = 4 \<and> fst c \<noteq> tag ''data'' \<and> length (snd c) + 9 < 2 ^ 32"

definition wav_file :: "u32 \<Rightarrow> (bytes \<times> bytes) list \<Rightarrow> u16 list \<Rightarrow> bytes \<Rightarrow> bytes" where
  "wav_file sz chunks pcm rest = tag ''RIFF'' @ to_le32 sz @ tag ''WAVE'' @ concat (map wav_chunk chunks)
     @ tag ''data'' @ to_le32 (of_nat (2 * length pcm)) @ concat (map to_le16 pcm) @ rest"

lemma le32_to_le32 [simp]: "le32 (to_le32 x @ d) = x"
proof -
  have "ucast (ucast x :: u8) OR push_bit 8 (ucast (ucast (drop_bit 8 x) :: u8)) OR push_bit 16 (ucast (ucast (drop_bit 16 x) :: u8))
      OR push_bit 24 (ucast (ucast (drop_bit 24 x) :: u8)) = x"
  proof (rule bit_word_eqI)
    fix n assume "n < LENGTH(32)"
    then show "bit (ucast (ucast x :: u8) OR push_bit 8 (ucast (ucast (drop_bit 8 x) :: u8))
      OR push_bit 16 (ucast (ucast (drop_bit 16 x) :: u8)) OR push_bit 24 (ucast (ucast (drop_bit 24 x) :: u8)) :: u32) n = bit x n"
      by (cases "24 \<le> n"; cases "16 \<le> n"; cases "8 \<le> n") (auto simp: bit_simps)
  qed
  then show ?thesis by (simp add: le32_def to_le32_def)
qed

lemma le16_to_le16 [simp]: "le16 (to_le16 x @ d) = x"
proof -
  have "ucast (ucast x :: u8) OR push_bit 8 (ucast (ucast (drop_bit 8 x) :: u8)) = x"
  proof (rule bit_word_eqI)
    fix n assume "n < LENGTH(16)"
    then show "bit (ucast (ucast x :: u8) OR push_bit 8 (ucast (ucast (drop_bit 8 x) :: u8)) :: u16) n = bit x n"
      by (cases "8 \<le> n") (auto simp: bit_simps)
  qed
  then show ?thesis by (simp add: le16_def to_le16_def)
qed

lemma length_le [simp]: "length (to_le32 x) = 4" "length (to_le16 y) = 2"
  by (simp_all add: to_le32_def to_le16_def)

lemma pcm_of_bytes: "pcm_of (concat (map to_le16 pcm) @ d) (length pcm) = pcm"
proof (induction pcm)
  case (Cons x pcm)
  have "pcm_of (to_le16 x @ concat (map to_le16 pcm) @ d) (Suc n) = x # pcm_of (concat (map to_le16 pcm) @ d) n" for n
    by (simp add: pcm_of_def upt_conv_Cons map_Suc_upt [symmetric] del: upt_Suc)
  from this [of "length pcm"] Cons show ?case by simp
qed (simp add: pcm_of_def)

lemma pcm_bytes_len: "length (concat (map to_le16 pcm)) = 2 * length pcm"
  by (induction pcm) simp_all

lemma chunk_step_ok:
  assumes "n + 9 < 2 ^ 32"
  shows "chunk_step (of_nat n) = 8 + n + n mod 2"
proof -
  have "(of_nat n :: u32) AND 1 = of_bool (odd n)"
    by (rule bit_word_eqI) (auto simp: bit_simps bit_0)
  then have "(of_nat n :: u32) AND 1 = of_nat (n mod 2)" by (simp add: mod_2_eq_odd)
  then have "8 + of_nat n + (of_nat n AND 1) = (of_nat (8 + n + n mod 2) :: u32)" by simp
  moreover have "8 + n + n mod 2 < 2 ^ 32" using assms by simp
  ultimately show ?thesis by (simp add: chunk_step_def unat_of_nat take_bit_nat_eq_self del: of_nat_add)
qed

lemma wav_walk_chunk:
  assumes "chunk_ok c"
  shows "wav_walk (pre @ wav_chunk c @ rest) (length pre) = wav_walk (pre @ wav_chunk c @ rest) (length (pre @ wav_chunk c))"
proof -
  let ?buf = "pre @ wav_chunk c @ rest" and ?n = "length (snd c)"
  have "take 4 (drop (length pre) ?buf) = fst c" using assms by (simp add: wav_chunk_def chunk_ok_def)
  moreover have "le32 (drop (length pre + 4) ?buf) = of_nat ?n" using assms by (simp add: wav_chunk_def chunk_ok_def)
  moreover have "length pre + chunk_step (of_nat ?n) = length (pre @ wav_chunk c)"
    using assms chunk_step_ok [of ?n] by (simp add: wav_chunk_def chunk_ok_def)
  ultimately show ?thesis using assms
    by (subst wav_walk.simps) (simp add: chunk_ok_def Let_def wav_chunk_def)
qed

lemma wav_walk_chunks:
  "list_all chunk_ok cs \<Longrightarrow> wav_walk (pre @ concat (map wav_chunk cs) @ rest) (length pre)
    = wav_walk (pre @ concat (map wav_chunk cs) @ rest) (length (pre @ concat (map wav_chunk cs)))"
proof (induction cs arbitrary: pre)
  case (Cons c cs)
  then show ?case using wav_walk_chunk [of c pre "concat (map wav_chunk cs) @ rest"] Cons.IH [of "pre @ wav_chunk c"] by simp
qed simp

section \<open>Termination of the walk\<close>

definition never_zero :: "bytes \<Rightarrow> bool" where
  "never_zero d \<longleftrightarrow> (\<forall>pos. pos + 8 \<le> length d \<longrightarrow> chunk_step (le32 (drop (pos + 4) d)) \<noteq> 0)"

lemma wav_walk_returns:
  assumes "never_zero d"
  shows "\<exists>pcm. wav_walk d pos = Some pcm"
proof (induction "length d - pos" arbitrary: pos rule: less_induct)
  case less
  show ?case
  proof (cases "pos + 8 \<le> length d \<and> take 4 (drop pos d) \<noteq> tag ''data''")
    case True
    then have "0 < chunk_step (le32 (drop (pos + 4) d))" using assms by (simp add: never_zero_def)
    then obtain pcm where "wav_walk d (pos + chunk_step (le32 (drop (pos + 4) d))) = Some pcm" using less True by fastforce
    then show ?thesis using True by (subst wav_walk.simps) (simp add: Let_def)
  next
    case False
    then show ?thesis by (subst wav_walk.simps) (simp add: Let_def)
  qed
qed

lemma chunk_step_zero: "chunk_step sz = 0 \<longleftrightarrow> sz = 0xFFFFFFF8 \<or> sz = 0xFFFFFFF7"
proof -
  have one: "sz AND 1 = 0 \<or> sz AND 1 = 1"
  proof -
    have "sz AND 1 = of_bool (odd sz)" by (rule bit_word_eqI) (auto simp: bit_simps bit_0)
    then show ?thesis by simp
  qed
  have "chunk_step sz = 0 \<longleftrightarrow> 8 + sz + (sz AND 1) = 0" by (simp add: chunk_step_def unsigned_eq_0_iff)
  moreover have "(0xFFFFFFF8 :: u32) AND 1 = 0" "(0xFFFFFFF7 :: u32) AND 1 = 1" by simp_all
  moreover have "8 + sz = 0 \<longleftrightarrow> sz = - 8" "8 + sz + 1 = 0 \<longleftrightarrow> sz = - 9"
    using add_eq_0_iff [of 8 sz] add_eq_0_iff [of 9 sz] by (simp_all add: algebra_simps)
  moreover have "(- 8 :: u32) = 0xFFFFFFF8" "(- 9 :: u32) = 0xFFFFFFF7" by simp_all
  ultimately show ?thesis using one by auto
qed


section \<open>The tone\<close>

lemma trunc_int_bound: "\<bar>x\<bar> \<le> real n \<Longrightarrow> \<bar>trunc_int x\<bar> \<le> int n"
proof (cases "x < 0")
  case True
  assume "\<bar>x\<bar> \<le> real n"
  moreover have "x \<le> of_int \<lceil>x\<rceil>" "\<lceil>x\<rceil> \<le> 0" using True by simp_all
  ultimately have "- real n \<le> of_int \<lceil>x\<rceil>" by linarith
  then have "- int n \<le> \<lceil>x\<rceil>" by linarith
  then show ?thesis using True \<open>\<lceil>x\<rceil> \<le> 0\<close> by (simp add: trunc_int_def)
next
  case False
  assume "\<bar>x\<bar> \<le> real n"
  moreover have "of_int \<lfloor>x\<rfloor> \<le> x" "0 \<le> \<lfloor>x\<rfloor>" using False by simp_all
  ultimately have "of_int \<lfloor>x\<rfloor> \<le> real n" by linarith
  then have "\<lfloor>x\<rfloor> \<le> int n" by linarith
  then show ?thesis using False \<open>0 \<le> \<lfloor>x\<rfloor>\<close> by (simp add: trunc_int_def)
qed

lemma tone_sample_bound: "\<bar>sint (tone_sample i)\<bar> \<le> 8000"
proof -
  let ?s = "sin (2 * pi * 440 * (real i / 8000))" and ?x = "trunc_int (8000 * sin (2 * pi * 440 * (real i / 8000)))"
  have "\<bar>?s\<bar> \<le> 1" by (rule abs_sin_le_one)
  then have "\<bar>8000 * ?s\<bar> \<le> real 8000" unfolding abs_mult by linarith
  then have b: "\<bar>?x\<bar> \<le> 8000" using trunc_int_bound [of "8000 * ?s" 8000] by simp
  then have "sint (word_of_int ?x :: u16) = ?x" by (simp add: sint_sbintrunc' signed_take_bit_int_eq_self)
  with b show ?thesis by (simp add: tone_sample_def)
qed

lemma tone_count:
  assumes "- (2 ^ 31) \<le> s" "s < 2 ^ 31"
  shows "unat (word_of_int s * 8000 :: u64) = (if 0 \<le> s then nat (8000 * s) else nat (2 ^ 64 + 8000 * s))"
proof -
  have "unat (word_of_int s * 8000 :: u64) = nat ((8000 * s) mod 2 ^ 64)"
  proof -
    have "word_of_int s * 8000 = (word_of_int (8000 * s) :: u64)" by simp
    then show ?thesis by (simp only: unsigned_of_int take_bit_eq_mod) simp
  qed
  moreover have "(8000 * s) mod 2 ^ 64 = (if 0 \<le> s then 8000 * s else 2 ^ 64 + 8000 * s)"
  proof (cases "0 \<le> s")
    case False
    have "(8000 * s) mod 2 ^ 64 = (8000 * s + 2 ^ 64) mod 2 ^ 64" by simp
    also have "\<dots> = 8000 * s + 2 ^ 64" using assms False by (intro mod_pos_pos_trivial) simp_all
    finally show ?thesis using False by simp
  qed (use assms in simp)
  ultimately show ?thesis by simp
qed

section \<open>The stream\<close>

text \<open>The packets of the whole recording, as they would be sent without loss and reordering.\<close>

definition sender_wire :: "sender_args \<Rightarrow> u32 \<Rightarrow> u16 \<Rightarrow> u32 \<Rightarrow> u16 list \<Rightarrow> nat \<Rightarrow> bytes" where
  "sender_wire a src seq ts pcm p = rtp_serialize
     (sender_packet (sa_payloadType a) src pcm p (seq + of_nat p) (ts + of_nat (p * kSamplesPerPacket)))"

text \<open>\<open>ys\<close> is \<open>xs\<close> with disjoint pairs of neighbours exchanged.\<close>

inductive swapped :: "'a list \<Rightarrow> 'a list \<Rightarrow> bool" where
  none: "swapped [] []"
| keep: "swapped xs ys \<Longrightarrow> swapped (x # xs) (x # ys)"
| swap: "swapped xs ys \<Longrightarrow> swapped (x # y # xs) (y # x # ys)"

lemma swapped_append: "swapped xs ys \<Longrightarrow> swapped us vs \<Longrightarrow> swapped (xs @ us) (ys @ vs)"
  by (induction rule: swapped.induct) (auto intro: swapped.intros)

lemma swapped_refl: "swapped xs xs"
  by (induction xs) (auto intro: swapped.intros)

lemma swapped_mset: "swapped xs ys \<Longrightarrow> length ys = length xs \<and> set ys = set xs"
  by (induction rule: swapped.induct) auto

text \<open>The state after the packets below \<open>i\<close>: those kept, the last of them perhaps still held.\<close>

definition sender_inv :: "('w \<Rightarrow> (int \<times> bytes \<times> sockaddr) list) \<Rightarrow> 'w \<Rightarrow> int \<times> sockaddr \<Rightarrow> (nat \<Rightarrow> bytes) \<Rightarrow> real \<Rightarrow> real
    \<Rightarrow> u16 \<Rightarrow> u32 \<Rightarrow> nat \<Rightarrow> sender \<times> 'w \<Rightarrow> nat list \<Rightarrow> bytes list \<Rightarrow> bool" where
  "sender_inv out w0 to wire loss reorder seq ts i st kept ds \<longleftrightarrow> (case st of (st, w) \<Rightarrow>
    sd_seq st = seq + of_nat i \<and> sd_timestamp st = ts + of_nat (i * kSamplesPerPacket)
    \<and> subseq kept [0..<i] \<and> (loss \<le> 0 \<longrightarrow> kept = [0..<i])
    \<and> out w = out w0 @ map (\<lambda>d. (fst to, d, snd to)) ds
    \<and> sd_sent st = of_nat (length ds) \<and> sd_dropped st + of_nat (length kept) = of_nat i
    \<and> (if sd_holding st then kept \<noteq> [] \<and> sd_held st = wire (last kept) \<and> swapped (map wire (butlast kept)) ds \<and> 0 < reorder
       else swapped (map wire kept) ds \<and> (reorder \<le> 0 \<longrightarrow> ds = map wire kept)))"

lemma sender_sends:
  assumes "udp_laws os out" "udp_sendTo os s d dest w = (Inr n, w')"
  shows "out w' = out w @ [(us_fd s, d, \<lparr>sa_addr = the (os_pton os (ep_ip dest)), sa_port = ep_port dest\<rparr>)]"
  using udp_send_facts [OF assms] by auto

lemma sender_step_inv:
  assumes "udp_laws os out" "\<forall>i. 0 \<le> pct i"
    and "sender_inv out w0 (us_fd s, \<lparr>sa_addr = the (os_pton os (ep_ip dest)), sa_port = ep_port dest\<rparr>)
      (sender_wire a src seq ts pcm) (sa_lossPct a) (sa_reorderPct a) seq ts i (st, w) kept ds"
    and "sender_step os s dest a pct src pcm np i (st, w) = (Inr st', w')"
  shows "\<exists>kept' ds'. sender_inv out w0 (us_fd s, \<lparr>sa_addr = the (os_pton os (ep_ip dest)), sa_port = ep_port dest\<rparr>)
      (sender_wire a src seq ts pcm) (sa_lossPct a) (sa_reorderPct a) seq ts (Suc i) (st', w') kept' ds'"
proof -
  let ?wire = "sender_wire a src seq ts pcm" and ?x = "pct (sd_draws st)" and ?y = "pct (Suc (sd_draws st))"
  note I = assms(3) [unfolded sender_inv_def prod.case fst_conv snd_conv]
  note send = sender_sends [OF assms(1)]
  have w: "rtp_serialize (sender_packet (sa_payloadType a) src pcm i (sd_seq st) (sd_timestamp st)) = ?wire i"
    using I by (simp add: sender_wire_def)
  have sub: "subseq kept ([0..<i] @ [i])" "subseq (kept @ [i]) ([0..<i] @ [i])"
    using I by (simp_all add: subseq_rev_drop_many)
  consider (drop) "?x < sa_lossPct a" | (swap) "\<not> ?x < sa_lossPct a" "sd_holding st"
    | (hold) "\<not> ?x < sa_lossPct a" "\<not> sd_holding st" "?y < sa_reorderPct a" "i + 1 < np"
    | (send) "\<not> ?x < sa_lossPct a" "\<not> sd_holding st" "\<not> (?y < sa_reorderPct a \<and> i + 1 < np)" by blast
  then show ?thesis
  proof cases
    case drop
    have "0 < sa_lossPct a" using drop assms(2) by (smt (verit))
    then show ?thesis using assms(4) I drop sub
      by (intro exI [of _ kept] exI [of _ ds])
        (auto simp: sender_step_def sender_draw_def sender_inv_def Let_def algebra_simps)
  next
    case swap
    obtain n1 w1 n2 where s: "udp_sendTo os s (?wire i) dest w = (Inr n1, w1)" "udp_sendTo os s (sd_held st) dest w1 = (Inr n2, w')"
      "st' = st\<lparr>sd_seq := sd_seq st + 1, sd_timestamp := sd_timestamp st + of_nat kSamplesPerPacket, sd_draws := sd_draws st + 1,
         sd_holding := False, sd_reordered := sd_reordered st + 1, sd_sent := sd_sent st + 2\<rparr>"
      using assms(4) swap w by (auto simp: sender_step_def sender_draw_def Let_def split: sum.splits prod.splits)
    obtain k h where k: "kept = k @ [h]" using I swap by (cases kept rule: rev_cases) auto
    have "swapped (map ?wire k @ [?wire h, ?wire i]) (ds @ [?wire i, ?wire h])"
      using I swap by (intro swapped_append) (auto simp: k intro: swapped.intros)
    then show ?thesis using I swap s(3) sub(2) send [OF s(1)] send [OF s(2)]
      by (intro exI [of _ "kept @ [i]"] exI [of _ "ds @ [?wire i, ?wire h]"])
        (auto simp: sender_inv_def k algebra_simps)
  next
    case hold
    have "0 < sa_reorderPct a" using hold assms(2) by (smt (verit))
    then show ?thesis using assms(4) I hold sub w
      by (intro exI [of _ "kept @ [i]"] exI [of _ ds])
        (auto simp: sender_step_def sender_draw_def sender_inv_def Let_def algebra_simps)
  next
    case send
    obtain n1 where s: "udp_sendTo os s (?wire i) dest w = (Inr n1, w')"
      "st' = st\<lparr>sd_seq := sd_seq st + 1, sd_timestamp := sd_timestamp st + of_nat kSamplesPerPacket, sd_draws := sd_draws st + 1 + 1,
         sd_sent := sd_sent st + 1\<rparr>"
      using assms(4) send w by (auto simp: sender_step_def sender_draw_def Let_def split: sum.splits prod.splits if_splits)
    have "swapped (map ?wire kept @ [?wire i]) (ds @ [?wire i])"
      using I send by (intro swapped_append swapped_refl) auto
    then show ?thesis using I send s(2) sub(2) sender_sends [OF assms(1) s(1)]
      by (intro exI [of _ "kept @ [i]"] exI [of _ "ds @ [?wire i]"])
        (auto simp: sender_inv_def algebra_simps)
  qed
qed

lemma sender_loop_inv:
  assumes "udp_laws os out" "\<forall>i. 0 \<le> pct i"
    and "sender_inv out w0 (us_fd s, \<lparr>sa_addr = the (os_pton os (ep_ip dest)), sa_port = ep_port dest\<rparr>)
      (sender_wire a src seq ts pcm) (sa_lossPct a) (sa_reorderPct a) seq ts i (st, w) kept ds"
    and "sender_loop os s dest a pct src pcm np [i..<i + n] (st, w) = (Inr st', w')"
  shows "\<exists>kept' ds'. sender_inv out w0 (us_fd s, \<lparr>sa_addr = the (os_pton os (ep_ip dest)), sa_port = ep_port dest\<rparr>)
      (sender_wire a src seq ts pcm) (sa_lossPct a) (sa_reorderPct a) seq ts (i + n) (st', w') kept' ds'"
  using assms(3,4)
proof (induction n arbitrary: i st w kept ds)
  case (Suc n)
  have u: "[i..<i + Suc n] = i # [Suc i..<Suc i + n]" by (simp add: upt_conv_Cons del: upt_Suc)
  obtain st1 w1 where s: "sender_step os s dest a pct src pcm np i (st, w) = (Inr st1, w1)"
    using Suc.prems(2) unfolding u by (auto split: sum.splits prod.splits)
  obtain k1 d1 where "sender_inv out w0 (us_fd s, \<lparr>sa_addr = the (os_pton os (ep_ip dest)), sa_port = ep_port dest\<rparr>)
      (sender_wire a src seq ts pcm) (sa_lossPct a) (sa_reorderPct a) seq ts (Suc i) (st1, w1) k1 d1"
    using sender_step_inv [OF assms(1,2) Suc.prems(1) s] by blast
  then show ?case using Suc.IH [of "Suc i" st1 w1 k1 d1] Suc.prems(2) s unfolding u by simp
qed auto

lemma sender_init_inv: "sender_inv out w to wire loss reorder seq ts 0 (sender_init seq ts, w) [] []"
  by (simp add: sender_inv_def sender_init_def swapped.none)

lemma length_encoded: "length (encodeALaw_bulk xs) = length xs" "length (encodeMuLaw_bulk xs) = length xs"
  by (induction xs) simp_all

lemma length_sender_frame: "p < length pcm div kSamplesPerPacket \<Longrightarrow> length (sender_frame pcm p) = kSamplesPerPacket"
proof -
  assume "p < length pcm div kSamplesPerPacket"
  then have "(p + 1) * 160 \<le> length pcm" by (simp add: kSamplesPerPacket_def less_eq_div_iff_mult_less_eq [symmetric])
  then show ?thesis by (simp add: sender_frame_def kSamplesPerPacket_def)
qed

lemma sender_stream_facts:
  assumes "udp_laws os out" "\<forall>i. 0 \<le> pct i" "sender_stream os s dest a pct src seq ts pcm w = (Inr st, w')"
  shows "\<exists>kept ds. subseq kept [0..<length pcm div kSamplesPerPacket]
    \<and> swapped (map (sender_wire a src seq ts pcm) kept) ds
    \<and> out w' = out w @ map (\<lambda>d. (us_fd s, d, \<lparr>sa_addr = the (os_pton os (ep_ip dest)), sa_port = ep_port dest\<rparr>)) ds
    \<and> (sa_lossPct a \<le> 0 \<longrightarrow> kept = [0..<length pcm div kSamplesPerPacket])
    \<and> (sa_reorderPct a \<le> 0 \<longrightarrow> ds = map (sender_wire a src seq ts pcm) kept)
    \<and> sd_sent st = of_nat (length ds) \<and> sd_dropped st + sd_sent st = of_nat (length pcm div kSamplesPerPacket)"
proof -
  let ?n = "length pcm div kSamplesPerPacket" and ?wire = "sender_wire a src seq ts pcm"
  let ?to = "(us_fd s, \<lparr>sa_addr = the (os_pton os (ep_ip dest)), sa_port = ep_port dest\<rparr>)"
  obtain st1 w1 where l: "sender_loop os s dest a pct src pcm ?n [0..<0 + ?n] (sender_init seq ts, w) = (Inr st1, w1)"
    and f: "sender_flush os s dest (st1, w1) = (Inr st, w')"
    using assms(3) by (auto simp: sender_stream_def Let_def split: sum.splits prod.splits)
  obtain kept ds where I: "sender_inv out w ?to ?wire (sa_lossPct a) (sa_reorderPct a) seq ts ?n (st1, w1) kept ds"
    using sender_loop_inv [OF assms(1,2) sender_init_inv l] by auto
  note i = I [unfolded sender_inv_def prod.case fst_conv snd_conv]
  show ?thesis
  proof (cases "sd_holding st1")
    case True
    obtain n where s: "udp_sendTo os s (sd_held st1) dest w1 = (Inr n, w')" "st = st1\<lparr>sd_sent := sd_sent st1 + 1\<rparr>"
      using f True by (auto simp: sender_flush_def split: sum.splits prod.splits)
    obtain k h where k: "kept = k @ [h]" using i True by (cases kept rule: rev_cases) auto
    have sw: "swapped (map ?wire k @ [?wire h]) (ds @ [?wire h])"
      using i True by (intro swapped_append swapped_refl) (simp add: k)
    then have "length ds = length k" using swapped_mset by fastforce
    then show ?thesis using i True s(2) sw sender_sends [OF assms(1) s(1)]
      by (intro exI [of _ kept] exI [of _ "ds @ [?wire h]"]) (auto simp: k algebra_simps)
  next
    case False
    then have "st = st1" "w' = w1" using f by (simp_all add: sender_flush_def)
    moreover have "length ds = length kept" using i False swapped_mset by fastforce
    ultimately show ?thesis using i False by (intro exI [of _ kept] exI [of _ ds]) auto
  qed
qed

text \<open>What \<open>main\<close> sends is a stream of the samples it loaded.\<close>

lemma sender_main_stream:
  assumes "udp_laws os out" "sa_wavPath a \<noteq> []" "loadWavPcm16 (files (sa_wavPath a)) = Some pcm" "pcm \<noteq> []"
    and "sender_main os files pct a w = Some (Inr st, w')"
  shows "\<exists>s seed src seq ts w1 w2. sender_stream os s \<lparr>ep_ip = sa_destIp a, ep_port = sa_destPort a\<rparr> a (pct seed) src seq ts pcm w1
      = (Inr st, w2) \<and> out w1 = out w \<and> out w2 = out w'"
proof -
  obtain s0 u0 where n: "udp_new os w = (Inr s0, u0)"
    using assms(2-5) by (auto simp: sender_main_def split: sum.splits prod.splits)
  obtain s u1 where b: "udp_bind os s0 ''0.0.0.0'' 0 u0 = (Inr (), s, u1)"
    using assms(2-5) n by (auto simp: sender_main_def split: sum.splits prod.splits)
  obtain seed u2 src u3 seq u4 ts u5 where r: "os_random os u1 = (seed, u2)" "os_random os u2 = (src, u3)"
    "os_random os u3 = (seq, u4)" "os_random os u4 = (ts, u5)" by (metis surj_pair)
  let ?stream = "sender_stream os s \<lparr>ep_ip = sa_destIp a, ep_port = sa_destPort a\<rparr> a (pct seed) src (ucast seq) ts pcm u5"
  obtain w2 where t: "?stream = (Inr st, w2)" "w' = udp_destroy os s w2"
    using assms(2-5) n b r by (auto simp: sender_main_def split: sum.splits prod.splits)
  have "out u5 = out w"
    using udp_new_out [OF assms(1) n] udp_bind_out [OF assms(1) b] r [THEN udp_law_same(4) [OF assms(1)]] by simp
  moreover have "out w2 = out w'" using udp_destroy_out [OF assms(1)] t(2) by metis
  ultimately show ?thesis using t(1) by blast
qed

section \<open>Properties\<close>

text \<open>A canonical WAVE file is read back: whatever other chunks (of any content, padded to even size) come before
the data chunk, and whatever follows it, the samples written are the samples loaded.\<close>

theorem wav_file_load:
  assumes "list_all chunk_ok chunks" "2 * length pcm < 2 ^ 32" "44 \<le> length (wav_file sz chunks pcm rest)"
  shows "loadWavPcm16 (Some (wav_file sz chunks pcm rest)) = Some pcm"
proof -
  let ?d = "wav_file sz chunks pcm rest" and ?pre = "tag ''RIFF'' @ to_le32 sz @ tag ''WAVE''"
  let ?mid = "concat (map wav_chunk chunks)"
  let ?tail = "tag ''data'' @ to_le32 (of_nat (2 * length pcm)) @ concat (map to_le16 pcm) @ rest"
  have t: "length (tag ''RIFF'') = 4" "length (tag ''WAVE'') = 4" "length (tag ''data'') = 4" by (simp_all add: tag_def)
  have d: "?d = ?pre @ ?mid @ ?tail" by (simp add: wav_file_def)
  have "take 4 ?d = tag ''RIFF''" "take 4 (drop 8 ?d) = tag ''WAVE''" by (simp_all add: wav_file_def t)
  then have "loadWavPcm16 (Some ?d) = wav_walk ?d 12" using assms(3) by (simp add: loadWavPcm16_def)
  also have "\<dots> = wav_walk (?pre @ ?mid @ ?tail) (length ?pre)" unfolding d by (simp add: t)
  also have "\<dots> = wav_walk (?pre @ ?mid @ ?tail) (length (?pre @ ?mid))" by (rule wav_walk_chunks [OF assms(1)])
  also have "\<dots> = wav_walk ((?pre @ ?mid) @ ?tail) (length (?pre @ ?mid))" by simp
  also have "\<dots> = Some pcm"
  proof -
    have data: "wav_walk (xs @ ?tail) (length xs) = Some pcm" for xs
    proof -
      have "unat (of_nat (2 * length pcm) :: u32) = 2 * length pcm"
        using assms(2) by (simp add: unat_of_nat take_bit_nat_eq_self del: of_nat_mult)
      then show ?thesis by (subst wav_walk.simps) (simp add: t Let_def pcm_bytes_len pcm_of_bytes del: of_nat_mult)
    qed
    show ?thesis by (rule data)
  qed
  finally show ?thesis .
qed

theorem wav_file_load_witness:
  "loadWavPcm16 (Some (wav_file 7 [(tag ''fmt '', replicate 16 1), (tag ''odd '', [9])] [1, 2, 0xFFFF] [5])) = Some [1, 2, 0xFFFF]"
  by (rule wav_file_load) (simp_all add: chunk_ok_def tag_def wav_file_def wav_chunk_def)


text \<open>A crafted file hangs the tool: if the first chunk is not the data chunk and its size field is 0xFFFFFFF7 or
0xFFFFFFF8, the step wraps to zero in 32 bits and loading never returns.\<close>

theorem wav_load_hangs:
  assumes "44 \<le> length d" "take 4 d = tag ''RIFF''" "take 4 (drop 8 d) = tag ''WAVE''"
    and "take 4 (drop 12 d) \<noteq> tag ''data''" "le32 (drop 16 d) \<in> {0xFFFFFFF7, 0xFFFFFFF8}"
  shows "loadWavPcm16 (Some d) = None"
proof -
  have step: "chunk_step (le32 (drop 16 d)) = 0" using assms(5) chunk_step_zero by blast
  have "False" if "wav_walk e pos = Some pcm" "e = d" "pos = 12" for e pos pcm
    using that
  proof (induction rule: wav_walk.raw_induct [rotated 1, consumes 1])
    case (1 f e pos y)
    then show ?case using assms(1,4) step by (simp add: Let_def)
  qed
  then have "wav_walk d 12 = None" by (cases "wav_walk d 12") auto
  then show ?thesis using assms(1-3) by (simp add: loadWavPcm16_def)
qed

text \<open>The tone is as long and as loud as it should be: for a number of seconds that is not negative it has 8000
samples a second, and every sample lies within 8000 of zero; a negative number makes the vector's
constructor throw.\<close>

theorem tone_bounds:
  assumes "- (2 ^ 31) \<le> s" "s < 2 ^ 31"
  shows "case generateTone s of None \<Rightarrow> s < 0
    | Some pcm \<Rightarrow> 0 \<le> s \<and> int (length pcm) = 8000 * s \<and> list_all (\<lambda>x. \<bar>sint x\<bar> \<le> 8000) pcm"
proof -
  have n: "unat (word_of_int s * 8000 :: u64) = (if 0 \<le> s then nat (8000 * s) else nat (2 ^ 64 + 8000 * s))"
    by (rule tone_count [OF assms])
  have "nat (8000 * s) < 2 ^ 62" if "0 \<le> s" using assms(2) that by simp
  moreover have "\<not> nat (2 ^ 64 + 8000 * s) < 2 ^ 62" if "s < 0" using assms(1) that by simp
  ultimately show ?thesis
    by (cases "0 \<le> s") (simp_all add: generateTone_def n Let_def list_all_iff tone_sample_bound)
qed

theorem tone_bounds_witness: "\<exists>pcm. generateTone 2 = Some pcm \<and> length pcm = 16000"
  using tone_bounds [of 2] by (simp split: option.splits)

text \<open>C28. What the network gets is the recording with the requested damage and no other: when no send throws, the
datagrams are the packets of the recording in order (consecutive sequence numbers, timestamps 160 apart),
without those dropped and with some disjoint pairs of neighbours exchanged, all to the destination;
without loss none is dropped, without reordering none is exchanged; and the counters account for all.\<close>

theorem sender_stream_damage:
  assumes "udp_laws os out" "\<forall>i. 0 \<le> pct i" "sender_stream os s dest a pct src seq ts pcm w = (Inr st, w')"
  shows "\<exists>kept ds. subseq kept [0..<length pcm div kSamplesPerPacket]
    \<and> swapped (map (sender_wire a src seq ts pcm) kept) ds
    \<and> out w' = out w @ map (\<lambda>d. (us_fd s, d, \<lparr>sa_addr = the (os_pton os (ep_ip dest)), sa_port = ep_port dest\<rparr>)) ds
    \<and> (sa_lossPct a \<le> 0 \<longrightarrow> kept = [0..<length pcm div kSamplesPerPacket])
    \<and> (sa_reorderPct a \<le> 0 \<longrightarrow> ds = map (sender_wire a src seq ts pcm) kept)
    \<and> sd_sent st = of_nat (length ds) \<and> sd_dropped st + sd_sent st = of_nat (length pcm div kSamplesPerPacket)"
  by (rule sender_stream_facts [OF assms])

text \<open>Every packet the tool sends is one the program accepts: for a payload type below 128 each full frame's packet
parses to the sequence number, timestamp, marker and 160 code words it was made of.\<close>

theorem sender_packets_parse:
  assumes "0 \<le> sa_payloadType a" "sa_payloadType a < 128" "p < length pcm div kSamplesPerPacket"
  shows "\<exists>q. rtp_parse (sender_wire a src seq ts pcm p) = Some (Some q)
    \<and> sequence q = seq + of_nat p \<and> timestamp q = ts + of_nat (160 * p) \<and> ssrc q = src \<and> (marker q \<longleftrightarrow> p = 0)
    \<and> uint (payloadType q) = sa_payloadType a \<and> length (payload q) = 160
    \<and> payload q = (if sa_payloadType a = 8 then encodeALaw_bulk else encodeMuLaw_bulk) (sender_frame pcm p)"
proof -
  let ?q = "sender_packet (sa_payloadType a) src pcm p (seq + of_nat p) (ts + of_nat (p * kSamplesPerPacket))"
  have "(word_of_int (sa_payloadType a) :: u8) < 128" "uint (word_of_int (sa_payloadType a) :: u8) = sa_payloadType a"
    using assms(1,2) by (simp_all add: word_less_def uint_word_of_int)
  then have "rtp_wf ?q" by (simp add: sender_packet_def Let_def rtp_wf_def rtp_packet_init_def)
  then have "rtp_parse (sender_wire a src seq ts pcm p) = Some (Some ?q)" unfolding sender_wire_def by (rule rtp_roundtrip)
  moreover have "uint (payloadType ?q) = sa_payloadType a"
    using assms(1,2) by (simp add: sender_packet_def Let_def uint_word_of_int)
  ultimately show ?thesis using length_sender_frame [OF assms(3)]
    by (auto simp: sender_packet_def Let_def length_encoded kSamplesPerPacket_def rtp_packet_init_def mult.commute)
qed

theorem sender_packets_parse_witness:
  "\<exists>q. rtp_parse (sender_wire (sender_args_init\<lparr>sa_payloadType := 8\<rparr>) 7 65535 0 (replicate 320 0) 1) = Some (Some q)
    \<and> sequence q = 0 \<and> timestamp q = 160 \<and> length (payload q) = 160"
  using sender_packets_parse [of "sender_args_init\<lparr>sa_payloadType := 8\<rparr>" 1 "replicate 320 0" 7 65535 0]
  by (auto simp: kSamplesPerPacket_def)

section \<open>Witnesses\<close>

lemma never_zero_plain:
  assumes "0xFF \<notin> set d"
  shows "never_zero d"
  unfolding never_zero_def
proof (intro allI impI)
  fix pos assume pos: "pos + 8 \<le> length d"
  let ?e = "drop (pos + 4) d"
  have "ucast (drop_bit 24 (le32 ?e)) = ?e ! 3"
    unfolding le32_def by (rule bit_word_eqI) (auto simp: bit_simps dest: bit_imp_le_length)
  moreover have "?e ! 3 = d ! (pos + 7)" "d ! (pos + 7) \<in> set d" using pos by (simp_all add: add.commute)
  ultimately have "ucast (drop_bit 24 (le32 ?e)) \<noteq> (0xFF :: u8)" using assms by metis
  then have "le32 ?e \<noteq> 0xFFFFFFF8" "le32 ?e \<noteq> 0xFFFFFFF7" by auto
  then show "chunk_step (le32 ?e) \<noteq> 0" using chunk_step_zero by blast
qed

lemma length_tag: "length (tag s) = length s"
  by (simp add: tag_def)


theorem wav_load_hangs_witness:
  "loadWavPcm16 (Some (tag ''RIFF'' @ [0, 0, 0, 0] @ tag ''WAVE'' @ tag ''junk'' @ to_le32 0xFFFFFFF8 @ replicate 24 0)) = None"
proof (rule wav_load_hangs)
  have "tag ''junk'' \<noteq> tag ''data''" by (simp add: tag_def)
  then show "take 4 (drop 12 (tag ''RIFF'' @ [0, 0, 0, 0] @ tag ''WAVE'' @ tag ''junk'' @ to_le32 0xFFFFFFF8 @ replicate 24 0)) \<noteq> tag ''data''"
    by (simp add: length_tag)
qed (simp_all add: length_tag)

text \<open>A recording of three packets: the first is held back and sent after the second.\<close>

definition demo_pct :: "nat \<Rightarrow> real" where
  "demo_pct i = (if i = 1 then 0 else 50)"

lemma demo_send_ok: "\<exists>n w'. udp_sendTo demo_os s d dest w = (Inr n, w')"
  by (simp add: udp_sendTo_def demo_os_def)

lemma demo_loop_ok: "\<exists>st' w'. sender_loop demo_os s dest a pct src pcm np ps (st, w) = (Inr st', w')"
proof (induction ps arbitrary: st w)
  case (Cons p ps)
  have "\<exists>st' w'. sender_step demo_os s dest a pct src pcm np p (st, w) = (Inr st', w')"
    using demo_send_ok by (auto simp: sender_step_def sender_draw_def udp_sendTo_def demo_os_def Let_def)
  then show ?case using Cons by fastforce
qed simp

theorem sender_stream_damage_witness:
  "\<exists>st w' kept ds. sender_stream demo_os \<lparr>us_fd = 3, us_localPort = 0\<rparr> endpoint_init (sender_args_init\<lparr>sa_reorderPct := 10\<rparr>)
      demo_pct 7 65535 0 (replicate 480 0) demo_world_init = (Inr st, w')
    \<and> kept = [0..<3] \<and> swapped (map (sender_wire (sender_args_init\<lparr>sa_reorderPct := 10\<rparr>) 7 65535 0 (replicate 480 0)) kept) ds
    \<and> map (\<lambda>e. fst (snd e)) (dw_tx w') = ds \<and> sd_dropped st + sd_sent st = 3"
proof -
  let ?a = "sender_args_init\<lparr>sa_reorderPct := 10\<rparr>" and ?s = "\<lparr>us_fd = 3, us_localPort = 0\<rparr>"
  obtain st1 w1 where "sender_loop demo_os ?s endpoint_init ?a demo_pct 7 (replicate 480 0) 3 [0..<3]
      (sender_init 65535 0, demo_world_init) = (Inr st1, w1)" using demo_loop_ok by blast
  moreover obtain st w' where "sender_flush demo_os ?s endpoint_init (st1, w1) = (Inr st, w')"
    using that by (cases "sd_holding st1") (simp_all add: sender_flush_def udp_sendTo_def demo_os_def)
  ultimately have r: "sender_stream demo_os ?s endpoint_init ?a demo_pct 7 65535 0 (replicate 480 0) demo_world_init = (Inr st, w')"
    by (simp add: sender_stream_def kSamplesPerPacket_def)
  have p: "\<forall>i. 0 \<le> demo_pct i" by (simp add: demo_pct_def)
  show ?thesis
    using sender_stream_damage [OF demo_udp_laws p r] r
    by (auto simp: sender_args_init_def demo_world_init_def comp_def kSamplesPerPacket_def)
qed

end
