(* ===== verification/End_To_End.thy ===== *)
theory End_To_End
  imports Rtp_Sender Media_Threads
begin

text \<open>
  The program and its test tool together: src/src/tools/rtp_sender.cpp plays a WAVE file into the session of
  src/src/app/main.cpp over a network that may reorder datagrams, and the echo is what the caller hears. Both
  programs are the models of the theories Rtp_Sender and Media_Threads, each with an operating system of its
  own; nothing is modelled here.

  The steps: the tool sends the packets of the recording, with some neighbours exchanged; the network moves each
  datagram by at most \<open>e\<close> places, so that each arrives at most \<open>e + 1\<close> places off its order; a session whose
  pops are paced for that restores the order (Jitter_Stream) and sends the packets' payloads back, decoded
  and encoded again; and what that does to a sample is what companding does to it once (G711).
\<close>

section \<open>Exchanged neighbours\<close>

lemma displaced_shift:
  assumes "displaced d is"
  shows "displaced d (0 # map Suc is)"
proof -
  have "set (0 # map Suc is) = {..<length (0 # map Suc is)}"
    using assms by (simp add: displaced_def lessThan_Suc_eq_insert_0)
  moreover have "(0 # map Suc is) ! t \<le> t + d \<and> t \<le> (0 # map Suc is) ! t + d" if "t < length (0 # map Suc is)" for t
    using assms that by (cases t) (simp_all add: displaced_def)
  ultimately show ?thesis using assms by (simp add: displaced_def distinct_map)
qed

lemma displaced_exchange:
  assumes "displaced d is" "1 \<le> d"
  shows "displaced d (1 # 0 # map (\<lambda>i. i + 2) is)"
proof -
  let ?js = "1 # 0 # map (\<lambda>i. i + 2) is"
  have "(\<lambda>i. i + 2) ` {..<length is} = {2..<length is + 2}"
    unfolding lessThan_atLeast0 image_add_atLeastLessThan' by (simp add: numeral_2_eq_2)
  then have "set ?js = {..<length ?js}" using assms by (auto simp: displaced_def)
  moreover have "?js ! t \<le> t + d \<and> t \<le> ?js ! t + d" if "t < length ?js" for t
  proof (cases t)
    case (Suc u)
    then show ?thesis using assms that by (cases u) (auto simp: displaced_def)
  qed (use assms in simp)
  ultimately show ?thesis using assms by (auto simp: displaced_def distinct_map inj_on_def)
qed

lemma swapped_displaced:
  "swapped xs ys \<Longrightarrow> \<exists>is. displaced 1 is \<and> length is = length xs \<and> ys = map ((!) xs) is"
proof (induction rule: swapped.induct)
  case none
  then show ?case by (intro exI [of _ "[]"]) (simp add: displaced_def)
next
  case (keep xs ys x)
  then obtain "is" where i: "displaced 1 is" "length is = length xs" "ys = map ((!) xs) is" by blast
  then show ?case by (intro exI [of _ "0 # map Suc is"]) (simp add: displaced_shift comp_def)
next
  case (swap xs ys x y)
  then obtain "is" where i: "displaced 1 is" "length is = length xs" "ys = map ((!) xs) is" by blast
  from displaced_exchange [OF i(1)] have "displaced 1 (1 # 0 # map (\<lambda>i. i + 2) is)" by simp
  then show ?case using i(2,3) by (intro exI [of _ "1 # 0 # map (\<lambda>i. i + 2) is"]) (simp add: comp_def)
qed

section \<open>Companding a sample\<close>

lemma media_codec_sample:
  "media_decode pt (media_encode pt pcm) = map (\<lambda>s. if pt = 8 then decodeALaw (encodeALaw s) else decodeMuLaw (encodeMuLaw s)) pcm"
  by (simp add: media_decode_def media_encode_def aLaw_bulk_map muLaw_bulk_map)

lemma media_codec_twice: "media_decode pt (media_encode pt (media_decode pt codes)) = media_decode pt codes"
  using al.recode_keeps_audio [of codes] mu.recode_keeps_audio [of codes]
  by (simp add: media_decode_def media_encode_def)

lemma media_codec_error:
  "32 * \<bar>sint (if pt = 8 then decodeALaw (encodeALaw s) else decodeMuLaw (encodeMuLaw s)) - sint s\<bar> \<le> \<bar>sint s\<bar> + 256"
proof -
  have "32 * (\<bar>sint s\<bar> div 32) \<le> \<bar>sint s\<bar>" by simp
  then have "32 * max 8 (\<bar>sint s\<bar> div 32) \<le> \<bar>sint s\<bar> + 256" by (simp add: max_def)
  then show ?thesis using aLaw_error [of s] muLaw_error [of s] by (cases "pt = 8") simp_all
qed

section \<open>The recording, frame by frame\<close>

lemma concat_frames:
  "n * kSamplesPerPacket \<le> length pcm \<Longrightarrow> concat (map (sender_frame pcm) [0..<n]) = take (n * kSamplesPerPacket) pcm"
proof (induction n)
  case (Suc n)
  then show ?case using take_add [of "n * kSamplesPerPacket" kSamplesPerPacket pcm]
    by (simp add: sender_frame_def add.commute)
qed simp

section \<open>What the tool sends\<close>

lemma tool_sends:
  assumes "udp_laws os out" "\<forall>seed i. 0 \<le> pct seed i" "sa_lossPct a \<le> 0"
    and "sa_payloadType a = pt" "pt = 0 \<or> pt = 8"
    and "sa_wavPath a \<noteq> []" "loadWavPcm16 (files (sa_wavPath a)) = Some pcm" "pcm \<noteq> []"
    and "sender_main os files pct a v = Some (Inr st, v')"
    and n: "n = length pcm div kSamplesPerPacket"
  shows "\<exists>is ps. displaced 1 is \<and> length is = n \<and> length ps = n \<and> numbered ps
    \<and> map rtp_parsed (drop (length (sent_data out v)) (sent_data out v')) = map (\<lambda>i. Some (ps ! i)) is
    \<and> (\<forall>i < n. (marker (ps ! i) \<longleftrightarrow> i = 0) \<and> payload (ps ! i) = media_encode pt (sender_frame pcm i))"
proof -
  obtain s seed src seq ts w1 w2 where m: "sender_stream os s \<lparr>ep_ip = sa_destIp a, ep_port = sa_destPort a\<rparr> a (pct seed) src seq ts pcm w1
      = (Inr st, w2)" "out w1 = out v" "out w2 = out v'"
    using sender_main_stream [OF assms(1,6-9)] by blast
  let ?wire = "sender_wire a src seq ts pcm"
  have "\<forall>i. 0 \<le> pct seed i" using assms(2) by blast
  from sender_stream_facts [OF assms(1) this m(1)] assms(3)
  obtain ds to where d: "swapped (map ?wire [0..<n]) ds" "out w2 = out w1 @ map (\<lambda>d. (us_fd s, d, to)) ds"
    by (auto simp: n)
  obtain "is" where i: "displaced 1 is" "length is = n" "ds = map ((!) (map ?wire [0..<n])) is"
    using swapped_displaced [OF d(1)] by auto
  have lt: "p \<in> set is \<Longrightarrow> p < n" for p using i(1,2) by (simp add: displaced_def)
  let ?q = "\<lambda>p. the (rtp_parsed (?wire p))"
  have q: "rtp_parsed (?wire p) = Some (?q p) \<and> sequence (?q p) = seq + of_nat p \<and> (marker (?q p) \<longleftrightarrow> p = 0)
      \<and> payload (?q p) = media_encode pt (sender_frame pcm p)" if "p < n" for p
    using sender_packets_parse [of a p pcm src seq ts] assms(4,5) that
    by (auto simp: rtp_parsed_def media_encode_def n)
  have "sent_data out v' = sent_data out v @ ds"
    using d(2) m(2,3) by (simp add: sent_data_def comp_def)
  moreover have "ds = map ?wire is" using i(3) lt by simp
  ultimately have "map rtp_parsed (drop (length (sent_data out v)) (sent_data out v')) = map (\<lambda>p. Some (?q p)) is"
    using q lt by simp
  then show ?thesis using i(1,2) q lt
    by (intro exI [of _ "is"] exI [of _ "map ?q [0..<n]"]) (auto simp: numbered_def)
qed

section \<open>What the session gets, and what the caller hears\<close>

text \<open>The network's displacement adds to the tool's.\<close>

lemma arrivals:
  assumes "displaced 1 is" "length ps = length is" "map rtp_parsed sent = map (\<lambda>i. Some (ps ! i)) is"
    and "displaced e net" "length net = length sent" "map Some rs = map (\<lambda>i. rtp_parsed (sent ! i)) net"
  shows "displaced (1 + e) (map ((!) is) net) \<and> rs = map (\<lambda>i. ps ! i) (map ((!) is) net)"
proof -
  have len: "length sent = length is" using assms(3) by (metis length_map)
  have "rtp_parsed (sent ! i) = Some (ps ! (is ! i))" if "i \<in> set net" for i
  proof -
    have "i < length sent" using that assms(4,5) by (simp add: displaced_def)
    then show ?thesis using arg_cong [OF assms(3), of "\<lambda>xs. xs ! i"] len by simp
  qed
  then have "map Some rs = map Some (map (\<lambda>i. ps ! (is ! i)) net)" using assms(6) by simp
  then have "rs = map (\<lambda>i. ps ! (is ! i)) net" using inj_map_eq_map [of Some] by (metis inj_Some)
  then show ?thesis using displaced_compose [OF assms(1,4)] assms(5) len by (simp add: comp_def)
qed

lemma heard_samples:
  assumes "pt = 0 \<or> pt = 8" "length ps = length pcm div kSamplesPerPacket"
    and "\<forall>i < length ps. payload (ps ! i) = media_encode pt (sender_frame pcm i)"
    and h: "heard = concat (map (\<lambda>q. media_decode pt (payload q)) (echo_stream pt src seq ts ps))"
  shows "length heard = length ps * kSamplesPerPacket"
    "\<forall>i < length heard. 32 * \<bar>sint (heard ! i) - sint (pcm ! i)\<bar> \<le> \<bar>sint (pcm ! i)\<bar> + 256"
proof -
  let ?f = "\<lambda>s. if pt = 8 then decodeALaw (encodeALaw s) else decodeMuLaw (encodeMuLaw s)"
  have n: "length ps * kSamplesPerPacket \<le> length pcm" unfolding assms(2) by simp
  have "map payload (echo_stream pt src seq ts ps) = map (\<lambda>p. media_encode pt (media_decode pt (payload p))) ps"
    using echo_stream_facts [OF assms(1)] by blast
  from arg_cong [OF this, of "map (media_decode pt)"]
  have "map (\<lambda>q. media_decode pt (payload q)) (echo_stream pt src seq ts ps)
      = map (\<lambda>p. media_decode pt (media_encode pt (media_decode pt (payload p)))) ps" by (simp add: comp_def)
  also have "\<dots> = map (\<lambda>p. media_decode pt (payload p)) ps" by (simp only: media_codec_twice)
  also have "\<dots> = map (\<lambda>i. map ?f (sender_frame pcm i)) [0..<length ps]"
    using assms(3) by (intro nth_equalityI) (simp_all add: media_codec_sample)
  finally have "heard = map ?f (concat (map (sender_frame pcm) [0..<length ps]))"
    by (simp add: h map_concat comp_def)
  then have heard: "heard = map ?f (take (length ps * kSamplesPerPacket) pcm)" unfolding concat_frames [OF n] .
  show "length heard = length ps * kSamplesPerPacket" using n by (simp add: heard)
  show "\<forall>i < length heard. 32 * \<bar>sint (heard ! i) - sint (pcm ! i)\<bar> \<le> \<bar>sint (pcm ! i)\<bar> + 256"
  proof (intro allI impI)
    fix i assume "i < length heard"
    then have "heard ! i = ?f (pcm ! i)" by (simp add: heard del: if_split)
    then show "32 * \<bar>sint (heard ! i) - sint (pcm ! i)\<bar> \<le> \<bar>sint (pcm ! i)\<bar> + 256"
      by (simp only: media_codec_error)
  qed
qed

section \<open>Properties\<close>

text \<open>C5. The caller hears the recording. The tool plays a canonical WAVE file of at least one frame, without loss but
with whatever reordering; the network delivers every datagram at most \<open>e\<close> places off the order in which it was sent;
the session's receiver inserts the packets as they arrive, the first one first, its pops are paced for a
displacement of \<open>e + 1\<close>, and every packet is echoed, in whatever interleaving of the threads' steps. Then once \<open>stop\<close>
has returned, the datagrams the session has sent are a stream numbered from 0 that decodes to as many samples
as the recording has in whole frames, each within a 32nd of its magnitude, plus 8, of the recorded sample at its place.\<close>

theorem recording_heard:
  assumes "udp_laws os1 out1" "\<forall>seed i. 0 \<le> pct seed i" "sa_lossPct a \<le> 0"
    and "sa_payloadType a = pt" "pt = 0 \<or> pt = 8"
    and "sa_wavPath a \<noteq> []" "files (sa_wavPath a) = Some (wav_file sz chunks pcm rest)"
    and "list_all chunk_ok chunks" "160 \<le> length pcm" "2 * length pcm < 2 ^ 32"
    and "sender_main os1 files pct a v = Some (Inr st, v')"
    and sent: "sent = drop (length (sent_data out1 v)) (sent_data out1 v')"
    and net: "displaced e net" "length net = length sent" "e + 1 < 16384"
    and rs: "map Some rs = map (\<lambda>i. rtp_parsed (sent ! i)) net" "marker (rs ! 0)"
    and session: "udp_laws os out" "sends_work os remote"
      "media_new os ip port url w0 = (Inr m0, w1)" "media_start os m0 remote pt dpt w1 = (m, w)"
      "fine_run os (threads_of (m, w)) es = (c, evs)" "th_main c = MStopped"
    and flow: "filter is_insert (jops evs) = map JInsert rs"
      "paced \<lparr>targetDepth = 3, capacity = 100\<rparr> (e + 1) (length rs) clock_start (jops evs)"
      "length (echoed evs) = length rs"
  shows "\<exists>qs. map rtp_parsed (drop (length (sent_data out w)) (sent_data out (th_w c))) = map Some qs
    \<and> map sequence qs = map of_nat [0..<length pcm div 160]
    \<and> (let heard = concat (map (\<lambda>q. media_decode pt (payload q)) qs) in
        length heard = length pcm div 160 * 160
        \<and> (\<forall>i < length heard. 32 * \<bar>sint (heard ! i) - sint (pcm ! i)\<bar> \<le> \<bar>sint (pcm ! i)\<bar> + 256))"
proof -
  let ?n = "length pcm div kSamplesPerPacket"
  have n: "?n = length pcm div 160" "0 < ?n" using assms(9) by (simp_all add: kSamplesPerPacket_def div_greater_zero_iff)
  have "length pcm \<le> length (wav_file sz chunks pcm rest)" by (simp add: wav_file_def pcm_bytes_len)
  then have load: "loadWavPcm16 (files (sa_wavPath a)) = Some pcm" "pcm \<noteq> []"
    using wav_file_load [OF assms(8,10)] assms(7,9) by auto
  obtain "is" ps where t: "displaced 1 is" "length is = ?n" "length ps = ?n" "numbered ps"
    "map rtp_parsed sent = map (\<lambda>i. Some (ps ! i)) is"
    "\<forall>i < ?n. (marker (ps ! i) \<longleftrightarrow> i = 0) \<and> payload (ps ! i) = media_encode pt (sender_frame pcm i)"
    using tool_sends [OF assms(1-6) load assms(11) refl] unfolding sent by blast
  let ?js = "map ((!) is) net"
  have len: "length sent = ?n" using t(2,5) by (metis length_map)
  have "length ps = length is" using t(2,3) by simp
  from arrivals [OF t(1) this t(5) net(1,2) rs(1)]
  have js: "displaced (e + 1) ?js" "rs = map (\<lambda>i. ps ! i) ?js" "length ?js = ?n" "length rs = ?n"
    using net(2) len by (simp_all add: add.commute)
  have "?js ! 0 < ?n" using js(1,3) n(2) by (metis displaced_def lessThan_iff nth_mem)
  moreover have "rs ! 0 = ps ! (?js ! 0)" using js(2,3) n(2) by simp
  ultimately have first: "?js ! 0 = 0" using rs(2) t(6) by metis
  have ins: "filter is_insert (jops evs) = map (\<lambda>i. JInsert (ps ! i)) ?js" using flow(1) js(2) by simp
  let ?qs = "echo_stream pt 0x51D0DE70 0 0 ps"
  have "map rtp_parsed (drop (length (sent_data out w)) (sent_data out (th_w c))) = map Some ?qs"
    by (rule streamed_echo [OF session t(4) js(1) _ net(3) first ins _ _ assms(5)]) (use flow(2,3) js t(3) in simp_all)
  moreover have "map sequence ?qs = map of_nat [0..<length pcm div 160]"
    using echo_stream_facts [OF assms(5), of "0x51D0DE70" 0 0 ps] t(3) n(1) by simp
  moreover note heard_samples [OF assms(5) t(3) _ refl, of "0x51D0DE70" 0 0]
  ultimately show ?thesis using t(3,6) n(1) by (intro exI [of _ ?qs]) (simp add: Let_def kSamplesPerPacket_def)
qed

section \<open>Witness\<close>

text \<open>Three frames of a constant; the tool exchanges the last two. The network delivers in the order sent.\<close>

definition demo_pcm :: "u16 list" where
  "demo_pcm = replicate 480 1000"

definition demo_args :: sender_args where
  "demo_args = sender_args_init\<lparr>sa_payloadType := 8, sa_wavPath := ''rec.wav'', sa_reorderPct := 10\<rparr>"

definition demo_files :: "string \<Rightarrow> bytes option" where
  "demo_files path = Some (wav_file 0 [] demo_pcm [])"

definition demo_draws :: "u32 \<Rightarrow> nat \<Rightarrow> real" where
  "demo_draws seed i = (if i = 3 then 0 else 50)"

definition demo_packet :: "nat \<Rightarrow> rtp_packet" where
  "demo_packet p = sender_packet 8 0x5A demo_pcm p (0x5A + of_nat p) (0x5A + of_nat (p * kSamplesPerPacket))"

lemma demo_sendTo: "udp_sendTo demo_os s d dest w
    = (Inr (int (length d)), w\<lparr>dw_tx := dw_tx w @ [(us_fd s, d, \<lparr>sa_addr = 0x7F000001, sa_port = ep_port dest\<rparr>)]\<rparr>)"
  by (simp add: udp_sendTo_def demo_os_def)

lemma demo_load: "loadWavPcm16 (demo_files path) = Some demo_pcm"
proof -
  have len: "length demo_pcm = 480" by (simp add: demo_pcm_def)
  have "length demo_pcm \<le> length (wav_file 0 [] demo_pcm [])" by (simp add: wav_file_def pcm_bytes_len)
  then show ?thesis unfolding demo_files_def using len by (intro wav_file_load) simp_all
qed

lemma demo_tool: "\<exists>st v'. sender_main demo_os demo_files demo_draws demo_args demo_world_init = Some (Inr st, v')
    \<and> sent_data dw_tx v' = map (\<lambda>p. rtp_serialize (demo_packet p)) [0, 2, 1]"
proof -
  have n: "length demo_pcm div 160 = 3" "[0..<3] = [0, 1, 2 :: nat]" by (simp_all add: demo_pcm_def numeral_3_eq_3)
  have ne: "demo_pcm \<noteq> []" by (simp add: demo_pcm_def)
  have new: "udp_new demo_os demo_world_init = (Inr \<lparr>us_fd = 3, us_localPort = 0\<rparr>, demo_world_init\<lparr>dw_next := 4, dw_open := [3]\<rparr>)"
    by (simp add: udp_new_def demo_os_def demo_world_init_def kInvalidFd_def)
  obtain s w where bind: "udp_bind demo_os \<lparr>us_fd = 3, us_localPort = 0\<rparr> ''0.0.0.0'' 0 (demo_world_init\<lparr>dw_next := 4, dw_open := [3]\<rparr>)
      = (Inr (), s, w)" "dw_tx w = []"
    by (simp add: udp_bind_def demo_os_def demo_world_init_def Let_def)
  have random: "os_random demo_os u = (0x5A, u)" for u by (simp add: demo_os_def)
  obtain st w' where stream: "sender_stream demo_os s \<lparr>ep_ip = sa_destIp demo_args, ep_port = sa_destPort demo_args\<rparr> demo_args
      (demo_draws 0x5A) 0x5A (ucast (0x5A :: u32)) 0x5A demo_pcm w = (Inr st, w')"
      "sent_data dw_tx w' = map (\<lambda>p. rtp_serialize (demo_packet p)) [0, 2, 1]"
    using bind(2)
    by (simp add: sender_stream_def n sender_init_def sender_step_def sender_draw_def demo_draws_def demo_args_def
        sender_args_init_def demo_sendTo sender_flush_def sent_data_def demo_packet_def kSamplesPerPacket_def Let_def)
  have "sa_wavPath demo_args \<noteq> []" by (simp add: demo_args_def)
  then have "sender_main demo_os demo_files demo_draws demo_args demo_world_init = Some (Inr st, udp_destroy demo_os s w')"
    using demo_load ne new bind(1) random stream(1) by (simp add: sender_main_def)
  moreover have "sent_data dw_tx (udp_destroy demo_os s w') = sent_data dw_tx w'"
    by (simp add: sent_data_def udp_destroy_out [OF demo_udp_laws])
  ultimately show ?thesis using stream(2) by auto
qed

text \<open>The session that receives what was sent.\<close>

definition demo_arrived :: "rtp_packet list" where
  "demo_arrived = map demo_packet [0, 2, 1]"

definition demo_heard_world :: demo_world where
  "demo_heard_world = demo_world_init\<lparr>dw_rx := map (\<lambda>p. (rtp_serialize p, \<lparr>sa_addr = 0, sa_port = 4000\<rparr>)) demo_arrived\<rparr>"

lemma demo_packet_facts: "rtp_wf (demo_packet p)" "payloadType (demo_packet p) = 8" "marker (demo_packet p) \<longleftrightarrow> p = 0"
    "sequence (demo_packet p) = 0x5A + of_nat p" "length (rtp_serialize (demo_packet p)) \<le> 2048"
proof -
  have "length (payload (demo_packet p)) \<le> 160"
    by (simp add: demo_packet_def sender_packet_def Let_def length_encoded sender_frame_def kSamplesPerPacket_def)
  then show "length (rtp_serialize (demo_packet p)) \<le> 2048"
    by (simp add: demo_packet_def sender_packet_def Let_def rtp_packet_init_def rtp_serialize_def wr16_def wr32_def)
qed (simp_all add: demo_packet_def sender_packet_def Let_def rtp_wf_def rtp_packet_init_def)

lemma demo_played:
  "snd (jb_run (jb_new \<lparr>targetDepth = 3, capacity = 100\<rparr>) (map JInsert demo_arrived @ replicate 3 JPop)) = map demo_packet [0, 1, 2]"
  "paced \<lparr>targetDepth = 3, capacity = 100\<rparr> 1 3 clock_start (map JInsert demo_arrived @ replicate 3 JPop)"
proof -
  let ?ps = "map demo_packet [0, 1, 2]" and ?c = "\<lparr>targetDepth = 3, capacity = 100\<rparr>"
  let ?ops = "map JInsert demo_arrived @ replicate 3 JPop"
  have p: "numbered ?ps" "displaced 1 [0, 2, 1]" "length [0, 2, 1 :: nat] = length ?ps"
    by (auto simp: numbered_def displaced_def demo_packet_facts less_Suc_eq numeral_3_eq_3)
  have paced: "paced ?c 1 3 clock_start ?ops" "clock_played ?c clock_start ?ops = 3"
    by (simp_all add: demo_arrived_def clock_start_def clock_played_def numeral_3_eq_3)
  then show "paced ?c 1 3 clock_start ?ops" by simp
  have "snd (jb_run (jb_new ?c) ?ops) = map ((!) ?ps) [0..<clock_played ?c clock_start ?ops]"
    by (rule stream_played [OF p]) (use paced in \<open>simp_all add: demo_arrived_def numeral_3_eq_3\<close>)
  then show "snd (jb_run (jb_new ?c) ?ops) = ?ps" unfolding paced(2) by (simp add: numeral_3_eq_3)
qed

definition demo_call_events :: "media_event list" where
  "demo_call_events = map Inserted demo_arrived @ replicate 3 Popped @ map Echoed (map demo_packet [0, 1, 2])"

lemma demo_call_traffic: "jops demo_call_events = map JInsert demo_arrived @ replicate 3 JPop"
    "echoed demo_call_events = map demo_packet [0, 1, 2]"
  by (simp_all add: demo_call_events_def demo_arrived_def numeral_3_eq_3 echoed_def jops_def)

lemma demo_session: "\<exists>m0 w1 m w es c. media_new demo_os ''127.0.0.1'' 40000 [] demo_heard_world = (Inr m0, w1)
    \<and> media_start demo_os m0 demo_peer 8 101 w1 = (m, w) \<and> dw_tx w = []
    \<and> fine_run demo_os (threads_of (m, w)) es = (c, demo_call_events) \<and> th_main c = MStopped"
proof -
  obtain w1 where new: "media_new demo_os ''127.0.0.1'' 40000 [] demo_heard_world = (Inr demo_new_session, w1)"
    "dw_rx w1 = dw_rx demo_heard_world" "dw_tx w1 = []"
    by (simp add: media_new_def udp_new_def udp_bind_def demo_os_def demo_heard_world_def demo_world_init_def
        demo_new_session_def kInvalidFd_def Let_def)
  obtain m where start: "media_start demo_os demo_new_session demo_peer 8 101 w1 = (m, w1)"
    by (simp add: media_start_def demo_new_session_def media_init_def)
  have s: "session_start m 8 101" using media_new_start [OF new(1) start] by blast
  have len: "length demo_arrived = 3" by (simp add: demo_arrived_def)
  have rx: "dw_rx w1 = map (\<lambda>p. (rtp_serialize p, \<lparr>sa_addr = 0, sa_port = 4000\<rparr>)) demo_arrived"
    by (simp add: new(2) demo_heard_world_def)
  have ok: "\<forall>p \<in> set demo_arrived. rtp_wf p \<and> \<not> dtmf_packet 101 p \<and> length (rtp_serialize p) \<le> 2048"
    using demo_packet_facts by (auto simp: demo_arrived_def dtmf_packet_def)
  have "snd (jb_run (foldl jb_insert jb rs) ops) = snd (jb_run jb (map JInsert rs @ ops))" for jb rs ops
    by (induction rs arbitrary: jb) simp_all
  then have "snd (jb_run (foldl jb_insert (jb_new \<lparr>targetDepth = 3, capacity = 100\<rparr>) demo_arrived)
      (replicate (length demo_arrived) JPop)) = map demo_packet [0, 1, 2]"
    unfolding len by (simp only: demo_played(1))
  from demo_media_run [OF s rx ok _ this] obtain m' w' ts where "media_run demo_os (m, w1) ts = ((m', w'), demo_call_events)"
    unfolding demo_call_events_def len by auto
  from stop_after_run [OF demo_udp_laws new(1) start this]
  have "\<exists>es c. fine_run demo_os (threads_of (m, w1)) es = (c, demo_call_events) \<and> th_main c = MStopped"
    unfolding demo_call_traffic demo_played(1) by simp
  then show ?thesis using new start by blast
qed

theorem recording_heard_witness: "\<exists>st v' m w es c qs.
    sender_main demo_os demo_files demo_draws demo_args demo_world_init = Some (Inr st, v')
    \<and> fine_run demo_os (threads_of (m, w)) es = (c, demo_call_events) \<and> th_main c = MStopped
    \<and> map rtp_parsed (sent_data dw_tx (th_w c)) = map Some qs \<and> length qs = 3
    \<and> length (concat (map (\<lambda>q. media_decode 8 (payload q)) qs)) = 480
    \<and> 32 * \<bar>sint (concat (map (\<lambda>q. media_decode 8 (payload q)) qs) ! 479) - 1000\<bar> \<le> 1256"
proof -
  obtain st v' where tool: "sender_main demo_os demo_files demo_draws demo_args demo_world_init = Some (Inr st, v')"
    "sent_data dw_tx v' = map (\<lambda>p. rtp_serialize (demo_packet p)) [0, 2, 1]" using demo_tool by blast
  obtain m0 w1 m w es c where call: "media_new demo_os ''127.0.0.1'' 40000 [] demo_heard_world = (Inr m0, w1)"
    "media_start demo_os m0 demo_peer 8 101 w1 = (m, w)" "dw_tx w = []"
    "fine_run demo_os (threads_of (m, w)) es = (c, demo_call_events)" "th_main c = MStopped" using demo_session by blast
  have a: "sa_lossPct demo_args \<le> 0" "sa_payloadType demo_args = 8" "sa_wavPath demo_args \<noteq> []"
    "\<forall>seed i. 0 \<le> demo_draws seed i"
    by (simp_all add: demo_args_def sender_args_init_def demo_draws_def)
  have p: "160 \<le> length demo_pcm" "2 * length demo_pcm < 2 ^ 32" "length demo_pcm = 480" by (simp_all add: demo_pcm_def)
  let ?sent = "map (\<lambda>p. rtp_serialize (demo_packet p)) [0, 2, 1]"
  have sent: "?sent = drop (length (sent_data dw_tx demo_world_init)) (sent_data dw_tx v')"
    by (simp add: tool(2)) (simp add: sent_data_def demo_world_init_def)
  have net: "displaced 0 [0, 1, 2]" "length [0, 1, 2 :: nat] = length ?sent" "0 + 1 < (16384 :: nat)"
    by (auto simp: displaced_def less_Suc_eq numeral_3_eq_3)
  have rs: "map Some demo_arrived = map (\<lambda>i. rtp_parsed (?sent ! i)) [0, 1, 2]" "marker (demo_arrived ! 0)"
    by (simp_all add: demo_arrived_def rtp_parsed_serialize demo_packet_facts)
  have three: "length demo_arrived = 3" by (simp add: demo_arrived_def)
  have paced: "paced \<lparr>targetDepth = 3, capacity = 100\<rparr> (0 + 1) (length demo_arrived) clock_start (jops demo_call_events)"
    unfolding demo_call_traffic three add_0 by (rule demo_played(2))
  have flow: "filter is_insert (jops demo_call_events) = map JInsert demo_arrived"
    "length (echoed demo_call_events) = length demo_arrived"
    unfolding demo_call_traffic by (simp_all add: demo_arrived_def)
  have src: "demo_files (sa_wavPath demo_args) = Some (wav_file 0 [] demo_pcm [])" "list_all chunk_ok []"
    by (simp_all add: demo_files_def)
  from recording_heard [OF demo_udp_laws a(4,1,2) disjI2 [OF refl] a(3) src p(1,2) tool(1) sent net rs demo_udp_laws
      demo_sends call(1,2,4,5) flow(1) paced flow(2)]
  obtain qs where q: "map rtp_parsed (drop (length (sent_data dw_tx w)) (sent_data dw_tx (th_w c))) = map Some qs"
    "map sequence qs = map of_nat [0..<length demo_pcm div 160]"
    "length (concat (map (\<lambda>q. media_decode 8 (payload q)) qs)) = length demo_pcm div 160 * 160"
    "\<forall>i < length (concat (map (\<lambda>q. media_decode 8 (payload q)) qs)).
      32 * \<bar>sint (concat (map (\<lambda>q. media_decode 8 (payload q)) qs) ! i) - sint (demo_pcm ! i)\<bar> \<le> \<bar>sint (demo_pcm ! i)\<bar> + 256"
    unfolding Let_def by blast
  have "length qs = 3" using arg_cong [OF q(2), of length] p(3) by simp
  moreover have "drop (length (sent_data dw_tx w)) (sent_data dw_tx (th_w c)) = sent_data dw_tx (th_w c)"
    by (simp add: sent_data_def call(3))
  moreover have "demo_pcm ! 479 = 1000" by (simp add: demo_pcm_def)
  moreover have "length (concat (map (\<lambda>q. media_decode 8 (payload q)) qs)) = 480" using q(3) p(3) by simp
  ultimately show ?thesis using q(1) q(4) [rule_format, of 479] tool(1) call(4,5)
    by (intro exI [of _ st] exI [of _ v'] exI [of _ m] exI [of _ w] exI [of _ es] exI [of _ c] exI [of _ qs]) simp
qed

end
