(* ===== verification/Spec2Isabelle.thy ===== *)
theory Spec2Isabelle
  imports G711 Resample Rtp_Packet Seq_Unwrap Ordered_Map Jitter_Buffer Jitter_Stream Rtp_Stats Rfc4733
    Bounded_Queue Cxx_Strings Sip_Message Sip_Parser Sdp Sip_Uas Net_Os Udp_Socket Ws_Client
    Ws_Threads Media_Session Media_Threads Call_Ports Cxx_Args Sip_App Rtp_Sender End_To_End
begin

text \<open>
  A verification of sipdemo, a SIP/RTP endpoint in C++: it answers a call, plays the caller's audio
  through a jitter buffer, forks it to a speech gateway over a WebSocket, and echoes it back.

  \<^bold>\<open>The program and the theories.\<close> A datagram on the SIP socket is parsed (\<open>parseSip\<close>), handed to the
  user agent server (\<open>uas_handle\<close>), and its responses are serialised and sent back; the agent starts and
  stops the media session of the call. A session has three threads: one receives RTP packets, follows the
  peer's address, decodes key presses, counts losses and fills the jitter buffer; one pops the buffer into
  a bounded queue; one drains the queue, decodes, forwards and echoes. Every theory models the file of
  src/ that it names, with the names of the code:
  \<^item> Prelude: the machine integers \<open>u8\<close> to \<open>u64\<close> and lemmas on words, lists and maps. Net_Os: the
    operating system's calls as a parameter, the laws theorems assume of them, and a small system that
    satisfies the laws, for the witnesses. Cxx_Strings, Cxx_Args: what the code uses of the C++ library on
    strings and numbers.
  \<^item> G711 (src/src/codec/G711.cpp), Resample (Resample.cpp): the companding laws and the upsampler.
  \<^item> Rtp_Packet (src/src/rtp/RtpPacket.cpp): parsing, with every read outside the datagram visible as
    \<open>None\<close>, serialization, sequence arithmetic.
  \<^item> Jitter_Buffer (src/src/jitter/JitterBuffer.cpp) over Seq_Unwrap (64-bit positions from 16-bit
    sequence numbers) and Ordered_Map (\<open>std::map\<close>); Jitter_Stream: the buffer in continuous operation,
    refining a clock that only counts packets; Rtp_Stats (src/src/stats/RtpStats.cpp).
  \<^item> Rfc4733 (src/src/dtmf/Rfc4733.cpp): the telephone-event decoder.
  \<^item> Bounded_Queue (src/include/sipdemo/BoundedQueue.h): the queue's methods, and the queue as a step
    relation of threads that block on condition variables.
  \<^item> Sip_Message, Sip_Parser (src/src/sip/SipParser.cpp), Sdp (Sdp.cpp), Sip_Uas (SipUas.cpp): messages,
    session descriptions, and the whole request handler.
  \<^item> Udp_Socket (src/src/net/UdpSocket.cpp), Ws_Client (src/src/ws/WsClient.cpp): the sockets; a thrown
    exception is an error value. Ws_Threads: the WebSocket client as its reader, its senders and a
    closer use it at the same time, a system call a step.
  \<^item> Media_Session and Sip_App (src/src/app/main.cpp): the session, whose threads' turns are interleaved
    by any schedule, and \<open>main\<close>, whose turns are interleaved with the session's. Media_Threads: the same
    threads step by step, with the mutexes they take. Call_Ports: what a session's bound address means
    for a second one.
  \<^item> Rtp_Sender (src/src/tools/rtp_sender.cpp): the test tool with injected loss and reordering.
  \<^item> End_To_End: tool, network and session together, from the file played to the samples heard.

  A class is a record with the class's fields, a method a function from the record (and the state of the
  operating system) to its new state; \<open>double\<close> is \<open>real\<close>, \<open>int64_t\<close> positions are \<open>int\<close> with the overflow
  bound proved (\<open>jb_int64_bound\<close>), every other integer keeps its width.

  \<^bold>\<open>Interfaces.\<close> The locales state what a component relies on: a codec that recodes (\<open>companding\<close>, G711), a
  queue that can be closed (\<open>closable_queue\<close>, Bounded_Queue), the positions of an unwrapper (\<open>unwrap\<close>,
  Seq_Unwrap, interpreted for the jitter buffer and the statistics), a header store (\<open>header_store\<close>,
  Sip_Message), a parser that undoes a printer (\<open>wire_format\<close>, Prelude, interpreted for RTP, SIP and SDP), a
  state machine with an invariant (\<open>machine\<close>, Prelude), threads that guard their data with mutexes
  (\<open>lock_discipline\<close>) and threads that get to an end under a fair schedule (\<open>fair_run\<close>, both
  Lock_Discipline, interpreted for the media session and the WebSocket client); each is interpreted on the model of the code.

  \<^bold>\<open>What the lemmas show.\<close> Codecs: exact recoding and error bounds. Packets and messages: round trips both
  ways, well-formedness of whatever the parsers accept, memory safety. Jitter buffer: order, conservation,
  restoration of a reordered stream of any length while it is being played. Queue: linearisation to a FIFO and no lost wakeup. Agent: what each
  request does, on every branch. Sockets and WebSocket: no descriptor leak, frames as RFC 6455 has them,
  delivery over partial writes and reads, frames of several threads that never mix, a close that returns as
  soon as the reader's receive does (and no sooner). Session: the echo stream for every
  interleaving of the threads' steps, no data race but on the jitter buffer (which the code does not lock:
  that one is shown to be reachable), \<open>stop\<close> returns under any fair schedule and drains the queue. Program: it
  refines the agent, answers the sender of every request, leaks nothing, and ends by an uncaught
  exception when a second session starts before the first is stopped. Tool: the damage done is the damage
  asked for. All together: a recording played by the tool over a network that reorders is heard, sample by
  sample, within the error of companding it once.

  \<^bold>\<open>Loops.\<close> Loops are recursive functions with termination proofs; only the WebSocket reader and the walk over
  the chunks of a WAVE file, which may not end, are partial functions, with \<open>None\<close> for a call that
  does not return, and the theorems about them say when they return. There is no fuel.

  \<^bold>\<open>Not modelled.\<close> The Windows branches; text that is printed; sleeps and the pacing of the loops; running out of
  memory; what overlapping unlocked accesses to the jitter buffer do (C++ gives them no meaning): the
  theorems on the data flow hold of the runs in which its calls do not overlap. The speech gateway of
  src/gateway is a Python program around third-party libraries, and the tests and scripts only exercise
  the rest.
\<close>

end
